(* ===== verification/Sigbench_Prelude.thy ===== *)
theory Sigbench_Prelude
  imports Main "HOL-Library.Word" "HOL-Library.Signed_Division"
begin

text \<open>
  The prelude of the development: Go's 64-bit integers, the outcomes of a Go computation
  (a value, a run-time panic, a call of \<^verbatim>\<open>log.Fatal\<close>), total map reads, and the
  generic lemmas the component theories share.

  \<^verbatim>\<open>int64\<close> and (on the 64-bit platforms the Makefile builds for) \<^verbatim>\<open>int\<close> are
  \<open>64 word\<close>: \<open>+\<close>, \<open>-\<close> and \<open>*\<close> wrap around, \<open>sint\<close> reads the
  two's-complement value, \<open><s\<close> and \<open>\<le>s\<close> compare signed values.
\<close>

named_theorems go_defs \<open>definitions of the Go runtime model\<close>

named_theorems int64_exact \<open>signed values of words when nothing overflows\<close>

named_theorems session_defs \<open>definitions of the session machines\<close>

type_synonym int64 = "64 word"
type_synonym goint = "64 word"
type_synonym uint64 = "64 word"
type_synonym goerror = string
type_synonym params = "string \<rightharpoonup> string"
type_synonym counters = "string \<rightharpoonup> int64"

subsection \<open>Outcomes of a Go computation\<close>

text \<open>
  Why a step ends the process: a run-time panic or, as \<open>LogFatal\<close>, a call of
  \<^verbatim>\<open>log.Fatal\<close> in one of its goroutines.
\<close>

datatype panic =
    IndexOutOfRange
  | SliceOutOfRange
  | DivideByZero
  | NilDereference
  | CloseOfClosedChannel
  | MakeChanSize
  | MakeSliceLen
  | TypeAssertion
  | NegativeWaitGroup
  | LogFatal string

datatype 'a go = Return 'a | Panic panic | Fatal string

fun go_bind :: "'a go \<Rightarrow> ('a \<Rightarrow> 'b go) \<Rightarrow> 'b go" where
  "go_bind (Return a) f = f a"
| "go_bind (Panic p) f = Panic p"
| "go_bind (Fatal m) f = Fatal m"

lemma go_bind_Return_iff [simp]:
  "go_bind m f = Return b \<longleftrightarrow> (\<exists>a. m = Return a \<and> f a = Return b)"
  by (cases m) auto

lemma go_bind_assoc: "go_bind (go_bind m f) g = go_bind m (\<lambda>a. go_bind (f a) g)"
  by (cases m) auto

lemma go_bind_Return_right [simp]: "go_bind m Return = m"
  by (cases m) auto

subsection \<open>Reading a Go map: a missing key gives the zero value\<close>

definition str_get :: "params \<Rightarrow> string \<Rightarrow> string" where
  [go_defs]: "str_get m k = (case m k of None \<Rightarrow> '''' | Some v \<Rightarrow> v)"

definition cnt_get :: "counters \<Rightarrow> string \<Rightarrow> int64" where
  [go_defs]: "cnt_get m k = (case m k of None \<Rightarrow> 0 | Some v \<Rightarrow> v)"

lemma cnt_get_empty [simp]: "cnt_get Map.empty k = 0"
  by (simp add: cnt_get_def)

lemma cnt_get_upd [simp]: "cnt_get (m(k \<mapsto> v)) k' = (if k' = k then v else cnt_get m k')"
  by (simp add: cnt_get_def)

lemma str_get_upd [simp]: "str_get (m(k \<mapsto> v)) k' = (if k' = k then v else str_get m k')"
  by (simp add: str_get_def)

subsection \<open>Signed 64-bit arithmetic\<close>

definition in_int64 :: "int \<Rightarrow> bool" where
  "in_int64 x \<longleftrightarrow> - (2 ^ 63) \<le> x \<and> x < 2 ^ 63"

lemma in_int64_sint [simp]: "in_int64 (sint (a :: int64))"
  using sint_range_size[of a] by (simp add: in_int64_def word_size)

lemma sint_of_int_exact [int64_exact]: "in_int64 x \<Longrightarrow> sint (word_of_int x :: int64) = x"
  by (simp add: in_int64_def signed_of_int signed_take_bit_int_eq_self)

lemma word_of_int_sint64 [simp]: "word_of_int (sint (a :: int64)) = a"
  by simp

lemma int64_eqI: "sint (a :: int64) = sint b \<Longrightarrow> a = b"
  by (rule signed_word_eqI)

lemma sint_add_exact [int64_exact]:
  "in_int64 (sint a + sint b) \<Longrightarrow> sint (a + b :: int64) = sint a + sint b"
  by (simp add: sint_word_add in_int64_def signed_take_bit_int_eq_self)

lemma sint_sub_exact [int64_exact]:
  "in_int64 (sint a - sint b) \<Longrightarrow> sint (a - b :: int64) = sint a - sint b"
  by (simp add: sint_word_diff in_int64_def signed_take_bit_int_eq_self)

lemma sint_mult_exact [int64_exact]:
  "in_int64 (sint a * sint b) \<Longrightarrow> sint (a * b :: int64) = sint a * sint b"
  by (simp add: sint_word_mult in_int64_def signed_take_bit_int_eq_self)

text \<open>Integer division and remainder truncate towards zero; a zero divisor panics.\<close>

definition go_div :: "int64 \<Rightarrow> int64 \<Rightarrow> int64 go" where
  [go_defs]: "go_div a b =
     (if b = 0 then Panic DivideByZero else Return (word_of_int (sint a sdiv sint b)))"

definition go_rem :: "int64 \<Rightarrow> int64 \<Rightarrow> int64 go" where
  [go_defs]: "go_rem a b =
     (if b = 0 then Panic DivideByZero else Return (word_of_int (sint a smod sint b)))"

lemma sdiv_int_nonneg [simp]: "0 \<le> (a::int) \<Longrightarrow> 0 \<le> b \<Longrightarrow> a sdiv b = a div b"
  by (cases "a = 0"; cases "b = 0") (auto simp: signed_divide_int_def sgn_if)

lemma smod_int_nonneg [simp]: "0 \<le> (a::int) \<Longrightarrow> 0 \<le> b \<Longrightarrow> a smod b = a mod b"
  by (cases "a = 0"; cases "b = 0") (auto simp: signed_modulo_int_def sgn_if)

text \<open>A slice read \<^verbatim>\<open>xs[i]\<close> with an \<^verbatim>\<open>int\<close> index.\<close>

definition go_index :: "'a list \<Rightarrow> int64 \<Rightarrow> 'a go" where
  [go_defs]: "go_index xs i =
     (if 0 \<le> sint i \<and> sint i < int (length xs) then Return (xs ! nat (sint i))
      else Panic IndexOutOfRange)"

lemma go_index_Return:
  "0 \<le> sint i \<Longrightarrow> sint i < int (length xs) \<Longrightarrow> go_index xs i = Return (xs ! nat (sint i))"
  by (simp add: go_index_def)

text \<open>The number of iterations of \<^verbatim>\<open>for i := 0; i < n; i++\<close>.\<close>

definition iterations :: "int64 \<Rightarrow> nat" where
  [go_defs]: "iterations n = nat (sint n)"

lemma sint_Suc_less: "i <s n \<Longrightarrow> sint (i + 1 :: int64) = sint i + 1"
proof -
  assume "i <s n"
  then have "sint i < sint n" by (simp add: word_sless_alt)
  then show ?thesis
    using in_int64_sint[of n] in_int64_sint[of i]
    by (subst sint_add_exact) (auto simp: in_int64_def)
qed

text \<open>
  \<^verbatim>\<open>make\<close> panics for a negative length and for one whose memory exceeds the
  allocator's limit of \<open>2 ^ 48\<close> bytes.
\<close>

definition alloc_fits :: "int \<Rightarrow> int \<Rightarrow> bool" where
  [go_defs]: "alloc_fits elem_size n \<longleftrightarrow> 0 \<le> n \<and> n * elem_size \<le> 2 ^ 48"

definition make_slice :: "int \<Rightarrow> (nat \<Rightarrow> 'a) \<Rightarrow> int \<Rightarrow> 'a list go" where
  [go_defs]: "make_slice elem_size f n =
     (if alloc_fits elem_size n then Return (map f [0..<nat n]) else Panic MakeSliceLen)"

subsection \<open>Sums\<close>

lemma sum_list_map_update:
  fixes f :: "'a \<Rightarrow> 'b::ab_group_add"
  assumes "i < length xs"
  shows "sum_list (map f (xs[i := y])) = sum_list (map f xs) - f (xs ! i) + f y"
  using assms
proof (induction xs arbitrary: i)
  case Nil
  then show ?case by simp
next
  case (Cons x xs)
  then show ?case by (cases i) (auto simp: algebra_simps)
qed

lemma sum_list_of_bool: "sum_list (map (\<lambda>x. of_bool (P x)) xs) = of_nat (length (filter P xs))"
  by (induction xs) auto

lemma length_filter_update:
  assumes "i < length xs"
  shows "length (filter P (xs[i := y])) + of_bool (P (xs ! i)) = length (filter P xs) + of_bool (P y)"
  using assms
proof (induction xs arbitrary: i)
  case Nil
  then show ?case by simp
next
  case (Cons x xs)
  then show ?case by (cases i) auto
qed

lemma length_filter_update_int:
  "i < length xs \<Longrightarrow>
     int (length (filter P (xs[i := y]))) = int (length (filter P xs)) - of_bool (P (xs ! i)) + of_bool (P y)"
  using length_filter_update[of i xs P y] by (cases "P (xs ! i)"; cases "P y") auto

lemma filter_length_mono: "(\<And>x. x \<in> set xs \<Longrightarrow> P x \<Longrightarrow> Q x) \<Longrightarrow> length (filter P xs) \<le> length (filter Q xs)"
  by (induction xs) (auto simp: le_Suc_eq)

end
