(* ===== verification/Go_Strings.thy ===== *)
theory Go_Strings
  imports Sigbench_Prelude "HOL-Library.Char_ord" "HOL-Library.List_Lexorder"
begin

text \<open>
  What the program uses of the packages \<^verbatim>\<open>strings\<close> and \<^verbatim>\<open>strconv\<close>:
  \<^verbatim>\<open>Split\<close> and \<^verbatim>\<open>Join\<close> with a one-byte separator, \<^verbatim>\<open>ParseUint\<close>,
  \<^verbatim>\<open>ParseInt\<close>, \<^verbatim>\<open>Atoi\<close>, \<^verbatim>\<open>FormatInt\<close> and \<^verbatim>\<open>Itoa\<close>, and
  the byte-wise order on strings. A Go string is a byte sequence, here a \<open>char list\<close>.
  The parsers return the value next to the error, as Go does: a range error comes with the
  clamped value, and some callers ignore the error and keep that value.
\<close>

subsection \<open>Split and Join\<close>

fun split_on :: "char \<Rightarrow> string \<Rightarrow> string list" where
  "split_on c [] = [[]]"
| "split_on c (x # xs) =
     (if x = c then [] # split_on c xs
      else (x # hd (split_on c xs)) # tl (split_on c xs))"

fun join_with :: "char \<Rightarrow> string list \<Rightarrow> string" where
  "join_with c [] = []"
| "join_with c [s] = s"
| "join_with c (s # t # ss) = s @ c # join_with c (t # ss)"

lemma split_on_nonempty [simp]: "split_on c s \<noteq> []"
  by (induction s) auto

lemma length_split_on_pos [simp]: "0 < length (split_on c s)"
  by simp

lemma join_with_Cons: "ss \<noteq> [] \<Longrightarrow> join_with c (s # ss) = s @ c # join_with c ss"
  by (cases ss) auto

lemma join_with_hd: "ss \<noteq> [] \<Longrightarrow> join_with c ((x # hd ss) # tl ss) = x # join_with c ss"
  by (cases ss; cases "tl ss") auto

lemma join_split [simp]: "join_with c (split_on c s) = s"
  by (induction s) (auto simp: join_with_Cons join_with_hd)

lemma split_on_no_sep: "c \<notin> set s \<Longrightarrow> split_on c s = [s]"
  by (induction s) auto

lemma split_on_append: "c \<notin> set s \<Longrightarrow> split_on c (s @ c # t) = s # split_on c t"
  by (induction s) auto

lemma split_join:
  "ss \<noteq> [] \<Longrightarrow> \<forall>s\<in>set ss. c \<notin> set s \<Longrightarrow> split_on c (join_with c ss) = ss"
  by (induction c ss rule: join_with.induct) (auto simp: split_on_no_sep split_on_append)

subsection \<open>Parsing integers\<close>

datatype num_error = ErrSyntax | ErrRange

definition digit_val :: "char \<Rightarrow> int option" where
  "digit_val c = (let n = of_char c in
     if 48 \<le> n \<and> n \<le> 57 then Some (n - 48)
     else if 97 \<le> n \<and> n \<le> 122 then Some (n - 87)
     else if 65 \<le> n \<and> n \<le> 90 then Some (n - 55)
     else None)"

fun parse_digits :: "int \<Rightarrow> string \<Rightarrow> int \<Rightarrow> int \<times> num_error option" where
  "parse_digits b [] n = (n, None)"
| "parse_digits b (c # cs) n =
     (case digit_val c of
        None \<Rightarrow> (0, Some ErrSyntax)
      | Some d \<Rightarrow>
          if b \<le> d then (0, Some ErrSyntax)
          else if 2 ^ 64 \<le> n * b + d then (2 ^ 64 - 1, Some ErrRange)
          else parse_digits b cs (n * b + d))"

definition parse_uint :: "string \<Rightarrow> int \<Rightarrow> int \<times> num_error option" where
  "parse_uint s b = (if s = [] then (0, Some ErrSyntax) else parse_digits b s 0)"

definition parse_int :: "string \<Rightarrow> int \<Rightarrow> int64 \<times> num_error option" where
  "parse_int s b =
     (if s = [] then (0, Some ErrSyntax)
      else
        let neg = (hd s = CHR ''-'');
            body = (if hd s = CHR ''+'' \<or> hd s = CHR ''-'' then tl s else s);
            (un, err) = parse_uint body b
        in if err = Some ErrSyntax then (0, Some ErrSyntax)
           else if \<not> neg \<and> 2 ^ 63 \<le> un then (word_of_int (2 ^ 63 - 1), Some ErrRange)
           else if neg \<and> 2 ^ 63 < un then (word_of_int (- (2 ^ 63)), Some ErrRange)
           else if neg then (word_of_int (- un), None)
           else (word_of_int un, None))"

definition atoi :: "string \<Rightarrow> goint \<times> num_error option" where
  "atoi s = parse_int s 10"

subsection \<open>Printing integers\<close>

definition digit_char :: "int \<Rightarrow> char" where
  "digit_char d = char_of (48 + d)"

function show_int :: "int \<Rightarrow> string" where
  "show_int n =
     (if n < 10 then [digit_char n] else show_int (n div 10) @ [digit_char (n mod 10)])"
  by pat_completeness auto
termination
  by (relation "measure nat") auto

declare show_int.simps [simp del]

definition format_int :: "int64 \<Rightarrow> string" where
  "format_int v =
     (if sint v < 0 then CHR ''-'' # show_int (- sint v) else show_int (sint v))"

lemma digit_val_digit_char [simp]: "0 \<le> d \<Longrightarrow> d < 10 \<Longrightarrow> digit_val (digit_char d) = Some d"
  by (simp add: digit_val_def digit_char_def Let_def)

lemma show_int_nonempty [simp]: "show_int n \<noteq> []"
  by (subst show_int.simps) simp

lemma hd_show_int_digit: "0 \<le> n \<Longrightarrow> \<exists>d. 0 \<le> d \<and> d < 10 \<and> hd (show_int n) = digit_char d"
proof (induction n rule: show_int.induct)
  case (1 n)
  show ?case
  proof (cases "n < 10")
    case True
    then show ?thesis using 1(2) by (subst show_int.simps) auto
  next
    case False
    with 1 show ?thesis by (subst show_int.simps) auto
  qed
qed

lemma hd_show_int_sign [simp]:
  assumes "0 \<le> n"
  shows "hd (show_int n) \<noteq> CHR ''-''" "hd (show_int n) \<noteq> CHR ''+''"
proof -
  obtain d where d: "0 \<le> d" "d < 10" "hd (show_int n) = digit_char d"
    using hd_show_int_digit[OF assms] by blast
  have "digit_val CHR ''-'' = None" "digit_val CHR ''+'' = None"
    by (simp_all add: digit_val_def)
  with d show "hd (show_int n) \<noteq> CHR ''-''" "hd (show_int n) \<noteq> CHR ''+''"
    by (metis digit_val_digit_char option.distinct(1))+
qed

lemma parse_digits_append:
  "parse_digits b (s @ t) n =
     (case parse_digits b s n of (m, None) \<Rightarrow> parse_digits b t m | (m, Some e) \<Rightarrow> (m, Some e))"
  by (induction b s n rule: parse_digits.induct) (auto split: option.splits)

lemma parse_show_int: "0 \<le> n \<Longrightarrow> n < 2 ^ 64 \<Longrightarrow> parse_digits 10 (show_int n) 0 = (n, None)"
proof (induction n rule: show_int.induct)
  case (1 n)
  show ?case
  proof (cases "n < 10")
    case True
    then show ?thesis using 1(2) by (subst show_int.simps) simp
  next
    case False
    with 1 have "parse_digits 10 (show_int (n div 10)) 0 = (n div 10, None)" by simp
    with False 1(2,3) show ?thesis
      by (subst show_int.simps) (simp add: parse_digits_append)
  qed
qed

text \<open>\<^verbatim>\<open>Atoi\<close> reads back what \<^verbatim>\<open>FormatInt(v, 10)\<close> prints.\<close>

lemma atoi_format_int [simp]: "atoi (format_int v) = (v, None)"
proof -
  have r: "- (2 ^ 63) \<le> sint v" "sint v < 2 ^ 63"
    using in_int64_sint[of v] by (simp_all add: in_int64_def)
  then have "0 \<le> sint v \<Longrightarrow> parse_digits 10 (show_int (sint v)) 0 = (sint v, None)"
    "sint v < 0 \<Longrightarrow> parse_digits 10 (show_int (- sint v)) 0 = (- sint v, None)"
    by (intro parse_show_int; simp)+
  with r show ?thesis
    by (auto simp: atoi_def parse_int_def format_int_def parse_uint_def)
qed

text \<open>A value parsed in a base up to 36 without error is below the power of the base.\<close>

lemma digit_val_nonneg: "digit_val c = Some d \<Longrightarrow> 0 \<le> d"
  by (auto simp: digit_val_def Let_def split: if_splits)

lemma parse_digits_bound:
  "parse_digits b s n = (m, None) \<Longrightarrow> 0 \<le> n \<Longrightarrow> 0 \<le> b \<Longrightarrow> 0 \<le> m \<and> m < (n + 1) * b ^ length s"
proof (induction b s n arbitrary: m rule: parse_digits.induct)
  case (1 b n)
  then show ?case by simp
next
  case (2 b c cs n)
  then obtain d where d: "digit_val c = Some d" "d < b"
    and rest: "parse_digits b cs (n * b + d) = (m, None)" "n * b + d < 2 ^ 64"
    by (auto split: option.splits if_splits)
  have nb: "0 \<le> n * b + d" using d 2(3,4) by (simp add: digit_val_nonneg)
  from 2(1)[OF d(1) _ _ rest(1)] nb d rest 2(4)
  have m: "0 \<le> m" "m < (n * b + d + 1) * b ^ length cs" by simp_all
  have "(n * b + d + 1) * b ^ length cs \<le> (n * b + b) * b ^ length cs"
    using d(2) 2(4) by (intro mult_right_mono) auto
  with m show ?case by (simp add: algebra_simps)
qed

end
