(* ===== verification/Vmss.thy ===== *)
theory Vmss
  imports Go_Strings
begin

text \<open>
  \<^verbatim>\<open>util/vmss.go\<close>: the instance number of a virtual machine scale set, the last six
  bytes of the host name read in base 36.
\<close>

definition get_vmss_instance_id :: "string \<Rightarrow> (int64 \<times> num_error option) go" where
  "get_vmss_instance_id hostname =
     (if length hostname < 6 then Panic SliceOutOfRange
      else Return (parse_int (drop (length hostname - 6) hostname) 36))"

definition base36_value :: "string \<Rightarrow> int" where
  "base36_value s = foldl (\<lambda>n c. n * 36 + the (digit_val c)) 0 s"

lemma digit_val_lt_36: "digit_val c = Some d \<Longrightarrow> d < 36"
  by (auto simp: digit_val_def Let_def split: if_splits)

lemma parse_digits_36:
  assumes "\<forall>c\<in>set s. digit_val c \<noteq> None" "0 \<le> n" "(n + 1) * 36 ^ length s \<le> 2 ^ 64"
  shows "parse_digits 36 s n = (foldl (\<lambda>n c. n * 36 + the (digit_val c)) n s, None)"
  using assms
proof (induction s arbitrary: n)
  case Nil
  then show ?case by simp
next
  case (Cons c cs)
  then obtain d where d: "digit_val c = Some d" by auto
  have d': "0 \<le> d" "d < 36" using d by (auto simp: digit_val_nonneg digit_val_lt_36)
  have "(n * 36 + d + 1) * 36 ^ length cs \<le> (n * 36 + 36) * 36 ^ length cs"
    using d' by (intro mult_right_mono) auto
  also have "\<dots> \<le> 2 ^ 64" using Cons(4) by (simp add: algebra_simps)
  finally have le: "(n * 36 + d + 1) * 36 ^ length cs \<le> 2 ^ 64" .
  have "(n * 36 + d + 1) * 1 \<le> (n * 36 + d + 1) * 36 ^ length cs"
    using Cons(3) d' by (intro mult_left_mono) auto
  also note le
  finally have "n * 36 + d < 2 ^ 64" by simp
  with Cons.IH[of "n * 36 + d"] Cons(2,3) d d' le show ?case by simp
qed

lemma parse_digits_lt_36_6: "length s \<le> 6 \<Longrightarrow> parse_digits 36 s 0 = (m, None) \<Longrightarrow> 0 \<le> m \<and> m < 36 ^ 6"
proof -
  assume len: "length s \<le> 6" and p: "parse_digits 36 s 0 = (m, None)"
  have "(36::int) ^ length s \<le> 36 ^ 6" using len by (intro power_increasing) auto
  with parse_digits_bound[OF p] show ?thesis by simp
qed

text \<open>
  C33: for a host name of at least six bytes whose last six bytes are letters or digits,
  \<^verbatim>\<open>GetVMSSInstanceId\<close> returns the base-36 value of these six bytes, which lies between
  0 and \<open>36 ^ 6 - 1\<close>, and no error.
\<close>

theorem vmss_instance_id:
  assumes "6 \<le> length hostname"
    and "\<forall>c\<in>set (drop (length hostname - 6) hostname). digit_val c \<noteq> None"
  shows "\<exists>v. get_vmss_instance_id hostname = Return (v, None)
    \<and> sint v = base36_value (drop (length hostname - 6) hostname) \<and> 0 \<le> sint v \<and> sint v < 36 ^ 6"
proof -
  define s where "s = drop (length hostname - 6) hostname"
  have len: "length s = 6" using assms(1) by (simp add: s_def)
  have sign: "digit_val CHR ''-'' = None" "digit_val CHR ''+'' = None"
    by (simp_all add: digit_val_def)
  have hd: "hd s \<noteq> CHR ''-''" "hd s \<noteq> CHR ''+''"
    using assms(2) len sign unfolding s_def[symmetric] by (cases s; auto)+
  have p: "parse_digits 36 s 0 = (base36_value s, None)"
    using parse_digits_36[of s 0] assms(2) len by (simp add: s_def base36_value_def)
  then have v: "0 \<le> base36_value s" "base36_value s < 36 ^ 6"
    using parse_digits_lt_36_6[of s] len by simp_all
  then have "parse_int s 36 = (word_of_int (base36_value s), None)"
    using p hd len by (auto simp: parse_int_def parse_uint_def)
  moreover have "sint (word_of_int (base36_value s) :: int64) = base36_value s"
    using v by (intro sint_of_int_exact) (simp add: in_int64_def)
  ultimately show ?thesis
    using assms(1) v by (simp add: get_vmss_instance_id_def flip: s_def)
qed

theorem vmss_instance_id_witness:
  "\<exists>v. get_vmss_instance_id ''daysh85d200001D'' = Return (v, None) \<and> sint v = 49"
proof -
  have "base36_value (drop (length ''daysh85d200001D'' - 6) ''daysh85d200001D'') = 49"
    by code_simp
  moreover have "\<forall>c\<in>set (drop (length ''daysh85d200001D'' - 6) ''daysh85d200001D''). digit_val c \<noteq> None"
    by (simp add: digit_val_def)
  ultimately show ?thesis using vmss_instance_id[of "''daysh85d200001D''"] by auto
qed

end
