(* ===== verification/Session_Machine.thy ===== *)
theory Session_Machine
  imports Go_Strings
begin

text \<open>
  What all sessions of \<^verbatim>\<open>sessions/\<close> share. A session object is one struct of
  \<^verbatim>\<open>int64\<close> counters that many goroutines update with atomic operations while each of
  them runs \<^verbatim>\<open>Execute\<close> for one user. It is modelled as a step function on the shared
  struct \<open>'s\<close> and the local state \<open>'l\<close> of one user (the program counters of
  \<^verbatim>\<open>Execute\<close> and of the goroutine it starts, its channels and variables). An event
  \<open>'e\<close> is a call of a library or of the network with its arguments and its answer, the
  expiry of a timer, or an internal step; the step function says which events the code
  admits and what it does with the answer, so an adversarial environment is any sequence of
  events. Users interleave arbitrarily in \<open>sys_step\<close>.

  The interface that the sessions promise their clients is stated as two locales:
  \<open>session_counter\<close>, a counter whose value is always the sum of what the users
  contribute to it, and \<open>session_api\<close>, the reset of the counters by \<^verbatim>\<open>Setup\<close>.
\<close>

record user_context =
  UserId :: string
  ctx_Phase :: string
  ctx_Params :: params

definition ParamHost :: string where "ParamHost = ''host''"
definition ParamPassword :: string where "ParamPassword = ''password''"
definition ParamBroadcastDurationSecs :: string where
  "ParamBroadcastDurationSecs = ''broadcastDurationSecs''"
definition ParamPublishInterval :: string where "ParamPublishInterval = ''publishInterval''"

text \<open>
  The idiom of the \<^verbatim>\<open>Setup\<close> methods for an optional integer parameter, and
  \<^verbatim>\<open>make([]byte, n)\<close> filled by \<^verbatim>\<open>rand.Read\<close>, whose bytes are the
  sequence \<open>rnd\<close>. Of a conversion error only the reason is kept as its text.
\<close>

definition num_error_text :: "num_error \<Rightarrow> goerror" where
  "num_error_text e =
     (case e of ErrSyntax \<Rightarrow> ''invalid syntax'' | ErrRange \<Rightarrow> ''value out of range'')"

definition param_int :: "params \<Rightarrow> string \<Rightarrow> goint \<Rightarrow> goint \<times> num_error option" where
  "param_int ps k dflt = (if str_get ps k = '''' then (dflt, None) else atoi (str_get ps k))"

definition make_payload :: "(nat \<Rightarrow> 8 word) \<Rightarrow> goint \<Rightarrow> 8 word list go" where
  "make_payload rnd n = make_slice 1 rnd (sint n)"

text \<open>
  The idiom of the broadcasting sessions: 10 seconds unless the parameter is present and a
  number.
\<close>

definition broadcast_duration_secs :: "params \<Rightarrow> goint" where
  "broadcast_duration_secs ps =
     (case ps ParamBroadcastDurationSecs of
        None \<Rightarrow> 10
      | Some secsStr \<Rightarrow> (case atoi secsStr of (secs, None) \<Rightarrow> secs | (_, Some _) \<Rightarrow> 10))"

datatype ('s, 'l) step_result = Next 's 'l | Crash panic | Disabled

inductive sys_step ::
  "('s \<Rightarrow> 'l \<Rightarrow> 'e \<Rightarrow> ('s, 'l) step_result) \<Rightarrow> (user_context \<Rightarrow> 'l) \<Rightarrow> 's \<times> 'l list \<Rightarrow> 's \<times> 'l list \<Rightarrow> bool"
  for step start where
  enter: "sys_step step start (s, ls) (s, ls @ [start ctx])"
| move: "i < length ls \<Longrightarrow> step s (ls ! i) e = Next s' l' \<Longrightarrow>
     sys_step step start (s, ls) (s', ls[i := l'])"

inductive_cases sys_stepE: "sys_step step start (s, ls) (s', ls')"

inductive sys_reach ::
  "('s \<Rightarrow> 'l \<Rightarrow> 'e \<Rightarrow> ('s, 'l) step_result) \<Rightarrow> (user_context \<Rightarrow> 'l) \<Rightarrow> 's \<Rightarrow> 's \<times> 'l list \<Rightarrow> bool"
  for step start s0 where
  init: "sys_reach step start s0 (s0, [])"
| more: "sys_reach step start s0 c \<Longrightarrow> sys_step step start c c' \<Longrightarrow> sys_reach step start s0 c'"

text \<open>One user alone, driven by a list of events: what the witnesses evaluate.\<close>

fun run_events :: "('s \<Rightarrow> 'l \<Rightarrow> 'e \<Rightarrow> ('s, 'l) step_result) \<Rightarrow> 's \<Rightarrow> 'l \<Rightarrow> 'e list \<Rightarrow> ('s, 'l) step_result" where
  "run_events step s l [] = Next s l"
| "run_events step s l (e # es) =
     (case step s l e of Next s' l' \<Rightarrow> run_events step s' l' es | Crash p \<Rightarrow> Crash p | Disabled \<Rightarrow> Disabled)"

lemma run_events_reach:
  assumes "sys_reach step start s0 (s, ls)" "i < length ls" "run_events step s (ls ! i) es = Next s' l'"
  shows "sys_reach step start s0 (s', ls[i := l'])"
  using assms
proof (induction es arbitrary: s ls)
  case Nil
  then show ?case by auto
next
  case (Cons e es)
  then obtain s1 l1 where step: "step s (ls ! i) e = Next s1 l1"
    and run: "run_events step s1 l1 es = Next s' l'"
    by (auto split: step_result.splits)
  have "sys_reach step start s0 (s1, ls[i := l1])"
    using Cons.prems step by (blast intro: sys_reach.more sys_step.move)
  with Cons.IH[of s1 "ls[i := l1]"] Cons.prems(2) run show ?case by simp
qed

lemma run_events_one:
  assumes "run_events step s0 (start ctx) es = Next s l"
  shows "sys_reach step start s0 (s, [l])"
proof -
  have "sys_reach step start s0 (s0, [start ctx])"
    using sys_reach.more[OF sys_reach.init sys_step.enter, of step start s0] by simp
  from run_events_reach[OF this, of 0 es s l] assms show ?thesis by simp
qed

text \<open>A property of one user's local state that holds in every interleaving.\<close>

locale session_local_inv =
  fixes step :: "'s \<Rightarrow> 'l \<Rightarrow> 'e \<Rightarrow> ('s, 'l) step_result"
    and start :: "user_context \<Rightarrow> 'l"
    and inv :: "'l \<Rightarrow> bool"
  assumes start_inv: "inv (start ctx)"
    and step_inv: "step s l e = Next s' l' \<Longrightarrow> inv l \<Longrightarrow> inv l'"
begin

lemma reach_inv: "sys_reach step start s0 (s, ls) \<Longrightarrow> l \<in> set ls \<Longrightarrow> inv l"
proof (induction "(s, ls)" arbitrary: s ls l rule: sys_reach.induct)
  case init
  then show ?case by simp
next
  case (more c)
  obtain s1 ls1 where c: "c = (s1, ls1)" by (cases c)
  from more(3)[unfolded c] show ?case
  proof (cases rule: sys_step.cases)
    case (enter ctx)
    then show ?thesis using more(2)[OF c] more(4) start_inv by auto
  next
    case (move i e l')
    then have "inv l'" using more(2)[OF c, of "ls1 ! i"] step_inv by auto
    moreover have "l = l' \<or> l \<in> set ls1"
      using more(4) move set_update_subset_insert by fastforce
    ultimately show ?thesis using more(2)[OF c] by auto
  qed
qed

end

text \<open>
  A counter \<open>read\<close> of the struct is accounted for by the local states: every step changes
  it by exactly the change of the user's weight, and a user starts with weight 0.
\<close>

locale session_counter = session_local_inv step start inv
  for step :: "'s \<Rightarrow> 'l \<Rightarrow> 'e \<Rightarrow> ('s, 'l) step_result"
    and start :: "user_context \<Rightarrow> 'l"
    and inv :: "'l \<Rightarrow> bool" +
  fixes read :: "'s \<Rightarrow> int64"
    and weight :: "'l \<Rightarrow> int64"
  assumes start_weight: "weight (start ctx) = 0"
    and step_weight: "step s l e = Next s' l' \<Longrightarrow> inv l \<Longrightarrow> read s' = read s + (weight l' - weight l)"
begin

lemma sys_step_weight:
  assumes "sys_step step start (s, ls) (s', ls')" and "\<And>l. l \<in> set ls \<Longrightarrow> inv l"
  shows "read s' - sum_list (map weight ls') = read s - sum_list (map weight ls)"
  using assms(1)
proof (cases rule: sys_step.cases)
  case (enter ctx)
  then show ?thesis by (simp add: start_weight)
next
  case (move i e l')
  then show ?thesis using step_weight[of s "ls ! i" e s' l'] assms(2)[of "ls ! i"]
    by (simp add: sum_list_map_update)
qed

lemma counter_is_sum:
  "sys_reach step start s0 (s, ls) \<Longrightarrow> read s = read s0 + sum_list (map weight ls)"
proof (induction "(s, ls)" arbitrary: s ls rule: sys_reach.induct)
  case init
  then show ?case by simp
next
  case (more c)
  obtain s1 ls1 where c: "c = (s1, ls1)" by (cases c)
  from sys_step_weight[of s1 ls1 s ls] more c reach_inv[of s0 s1 ls1]
  show ?case by (simp add: algebra_simps)
qed

end

text \<open>A gauge counts the users that are inside: its weight is 0 or 1.\<close>

locale session_gauge = session_counter step start inv read weight
  for step :: "'s \<Rightarrow> 'l \<Rightarrow> 'e \<Rightarrow> ('s, 'l) step_result"
    and start :: "user_context \<Rightarrow> 'l"
    and inv :: "'l \<Rightarrow> bool"
    and read :: "'s \<Rightarrow> int64"
    and weight :: "'l \<Rightarrow> int64" +
  fixes active :: "'l \<Rightarrow> bool"
  assumes weight_active: "weight l = of_bool (active l)"
begin

lemma gauge_counts:
  assumes "sys_reach step start s0 (s, ls)"
  shows "read s = read s0 + word_of_nat (length (filter active ls))"
proof -
  have "weight = (\<lambda>l. of_bool (active l))" by (rule ext) (rule weight_active)
  then have "sum_list (map weight ls) = word_of_nat (length (filter active ls))"
    by (simp add: sum_list_of_bool)
  with counter_is_sum[OF assms] show ?thesis by simp
qed

end

text \<open>
  A session whose \<^verbatim>\<open>Execute\<close> always returns: every step uses up some of the user's
  budget \<open>left\<close>, and a user that has not returned can always go on, whatever the
  libraries answer.
\<close>

locale session_bounded =
  fixes step :: "'s \<Rightarrow> 'l \<Rightarrow> 'e \<Rightarrow> ('s, 'l) step_result"
    and left :: "'s \<Rightarrow> 'l \<Rightarrow> nat"
    and result :: "'l \<Rightarrow> goerror option option"
  assumes step_left: "step s l e = Next s' l' \<Longrightarrow> left s' l' < left s l"
    and step_progress: "result l = None \<Longrightarrow> \<exists>e s' l'. step s l e = Next s' l'"
begin

lemma run_length: "run_events step s l es = Next s' l' \<Longrightarrow> length es + left s' l' \<le> left s l"
proof (induction es arbitrary: s l)
  case Nil
  then show ?case by auto
next
  case (Cons e es)
  then obtain s1 l1 where "step s l e = Next s1 l1" "run_events step s1 l1 es = Next s' l'"
    by (auto split: step_result.splits)
  with Cons.IH[of s1 l1] step_left[of s l e s1 l1] show ?case by simp
qed

lemma run_completes: "\<exists>es s' l' r. run_events step s l es = Next s' l' \<and> result l' = Some r"
proof (induction "left s l" arbitrary: s l rule: less_induct)
  case less
  show ?case
  proof (cases "result l")
    case (Some r)
    then show ?thesis by (intro exI[of _ "[]"]) auto
  next
    case None
    then obtain e s1 l1 where e: "step s l e = Next s1 l1" using step_progress by blast
    then obtain es s' l' r where "run_events step s1 l1 es = Next s' l'" "result l' = Some r"
      using less step_left by blast
    with e show ?thesis by (intro exI[of _ "e # es"]) auto
  qed
qed

end

text \<open>
  The interface \<^verbatim>\<open>Session\<close>: \<^verbatim>\<open>Setup\<close> leaves the counters, as
  \<^verbatim>\<open>Counters\<close> reports them, at zero, whatever was counted before. The environment
  \<open>'v\<close> holds the answers of the libraries that \<^verbatim>\<open>Setup\<close> calls.
\<close>

locale session_api =
  fixes Setup :: "'v \<Rightarrow> params \<Rightarrow> 's \<Rightarrow> ('s \<times> goerror option) go"
    and Counters :: "'s \<Rightarrow> counters go"
  assumes Setup_zero: "Setup v ps s = Return (s', None) \<Longrightarrow>
      \<exists>m. Counters s' = Return m \<and> (\<forall>k. cnt_get m k = 0)"
begin

lemma Setup_zero_range:
  assumes "Setup v ps s = Return (s', None)"
  shows "\<exists>m. Counters s' = Return m \<and> (\<forall>k. m k = None \<or> m k = Some 0)"
proof -
  obtain m where m: "Counters s' = Return m" "\<And>k. cnt_get m k = 0"
    using Setup_zero[OF assms] by blast
  have "m k = None \<or> m k = Some 0" for k
    using m(2)[of k] by (cases "m k") (simp_all add: cnt_get_def)
  with m(1) show ?thesis by blast
qed

end

end
