(* ===== verification/Kafka_Producer.thy ===== *)
theory Kafka_Producer
  imports Session_Machine
begin

text \<open>
  \<^verbatim>\<open>sessions/kafka.go\<close>. The calls of the Kafka client, \<^verbatim>\<open>DialLeader\<close> and
  \<^verbatim>\<open>WriteMessages\<close>, are events with their arguments and their answers.
\<close>

record kafka_producer =
  k_cntInProgress :: int64
  k_cntError :: int64
  k_cntSuccess :: int64
  k_cntWritten :: int64
  k_payload :: "8 word list"
  k_msgCnt :: goint

definition kafka_Name :: string where
  [simp]: "kafka_Name = ''Kafka:Producer''"

definition kafka_Setup ::
  "(nat \<Rightarrow> 8 word) \<Rightarrow> params \<Rightarrow> kafka_producer \<Rightarrow> (kafka_producer \<times> goerror option) go" where
  "kafka_Setup rnd ps s =
     (let s0 = s\<lparr>k_cntInProgress := 0, k_cntError := 0, k_cntSuccess := 0, k_cntWritten := 0\<rparr> in
      case param_int ps ''messageSize'' 100 of
        (_, Some e) \<Rightarrow> Return (s0, Some (num_error_text e))
      | (payloadSize, None) \<Rightarrow>
          go_bind (make_payload rnd payloadSize) (\<lambda>payload.
            let s1 = s0\<lparr>k_payload := payload\<rparr> in
            case param_int ps ''messageCount'' 1 of
              (n, err) \<Rightarrow> Return (s1\<lparr>k_msgCnt := n\<rparr>, map_option num_error_text err)))"

definition kafka_logError :: "kafka_producer \<Rightarrow> kafka_producer" where
  [session_defs]: "kafka_logError s = s\<lparr>k_cntError := k_cntError s + 1\<rparr>"

datatype kafka_pc =
    KStart
  | KEntered
  | KDial goint
  | KLoop goint
  | KReturn "goerror option"
  | KDone "goerror option"

record kafka_user =
  k_ctx :: user_context
  k_pc :: kafka_pc

datatype kafka_event =
    KGo
  | KDialLeader string string goint "goerror option"
  | KWriteMessages "8 word list" "goerror + goint"

definition kafka_start :: "user_context \<Rightarrow> kafka_user" where
  "kafka_start ctx = \<lparr>k_ctx = ctx, k_pc = KStart\<rparr>"

definition kafka_step ::
  "kafka_producer \<Rightarrow> kafka_user \<Rightarrow> kafka_event \<Rightarrow> (kafka_producer, kafka_user) step_result" where
  "kafka_step s l e =
     (case (k_pc l, e) of
        (KStart, KGo) \<Rightarrow>
          Next (s\<lparr>k_cntInProgress := k_cntInProgress s + 1\<rparr>) (l\<lparr>k_pc := KEntered\<rparr>)
      | (KEntered, KGo) \<Rightarrow>
          (case atoi (str_get (ctx_Params (k_ctx l)) ''partition'') of
             (_, Some err) \<Rightarrow> Next (kafka_logError s) (l\<lparr>k_pc := KReturn (Some (num_error_text err))\<rparr>)
           | (part, None) \<Rightarrow> Next s (l\<lparr>k_pc := KDial part\<rparr>))
      | (KDial part, KDialLeader url topic p res) \<Rightarrow>
          if url = str_get (ctx_Params (k_ctx l)) ''url'' \<and>
             topic = str_get (ctx_Params (k_ctx l)) ''topic'' \<and> p = part
          then (case res of
             Some err \<Rightarrow> Next (kafka_logError s) (l\<lparr>k_pc := KReturn (Some err)\<rparr>)
           | None \<Rightarrow> Next s (l\<lparr>k_pc := KLoop 0\<rparr>))
          else Disabled
      | (KLoop i, KWriteMessages payload res) \<Rightarrow>
          if i <s k_msgCnt s \<and> payload = k_payload s
          then (case res of
             Inl err \<Rightarrow> Next (kafka_logError s) (l\<lparr>k_pc := KReturn (Some err)\<rparr>)
           | Inr n \<Rightarrow> Next (s\<lparr>k_cntWritten := k_cntWritten s + n\<rparr>) (l\<lparr>k_pc := KLoop (i + 1)\<rparr>))
          else Disabled
      | (KLoop i, KGo) \<Rightarrow>
          if i <s k_msgCnt s then Disabled
          else Next (s\<lparr>k_cntSuccess := k_cntSuccess s + 1\<rparr>) (l\<lparr>k_pc := KReturn None\<rparr>)
      | (KReturn r, KGo) \<Rightarrow>
          Next (s\<lparr>k_cntInProgress := k_cntInProgress s - 1\<rparr>) (l\<lparr>k_pc := KDone r\<rparr>)
      | _ \<Rightarrow> Disabled)"

definition kafka_result :: "kafka_user \<Rightarrow> goerror option option" where
  "kafka_result l = (case k_pc l of KDone r \<Rightarrow> Some r | _ \<Rightarrow> None)"

definition kafka_Counters :: "kafka_producer \<Rightarrow> counters" where
  "kafka_Counters s =
     [''kafka:producer:inprogress'' \<mapsto> k_cntInProgress s,
      ''kafka:producer:success'' \<mapsto> k_cntSuccess s,
      ''kafka:producer:error'' \<mapsto> k_cntError s,
      ''kafka:producer:written'' \<mapsto> k_cntWritten s]"

subsection \<open>Accounting\<close>

definition kafka_active :: "kafka_user \<Rightarrow> bool" where
  [session_defs]: "kafka_active l \<longleftrightarrow> (case k_pc l of KStart \<Rightarrow> False | KDone _ \<Rightarrow> False | _ \<Rightarrow> True)"

definition kafka_ok :: "kafka_user \<Rightarrow> bool" where
  [session_defs]: "kafka_ok l \<longleftrightarrow> k_pc l = KReturn None \<or> k_pc l = KDone None"

definition kafka_failed :: "kafka_user \<Rightarrow> bool" where
  [session_defs]: "kafka_failed l \<longleftrightarrow> (\<exists>err. k_pc l = KReturn (Some err) \<or> k_pc l = KDone (Some err))"

lemma kafka_step_counters:
  assumes "kafka_step s l e = Next s' l'"
  shows "k_cntInProgress s' = k_cntInProgress s + (of_bool (kafka_active l') - of_bool (kafka_active l))"
    "k_cntSuccess s' = k_cntSuccess s + (of_bool (kafka_ok l') - of_bool (kafka_ok l))"
    "k_cntError s' = k_cntError s + (of_bool (kafka_failed l') - of_bool (kafka_failed l))"
  using assms
  by (auto simp: kafka_step_def session_defs split: kafka_pc.splits kafka_event.splits if_splits option.splits
      prod.splits sum.splits)

interpretation kafka_progress: session_gauge kafka_step kafka_start "\<lambda>_. True" k_cntInProgress
  "\<lambda>l. of_bool (kafka_active l)" kafka_active
  by unfold_locales (simp_all add: kafka_step_counters, simp add: kafka_active_def kafka_start_def)

interpretation kafka_success: session_gauge kafka_step kafka_start "\<lambda>_. True" k_cntSuccess
  "\<lambda>l. of_bool (kafka_ok l)" kafka_ok
  by unfold_locales (simp_all add: kafka_step_counters, simp add: kafka_ok_def kafka_start_def)

interpretation kafka_error: session_gauge kafka_step kafka_start "\<lambda>_. True" k_cntError
  "\<lambda>l. of_bool (kafka_failed l)" kafka_failed
  by unfold_locales (simp_all add: kafka_step_counters, simp add: kafka_failed_def kafka_start_def)

subsection \<open>Setup\<close>

lemma kafka_Setup_counters:
  assumes "kafka_Setup rnd ps s = Return (s', err)"
  shows "k_cntInProgress s' = 0" "k_cntError s' = 0" "k_cntSuccess s' = 0" "k_cntWritten s' = 0"
  using assms by (auto simp: kafka_Setup_def Let_def split_beta split: option.splits)

interpretation kafka_session: session_api kafka_Setup "\<lambda>s. Return (kafka_Counters s)"
  by unfold_locales (simp add: kafka_Counters_def kafka_Setup_counters)

subsection \<open>Termination\<close>

definition kafka_left :: "kafka_producer \<Rightarrow> kafka_user \<Rightarrow> nat" where
  "kafka_left s l =
     (case k_pc l of
        KStart \<Rightarrow> 5 + iterations (k_msgCnt s)
      | KEntered \<Rightarrow> 4 + iterations (k_msgCnt s)
      | KDial _ \<Rightarrow> 3 + iterations (k_msgCnt s)
      | KLoop i \<Rightarrow> 2 + nat (sint (k_msgCnt s) - sint i)
      | KReturn _ \<Rightarrow> 1
      | KDone _ \<Rightarrow> 0)"

lemma kafka_step_left: "kafka_step s l e = Next s' l' \<Longrightarrow> kafka_left s' l' < kafka_left s l"
  by (auto simp: kafka_step_def kafka_left_def kafka_logError_def iterations_def sint_Suc_less
      word_sless_alt split: kafka_pc.splits kafka_event.splits if_splits option.splits prod.splits
      sum.splits)

lemma kafka_step_progress: "kafka_result l = None \<Longrightarrow> \<exists>e s' l'. kafka_step s l e = Next s' l'"
proof -
  assume r: "kafka_result l = None"
  let ?ps = "ctx_Params (k_ctx l)"
  have "\<exists>e. kafka_step s l e \<noteq> Disabled \<and> (\<forall>p. kafka_step s l e \<noteq> Crash p)"
  proof (cases "k_pc l")
    case (KDial p)
    then show ?thesis
      by (intro exI[of _ "KDialLeader (str_get ?ps ''url'') (str_get ?ps ''topic'') p None"])
        (simp add: kafka_step_def)
  next
    case (KLoop i)
    then show ?thesis
      by (intro exI[of _ "if i <s k_msgCnt s then KWriteMessages (k_payload s) (Inr 1) else KGo"])
        (simp add: kafka_step_def)
  qed (use r in \<open>auto simp: kafka_step_def kafka_result_def intro!: exI[of _ KGo] split: prod.splits option.splits\<close>)
  then obtain e where "kafka_step s l e \<noteq> Disabled" "\<forall>p. kafka_step s l e \<noteq> Crash p" by blast
  then show ?thesis by (cases "kafka_step s l e") blast+
qed

interpretation kafka_bounded: session_bounded kafka_step kafka_left kafka_result
  by unfold_locales (fact kafka_step_left, fact kafka_step_progress)

subsection \<open>Properties\<close>

text \<open>
  C16: after a successful \<^verbatim>\<open>Setup\<close>, however the users of the Kafka session
  interleave and whatever the brokers answer, the reported counters are exact (modulo
  \<open>2 ^ 64\<close>): \<^verbatim>\<open>inprogress\<close> is the number of users inside \<^verbatim>\<open>Execute\<close>,
  \<^verbatim>\<open>success\<close> the number that got through the loop and \<^verbatim>\<open>error\<close> the number that
  returned or is returning an error.
\<close>

theorem kafka_accounting:
  assumes "kafka_Setup rnd ps s = Return (s0, None)"
    and "sys_reach kafka_step kafka_start s0 (s', ls)"
  shows "kafka_Counters s' ''kafka:producer:inprogress'' = Some (word_of_nat (length (filter kafka_active ls)))
    \<and> kafka_Counters s' ''kafka:producer:success'' = Some (word_of_nat (length (filter kafka_ok ls)))
    \<and> kafka_Counters s' ''kafka:producer:error'' = Some (word_of_nat (length (filter kafka_failed ls)))"
  using kafka_Setup_counters[OF assms(1)] kafka_progress.gauge_counts[OF assms(2)]
    kafka_success.gauge_counts[OF assms(2)] kafka_error.gauge_counts[OF assms(2)]
  by (simp add: kafka_Counters_def)

definition demo_kafka :: kafka_producer where
  "demo_kafka = \<lparr>k_cntInProgress = 0, k_cntError = 0, k_cntSuccess = 0, k_cntWritten = 0,
     k_payload = [7], k_msgCnt = 1\<rparr>"

definition demo_kafka_ctx :: user_context where
  "demo_kafka_ctx = \<lparr>UserId = ''u1'', ctx_Phase = ''p'',
     ctx_Params = [''url'' \<mapsto> ''k'', ''topic'' \<mapsto> ''t'', ''partition'' \<mapsto> ''0'']\<rparr>"

definition demo_kafka_run :: "kafka_event list" where
  "demo_kafka_run = [KGo, KGo, KDialLeader ''k'' ''t'' 0 None, KWriteMessages [7] (Inr 1), KGo, KGo]"

lemma demo_kafka_Setup:
  "kafka_Setup (\<lambda>_. 7) [''messageSize'' \<mapsto> ''1'', ''partition'' \<mapsto> ''0''] (demo_kafka\<lparr>k_cntError := 5\<rparr>) = Return (demo_kafka, None)"
  by code_simp

lemma demo_kafka_run_result:
  "run_events kafka_step demo_kafka (kafka_start demo_kafka_ctx) demo_kafka_run =
     Next (demo_kafka\<lparr>k_cntSuccess := 1, k_cntWritten := 1\<rparr>) \<lparr>k_ctx = demo_kafka_ctx, k_pc = KDone None\<rparr>"
  by (simp add: demo_kafka_run_def kafka_step_def kafka_start_def demo_kafka_def demo_kafka_ctx_def
      str_get_def atoi_def parse_int_def parse_uint_def digit_val_def word_sless_alt)

theorem kafka_accounting_witness:
  "kafka_Counters (demo_kafka\<lparr>k_cntSuccess := 1, k_cntWritten := 1\<rparr>) ''kafka:producer:success'' =
     Some (word_of_nat (length (filter kafka_ok [\<lparr>k_ctx = demo_kafka_ctx, k_pc = KDone None\<rparr>])))"
  using kafka_accounting[OF demo_kafka_Setup run_events_one[where start = kafka_start, OF demo_kafka_run_result]] by blast

text \<open>
  C17: \<^verbatim>\<open>Execute\<close> of the Kafka session returns. A user never takes more than
  \<open>5 + messageCount\<close> steps (5 for a message count that is not positive), and as long as it
  has not returned some answer of the client lets it go on.
\<close>

theorem kafka_terminates:
  assumes "run_events kafka_step s (kafka_start ctx) es = Next s' l"
  shows "length es \<le> 5 + iterations (k_msgCnt s)
    \<and> (kafka_result l = None \<longrightarrow> (\<exists>es' s'' l' r. run_events kafka_step s' l es' = Next s'' l' \<and> kafka_result l' = Some r))"
  using kafka_bounded.run_length[OF assms] kafka_bounded.run_completes[of s' l]
  by (simp add: kafka_left_def kafka_start_def)

theorem kafka_terminates_witness:
  "length demo_kafka_run \<le> 5 + iterations (k_msgCnt demo_kafka)"
  using kafka_terminates[OF demo_kafka_run_result] by blast

end
