(* ===== verification/Quic_Pool.thy ===== *)
theory Quic_Pool
  imports Go_Strings
begin

text \<open>
  The connection pool of \<^verbatim>\<open>sessions/quic.go\<close>. \<^verbatim>\<open>quic.DialAddr\<close> is the
  argument \<open>dial\<close>, the answer to the \<open>i\<close>-th call; a connection is an opaque handle of
  type \<open>'c\<close>, and a slot that has not been dialled is \<open>None\<close> (a nil interface, 16
  bytes). The wrapper \<^verbatim>\<open>quicConn\<close> only forwards to its stream and connection.
\<close>

record 'c quic_conn_pool =
  qp_n :: uint64
  qp_conns :: "'c option list"
  qp_cnt :: uint64

fun quic_dial_loop :: "(nat \<Rightarrow> goerror + 'c) \<Rightarrow> nat \<Rightarrow> nat \<Rightarrow> 'c option list \<Rightarrow> 'c option list \<times> goerror option" where
  "quic_dial_loop dial i 0 conns = (conns, None)"
| "quic_dial_loop dial i (Suc k) conns =
     (case dial i of
        Inl err \<Rightarrow> (conns, Some err)
      | Inr c \<Rightarrow> quic_dial_loop dial (Suc i) k (conns[i := Some c]))"

definition quic_Dial :: "(nat \<Rightarrow> goerror + 'c) \<Rightarrow> 'c quic_conn_pool \<Rightarrow> ('c quic_conn_pool \<times> goerror option) go" where
  "quic_Dial dial p =
     go_bind (make_slice 16 (\<lambda>_. None) (uint (qp_n p))) (\<lambda>conns.
       case quic_dial_loop dial 0 (unat (qp_n p)) conns of
         (conns', err) \<Rightarrow> Return (p\<lparr>qp_conns := conns'\<rparr>, err))"

definition quic_Get :: "'c quic_conn_pool \<Rightarrow> ('c option \<times> 'c quic_conn_pool) go" where
  "quic_Get p =
     (let idx = qp_cnt p + 1; p' = p\<lparr>qp_cnt := idx\<rparr> in
      if qp_n p = 0 then Panic DivideByZero
      else if unat (idx mod qp_n p) < length (qp_conns p)
      then Return (qp_conns p ! unat (idx mod qp_n p), p')
      else Panic IndexOutOfRange)"

text \<open>A pool whose \<^verbatim>\<open>Dial\<close> has succeeded: one live connection per slot.\<close>

definition quic_ready :: "'c quic_conn_pool \<Rightarrow> bool" where
  "quic_ready p \<longleftrightarrow> 0 < unat (qp_n p) \<and> length (qp_conns p) = unat (qp_n p)
     \<and> (\<forall>c\<in>set (qp_conns p). c \<noteq> None)"

fun quic_gets :: "nat \<Rightarrow> 'c quic_conn_pool \<Rightarrow> 'c option list go" where
  "quic_gets 0 p = Return []"
| "quic_gets (Suc k) p =
     go_bind (quic_Get p) (\<lambda>(c, p'). go_bind (quic_gets k p') (\<lambda>cs. Return (c # cs)))"

lemma quic_dial_loop_ok:
  assumes "quic_dial_loop dial i k conns = (conns', None)" "i + k = length conns"
    "\<forall>j<i. conns ! j \<noteq> None"
  shows "length conns' = length conns \<and> (\<forall>j<length conns'. conns' ! j \<noteq> None)"
  using assms
proof (induction dial i k conns arbitrary: conns' rule: quic_dial_loop.induct)
  case (1 dial i conns)
  then show ?case by simp
next
  case (2 dial i k conns)
  then obtain c where c: "dial i = Inr c" by (auto split: sum.splits)
  with 2(2) have "quic_dial_loop dial (Suc i) k (conns[i := Some c]) = (conns', None)" by simp
  from 2(1)[OF c this] 2(3,4) show ?case by (auto simp: nth_list_update less_Suc_eq)
qed

lemma quic_Dial_ready:
  assumes "quic_Dial dial p = Return (p', None)" and "qp_n p \<noteq> 0"
  shows "quic_ready p'"
proof -
  obtain conns' where
    loop: "quic_dial_loop dial 0 (unat (qp_n p)) (map (\<lambda>_. None) [0..<unat (qp_n p)]) = (conns', None)"
    and p': "p' = p\<lparr>qp_conns := conns'\<rparr>"
    using assms(1)
    by (auto simp: quic_Dial_def make_slice_def nat_uint_eq split: if_splits prod.splits)
  from quic_dial_loop_ok[OF loop] assms(2) show ?thesis
    by (auto simp: quic_ready_def p' unat_gt_0 in_set_conv_nth)
qed

lemma quic_Get_ready:
  assumes "quic_ready p"
  shows "quic_Get p = Return (qp_conns p ! (unat (qp_cnt p + 1) mod unat (qp_n p)), p\<lparr>qp_cnt := qp_cnt p + 1\<rparr>)"
proof -
  have "qp_n p \<noteq> 0" using assms by (auto simp: quic_ready_def)
  moreover have "unat ((qp_cnt p + 1) mod qp_n p) = unat (qp_cnt p + 1) mod unat (qp_n p)"
    by (rule unat_mod_distrib)
  moreover have "unat (qp_cnt p + 1) mod unat (qp_n p) < length (qp_conns p)"
    using assms by (simp add: quic_ready_def)
  ultimately show ?thesis by (simp add: quic_Get_def Let_def)
qed

lemma quic_gets_ready:
  assumes "quic_ready p" and "unat (qp_cnt p) + k < 2 ^ 64"
  shows "quic_gets k p =
    Return (map (\<lambda>j. qp_conns p ! ((unat (qp_cnt p) + 1 + j) mod unat (qp_n p))) [0..<k])"
  using assms
proof (induction k arbitrary: p)
  case 0
  then show ?case by simp
next
  case (Suc k)
  have cnt: "unat (qp_cnt p + 1) = unat (qp_cnt p) + 1"
    using Suc.prems(2) by (simp add: unat_word_ariths)
  have ready: "quic_ready (p\<lparr>qp_cnt := qp_cnt p + 1\<rparr>)"
    using Suc.prems(1) by (simp add: quic_ready_def)
  have "[0..<Suc k] = 0 # map Suc [0..<k]" by (simp add: map_Suc_upt upt_conv_Cons del: upt_Suc)
  moreover from Suc.IH[OF ready] Suc.prems(2) have
    "quic_gets k (p\<lparr>qp_cnt := qp_cnt p + 1\<rparr>) =
      Return (map (\<lambda>j. qp_conns p ! ((unat (qp_cnt p) + 1 + Suc j) mod unat (qp_n p))) [0..<k])"
    by (simp add: cnt)
  ultimately show ?case
    using quic_Get_ready[OF Suc.prems(1)] by (simp add: cnt comp_def del: upt_Suc)
qed

lemma quic_Dial_frame: "quic_Dial dial p = Return (p', err) \<Longrightarrow> qp_n p' = qp_n p \<and> qp_cnt p' = qp_cnt p"
  by (auto simp: quic_Dial_def split_beta)

text \<open>
  C27: the pool hands out its connections in turn. After a successful \<^verbatim>\<open>Dial\<close> of
  \<open>n > 0\<close> connections, \<open>n\<close> calls of \<^verbatim>\<open>Get\<close> return every connection of the
  pool exactly once, in ring order from the counter's position, and none of them is nil, as
  long as the 64-bit counter does not wrap in between.
\<close>

theorem quic_round_robin:
  assumes "quic_Dial dial p = Return (p', None)" and "qp_n p \<noteq> 0"
    and "unat (qp_cnt p) + unat (qp_n p) < 2 ^ 64"
  shows "quic_gets (unat (qp_n p)) p' = Return (rotate (unat (qp_cnt p) + 1) (qp_conns p'))
    \<and> list_all (\<lambda>c. c \<noteq> None) (qp_conns p')"
proof -
  have ready: "quic_ready p'" using assms(1,2) by (rule quic_Dial_ready)
  have frame: "qp_n p' = qp_n p" "qp_cnt p' = qp_cnt p" using quic_Dial_frame[OF assms(1)] by auto
  have len: "length (qp_conns p') = unat (qp_n p)" using ready frame by (simp add: quic_ready_def)
  have "map (\<lambda>j. qp_conns p' ! ((unat (qp_cnt p) + 1 + j) mod unat (qp_n p))) [0..<unat (qp_n p)]
      = rotate (unat (qp_cnt p) + 1) (qp_conns p')"
  proof (rule nth_equalityI)
    fix j
    assume "j < length (map (\<lambda>j. qp_conns p' ! ((unat (qp_cnt p) + 1 + j) mod unat (qp_n p))) [0..<unat (qp_n p)])"
    then show "map (\<lambda>j. qp_conns p' ! ((unat (qp_cnt p) + 1 + j) mod unat (qp_n p))) [0..<unat (qp_n p)] ! j
        = rotate (unat (qp_cnt p) + 1) (qp_conns p') ! j"
      using nth_rotate[of j "qp_conns p'" "unat (qp_cnt p) + 1"] len by simp
  qed (simp add: len)
  then show ?thesis
    using quic_gets_ready[OF ready, of "unat (qp_n p)"] assms(3) ready frame
    by (simp add: quic_ready_def list_all_iff)
qed

theorem quic_round_robin_witness:
  "\<exists>p'. quic_Dial (\<lambda>i. Inr i) \<lparr>qp_n = 3, qp_conns = [], qp_cnt = 0\<rparr> = Return (p', None)
     \<and> quic_gets 3 p' = Return [Some 1, Some 2, Some (0::nat)]"
proof -
  let ?p = "\<lparr>qp_n = 3, qp_conns = [] :: nat option list, qp_cnt = 0\<rparr>"
  let ?p' = "\<lparr>qp_n = 3, qp_conns = [Some 0, Some 1, Some 2], qp_cnt = 0\<rparr>"
  have d: "quic_Dial Inr ?p = Return (?p', None)"
    by code_simp
  have u: "unat (3 :: uint64) = 3" "unat (0 :: uint64) = 0" by simp_all
  have r: "rotate 1 [Some 0, Some 1, Some (2::nat)] = [Some 1, Some 2, Some 0]" by simp
  from quic_round_robin[OF d] u r show ?thesis
    by (intro exI[of _ ?p'] conjI d) simp
qed

end
