(* ===== verification/Go_Float.thy ===== *)
theory Go_Float
  imports Sigbench_Prelude
begin

text \<open>
  IEEE-754 double precision as the program uses it: conversion from \<^verbatim>\<open>int64\<close> and
  \<^verbatim>\<open>uint64\<close>, multiplication and division rounded to the nearest double (ties to even),
  and truncation back to an integer. A finite double is \<open>Fin m e\<close>, the number
  \<open>m * 2 ^ e\<close>; several pairs may stand for one number, and the sign of zero is not kept
  (nothing in the program observes it). The conversion of a value that does not fit in an
  \<^verbatim>\<open>int64\<close> is implementation-specific in Go; the model follows amd64, the platform of
  the repository's Makefile, where it gives the least \<^verbatim>\<open>int64\<close>.
\<close>

datatype float64 = Fin int int | Inf bool | NaN

function nbits :: "int \<Rightarrow> nat" where
  "nbits n = (if n \<le> 0 then 0 else Suc (nbits (n div 2)))"
  by pat_completeness auto
termination
  by (relation "measure nat") auto

declare nbits.simps [simp del]

text \<open>Division rounded to the nearest integer, ties to the even one.\<close>

definition rne :: "int \<Rightarrow> int \<Rightarrow> int" where
  "rne p d = (let q = p div d; r = p mod d in
     if 2 * r < d \<or> (2 * r = d \<and> even q) then q else q + 1)"

text \<open>The fraction \<open>p / (q * 2 ^ e)\<close> with the power of two on the side where it is an integer.\<close>

definition scaled :: "int \<Rightarrow> int \<Rightarrow> int \<Rightarrow> int \<times> int" where
  "scaled p q e = (if 0 \<le> e then (p, q * 2 ^ nat e) else (p * 2 ^ nat (- e), q))"

definition below_53 :: "int \<Rightarrow> int \<Rightarrow> int \<Rightarrow> bool" where
  "below_53 p q e = (case scaled p q e of (p', q') \<Rightarrow> \<bar>p'\<bar> < q' * 2 ^ 53)"

definition f64_exponent :: "int \<Rightarrow> int \<Rightarrow> int" where
  "f64_exponent p q =
     (let e = int (nbits \<bar>p\<bar>) - int (nbits q) - 53 in
      max (- 1074) (if below_53 p q e then e else e + 1))"

definition f64_of_ratio :: "int \<Rightarrow> int \<Rightarrow> float64" where
  "f64_of_ratio p q =
     (let e = f64_exponent p q; (p', q') = scaled p q e; m = rne p' q' in
      if 971 < e \<or> (e = 971 \<and> 2 ^ 53 \<le> \<bar>m\<bar>) then Inf (p < 0) else Fin m e)"

definition f64_of_int :: "int \<Rightarrow> float64" where
  "f64_of_int n = f64_of_ratio n 1"

definition f64_scaled :: "int \<Rightarrow> int \<Rightarrow> int \<Rightarrow> float64" where
  "f64_scaled p q e = (case scaled p q (- e) of (p', q') \<Rightarrow> f64_of_ratio p' q')"

fun f64_mul :: "float64 \<Rightarrow> float64 \<Rightarrow> float64" where
  "f64_mul (Fin a x) (Fin b y) = f64_scaled (a * b) 1 (x + y)"
| "f64_mul NaN _ = NaN"
| "f64_mul _ NaN = NaN"
| "f64_mul (Inf s) (Inf t) = Inf (s \<noteq> t)"
| "f64_mul (Inf s) (Fin b y) = (if b = 0 then NaN else Inf (s \<noteq> (b < 0)))"
| "f64_mul (Fin a x) (Inf t) = (if a = 0 then NaN else Inf (t \<noteq> (a < 0)))"

fun f64_div :: "float64 \<Rightarrow> float64 \<Rightarrow> float64" where
  "f64_div (Fin a x) (Fin b y) =
     (if b = 0 then (if a = 0 then NaN else Inf (a < 0))
      else f64_scaled (a * sgn b) \<bar>b\<bar> (x - y))"
| "f64_div NaN _ = NaN"
| "f64_div _ NaN = NaN"
| "f64_div (Inf s) (Inf t) = NaN"
| "f64_div (Inf s) (Fin b y) = Inf (s \<noteq> (b < 0))"
| "f64_div (Fin a x) (Inf t) = Fin 0 0"

fun f64_trunc :: "float64 \<Rightarrow> int option" where
  "f64_trunc (Fin m e) = Some (if 0 \<le> e then m * 2 ^ nat e else m sdiv 2 ^ nat (- e))"
| "f64_trunc _ = None"

definition f64_to_int64 :: "float64 \<Rightarrow> int64" where
  "f64_to_int64 f =
     (case f64_trunc f of
        Some v \<Rightarrow> if in_int64 v then word_of_int v else word_of_int (- (2 ^ 63))
      | None \<Rightarrow> word_of_int (- (2 ^ 63)))"

text \<open>The doubles between 0 and 1.\<close>

definition unit_interval :: "float64 \<Rightarrow> bool" where
  "unit_interval f =
     (case f of Fin m e \<Rightarrow> e \<le> 0 \<and> 0 \<le> m \<and> m \<le> 2 ^ nat (- e) | _ \<Rightarrow> False)"

subsection \<open>Rounding\<close>

lemma rne_le: "0 < d \<Longrightarrow> p \<le> k * d \<Longrightarrow> rne p d \<le> k"
proof -
  assume d: "0 < d" and le: "p \<le> k * d"
  have split: "p = p div d * d + p mod d" "0 \<le> p mod d" using d by simp_all
  show ?thesis
  proof (cases "p div d < k")
    case True
    then show ?thesis by (auto simp: rne_def Let_def)
  next
    case False
    then have "k * d \<le> p div d * d" using d by simp
    with split le have "p mod d = 0" "p div d * d = k * d" by linarith+
    then show ?thesis using d by (auto simp: rne_def Let_def)
  qed
qed

lemma rne_exact [simp]: "0 < d \<Longrightarrow> rne (k * d) d = k"
  by (simp add: rne_def Let_def)

lemma rne_nonneg: "0 < d \<Longrightarrow> 0 \<le> p \<Longrightarrow> 0 \<le> rne p d"
  by (auto simp: rne_def Let_def pos_imp_zdiv_nonneg_iff)

lemma nbits_0_1 [simp]: "nbits 0 = 0" "nbits 1 = 1"
  by (simp_all add: nbits.simps)

lemma nbits_bounds: "0 < n \<Longrightarrow> 2 ^ (nbits n - 1) \<le> n \<and> n < 2 ^ nbits n"
proof (induction n rule: nbits.induct)
  case (1 n)
  show ?case
  proof (cases "n = 1")
    case True
    then show ?thesis by simp
  next
    case False
    with 1(2) have h: "0 < n div 2" "\<not> n \<le> 0" by auto
    with 1(1) have ih: "2 ^ (nbits (n div 2) - 1) \<le> n div 2" "n div 2 < 2 ^ nbits (n div 2)"
      by auto
    obtain k where k: "nbits (n div 2) = Suc k"
      using h by (metis nbits.simps linorder_not_less)
    have "2 * (n div 2) \<le> n" "n < 2 * (n div 2) + 2" by linarith+
    with ih h show ?thesis unfolding nbits.simps[of n] k by simp
  qed
qed

text \<open>
  A ratio of at most \<open>n\<close> with \<open>n < 2 ^ 53\<close> rounds to a double with a non-positive
  exponent, at most \<open>n\<close>; the ratio \<open>n\<close> itself is represented exactly.
\<close>

lemma f64_exponent_nonpos:
  assumes p: "0 \<le> p" and q: "0 < q" and lt: "p < q * 2 ^ 53"
  shows "f64_exponent p q \<le> 0"
proof -
  define bp bq where "bp = nbits p" and "bq = nbits q"
  have bq: "q < 2 ^ bq"
    using nbits_bounds[of q] q by (simp add: bq_def)
  have "bp \<le> 53 + bq"
  proof (cases "p = 0")
    case True
    then show ?thesis by (simp add: bp_def)
  next
    case False
    then have "2 ^ (bp - 1) \<le> p"
      using nbits_bounds[of p] p by (simp add: bp_def)
    also have "p < q * 2 ^ 53" by (rule lt)
    also have "q * 2 ^ 53 \<le> 2 ^ bq * 2 ^ 53" using bq by simp
    finally have "(2::int) ^ (bp - 1) < 2 ^ (bq + 53)" by (simp add: power_add)
    then have "bp - 1 < bq + 53" using power_less_imp_less_exp[of "2::int"] by simp
    then show ?thesis by simp
  qed
  then consider "int bp - int bq - 53 \<le> - 1" | "int bp - int bq - 53 = 0" by linarith
  then show ?thesis
  proof cases
    case 1
    then show ?thesis using p by (simp add: f64_exponent_def Let_def flip: bp_def bq_def)
  next
    case 2
    moreover have "below_53 p q 0" using lt p by (simp add: below_53_def scaled_def)
    ultimately show ?thesis using p by (simp add: f64_exponent_def Let_def flip: bp_def bq_def)
  qed
qed

lemma f64_of_ratio_le:
  assumes p: "0 \<le> p" and q: "0 < q" and le: "p \<le> n * q" and n: "n < 2 ^ 53"
  obtains m e where "f64_of_ratio p q = Fin m e" "e \<le> 0" "0 \<le> m" "m \<le> n * 2 ^ nat (- e)"
proof -
  have "n * q < 2 ^ 53 * q" using n q by simp
  with le have e: "f64_exponent p q \<le> 0"
    by (intro f64_exponent_nonpos p q) (simp add: mult.commute)
  define k where "k = nat (- f64_exponent p q)"
  have "rne (p * 2 ^ k) q \<le> n * 2 ^ k"
    using q le by (intro rne_le) (auto simp: algebra_simps)
  moreover have "0 \<le> rne (p * 2 ^ k) q" using p q by (intro rne_nonneg) auto
  ultimately show ?thesis
    using that[of "rne (p * 2 ^ k) q" "f64_exponent p q"] e
    by (auto simp: f64_of_ratio_def scaled_def Let_def k_def split: if_splits)
qed

lemma f64_of_ratio_exact:
  assumes n: "0 \<le> n" "n < 2 ^ 53" and q: "0 < q"
  obtains e where "f64_of_ratio (n * q) q = Fin (n * 2 ^ nat (- e)) e" "e \<le> 0"
proof -
  have e: "f64_exponent (n * q) q \<le> 0"
    using n q by (intro f64_exponent_nonpos) auto
  define k where "k = nat (- f64_exponent (n * q) q)"
  have "rne (n * q * 2 ^ k) q = n * 2 ^ k"
    using rne_exact[of q "n * 2 ^ k"] q by (simp add: ac_simps)
  then show ?thesis
    using that[of "f64_exponent (n * q) q"] e
    by (cases "f64_exponent (n * q) q = 0") (simp_all add: f64_of_ratio_def scaled_def k_def Let_def)
qed

lemma f64_trunc_le:
  assumes "e \<le> 0" "0 \<le> m" "m \<le> n * 2 ^ nat (- e)"
  shows "\<exists>v. f64_trunc (Fin m e) = Some v \<and> 0 \<le> v \<and> v \<le> n"
proof (cases "e = 0")
  case False
  have "m div 2 ^ nat (- e) \<le> n * 2 ^ nat (- e) div 2 ^ nat (- e)"
    using assms(3) by (intro zdiv_mono1) auto
  then show ?thesis using assms False by (simp add: pos_imp_zdiv_nonneg_iff)
qed (use assms in simp)

lemma f64_mul_scaled:
  assumes "e \<le> 0" "y \<le> 0"
  shows "f64_mul (Fin a e) (Fin b y) = f64_of_ratio (a * b) (2 ^ nat (- e) * 2 ^ nat (- y))"
proof -
  have "nat (- e - y) = nat (- e) + nat (- y)" using assms by simp
  with assms show ?thesis by (simp add: f64_scaled_def scaled_def power_add)
qed

text \<open>Scaling an \<^verbatim>\<open>int64\<close> below \<open>2 ^ 53\<close> by a double of the unit interval.\<close>

lemma f64_scale_le:
  assumes n: "0 \<le> n" "n < 2 ^ 53" and f: "unit_interval f"
  shows "\<exists>v. f64_trunc (f64_mul (f64_of_int n) f) = Some v \<and> 0 \<le> v \<and> v \<le> n"
proof -
  obtain b y where f: "f = Fin b y" "y \<le> 0" "0 \<le> b" "b \<le> 2 ^ nat (- y)"
    using assms(3) by (auto simp: unit_interval_def split: float64.splits)
  obtain e where e: "f64_of_int n = Fin (n * 2 ^ nat (- e)) e" "e \<le> 0"
    using f64_of_ratio_exact[of n 1] n unfolding f64_of_int_def by auto
  let ?p = "n * 2 ^ nat (- e) * b" and ?q = "2 ^ nat (- e) * 2 ^ nat (- y) :: int"
  have "?p \<le> n * 2 ^ nat (- e) * 2 ^ nat (- y)" using f(4) n by (intro mult_left_mono) auto
  then have le: "?p \<le> n * ?q" by (simp add: ac_simps)
  have q: "0 < ?q" by simp
  have p: "0 \<le> ?p" using f(3) n(1) by simp
  obtain m x where "f64_of_ratio ?p ?q = Fin m x" "x \<le> 0" "0 \<le> m" "m \<le> n * 2 ^ nat (- x)"
    by (rule f64_of_ratio_le[OF p q le n(2)])
  then show ?thesis
    using f64_trunc_le[of x m n] by (simp only: e(1) f(1) f64_mul_scaled[OF e(2) f(2)])
qed

lemma f64_scale_one:
  assumes n: "0 \<le> n" "n < 2 ^ 53"
  shows "f64_trunc (f64_mul (f64_of_int n) (Fin 1 0)) = Some n"
proof -
  obtain e where e: "f64_of_int n = Fin (n * 2 ^ nat (- e)) e" "e \<le> 0"
    using f64_of_ratio_exact[of n 1] n unfolding f64_of_int_def by auto
  obtain x where x: "f64_of_ratio (n * 2 ^ nat (- e)) (2 ^ nat (- e)) = Fin (n * 2 ^ nat (- x)) x"
    "x \<le> 0"
    using f64_of_ratio_exact[of n "2 ^ nat (- e)"] n by auto
  then have "f64_trunc (Fin (n * 2 ^ nat (- x)) x) = Some n" using n by simp
  moreover have "f64_mul (f64_of_int n) (Fin 1 0) = Fin (n * 2 ^ nat (- x)) x"
    using f64_mul_scaled[OF e(2), of 0 "n * 2 ^ nat (- e)" 1] x(1) unfolding e(1) by (simp del: f64_mul.simps)
  ultimately show ?thesis by (simp only:)
qed

lemma f64_to_int64_trunc:
  "f64_trunc f = Some v \<Longrightarrow> in_int64 v \<Longrightarrow> sint (f64_to_int64 f) = v"
  by (simp add: f64_to_int64_def sint_of_int_exact)

end
