(* ===== verification/Go_Time.thy ===== *)
theory Go_Time
  imports Go_Strings Go_Float
begin

text \<open>
  What the program uses of the package \<^verbatim>\<open>time\<close>: instants (an \<open>int\<close> number of
  nanoseconds), \<^verbatim>\<open>Time.Sub\<close> with its saturation, durations (an \<^verbatim>\<open>int64\<close>
  number of nanoseconds) and \<^verbatim>\<open>ParseDuration\<close>. The text of a parse error is not kept,
  only which of the three errors it is.
\<close>

type_synonym gotime = int
type_synonym duration = int64

definition second_ns :: int where
  "second_ns = 1000000000"

definition time_sub :: "gotime \<Rightarrow> gotime \<Rightarrow> duration" where
  "time_sub t u =
     (if t - u < - (2 ^ 63) then word_of_int (- (2 ^ 63))
      else if 2 ^ 63 \<le> t - u then word_of_int (2 ^ 63 - 1)
      else word_of_int (t - u))"

definition clamp64 :: "int \<Rightarrow> int" where
  "clamp64 x = max (- (2 ^ 63)) (min (2 ^ 63 - 1) x)"

lemma sint_time_sub: "sint (time_sub t u) = clamp64 (t - u)"
  by (auto simp: time_sub_def clamp64_def sint_of_int_exact in_int64_def simp del: of_int_diff)

lemma clamp64_id [simp]: "in_int64 x \<Longrightarrow> clamp64 x = x"
  by (auto simp: clamp64_def in_int64_def)

lemma clamp64_gr: "in_int64 y \<Longrightarrow> y < 2 ^ 63 - 1 \<Longrightarrow> (y < clamp64 x) = (y < x)"
  by (auto simp: clamp64_def in_int64_def)

subsection \<open>ParseDuration\<close>

datatype dur_error = InvalidDuration | MissingUnit | UnknownUnit string

definition is_digit :: "char \<Rightarrow> bool" where
  "is_digit c \<longleftrightarrow> 48 \<le> (of_char c :: int) \<and> (of_char c :: int) \<le> 57"

definition dec_val :: "char \<Rightarrow> int" where
  "dec_val c = of_char c - 48"

fun leading_int :: "string \<Rightarrow> int \<Rightarrow> (int \<times> string) option" where
  "leading_int [] x = Some (x, [])"
| "leading_int (c # cs) x =
     (if \<not> is_digit c then Some (x, c # cs)
      else if 2 ^ 63 div 10 < x then None
      else if 2 ^ 63 < x * 10 + dec_val c then None
      else leading_int cs (x * 10 + dec_val c))"

fun leading_fraction :: "string \<Rightarrow> int \<Rightarrow> float64 \<Rightarrow> bool \<Rightarrow> int \<times> float64 \<times> string" where
  "leading_fraction [] x scale overflow = (x, scale, [])"
| "leading_fraction (c # cs) x scale overflow =
     (if \<not> is_digit c then (x, scale, c # cs)
      else if overflow then leading_fraction cs x scale True
      else if (2 ^ 63 - 1) div 10 < x then leading_fraction cs x scale True
      else if 2 ^ 63 < x * 10 + dec_val c then leading_fraction cs x scale True
      else leading_fraction cs (x * 10 + dec_val c) (f64_mul scale (Fin 10 0)) False)"

definition unit_map :: "string \<rightharpoonup> int" where
  "unit_map = [''ns'' \<mapsto> 1, ''us'' \<mapsto> 1000, [char_of (194::nat), char_of (181::nat), CHR ''s''] \<mapsto> 1000,
     [char_of (206::nat), char_of (188::nat), CHR ''s''] \<mapsto> 1000,
     ''ms'' \<mapsto> 1000000, ''s'' \<mapsto> 1000000000, ''m'' \<mapsto> 60000000000, ''h'' \<mapsto> 3600000000000]"

definition unit_char :: "char \<Rightarrow> bool" where
  "unit_char c \<longleftrightarrow> c \<noteq> CHR ''.'' \<and> \<not> is_digit c"

text \<open>
  One iteration of the loop of \<^verbatim>\<open>ParseDuration\<close>: a number with an optional fraction and
  its unit. The result is the amount in nanoseconds and the rest of the string.
\<close>

definition parse_component :: "string \<Rightarrow> dur_error + (int \<times> string)" where
  "parse_component s =
     (if s = [] \<or> \<not> (hd s = CHR ''.'' \<or> is_digit (hd s)) then Inl InvalidDuration
      else case leading_int s 0 of
        None \<Rightarrow> Inl InvalidDuration
      | Some (v, s1) \<Rightarrow>
          let pre = (length s \<noteq> length s1);
              dot = (s1 \<noteq> [] \<and> hd s1 = CHR ''.'');
              (f, scale, s2) = (if dot then leading_fraction (tl s1) 0 (Fin 1 0) False
                                else (0, Fin 1 0, s1));
              post = (dot \<and> length (tl s1) \<noteq> length s2)
          in if \<not> pre \<and> \<not> post then Inl InvalidDuration
             else
               let u = takeWhile unit_char s2; s3 = dropWhile unit_char s2 in
               if u = [] then Inl MissingUnit
               else case unit_map u of
                 None \<Rightarrow> Inl (UnknownUnit u)
               | Some unit \<Rightarrow>
                   if 2 ^ 63 div unit < v then Inl InvalidDuration
                   else
                     let v' = v * unit;
                         v'' = (if 0 < f
                                then v' + the (f64_trunc
                                       (f64_mul (f64_of_int f)
                                          (f64_div (f64_of_int unit) scale)))
                                else v')
                     in if 0 < f \<and> 2 ^ 63 < v'' then Inl InvalidDuration else Inr (v'', s3))"

lemma leading_int_length: "leading_int s x = Some (y, r) \<Longrightarrow> length r \<le> length s"
  by (induction s x rule: leading_int.induct) (auto split: if_splits)

lemma leading_fraction_length:
  "leading_fraction s x sc ov = (y, sc', r) \<Longrightarrow> length r \<le> length s"
  by (induction s x sc ov rule: leading_fraction.induct) (auto split: if_splits)

lemma dropWhile_shorter: "takeWhile P s \<noteq> [] \<Longrightarrow> length (dropWhile P s) < length s"
  by (metis add_less_same_cancel2 length_append length_greater_0_conv takeWhile_dropWhile_id
      less_add_same_cancel2)

lemma parse_component_shorter: "parse_component s = Inr (v, r) \<Longrightarrow> length r < length s"
proof -
  assume "parse_component s = Inr (v, r)"
  then obtain x s1 f sc s2 where
    "leading_int s 0 = Some (x, s1)"
    "(if s1 \<noteq> [] \<and> hd s1 = CHR ''.'' then leading_fraction (tl s1) 0 (Fin 1 0) False
      else (0, Fin 1 0, s1)) = (f, sc, s2)"
    "takeWhile unit_char s2 \<noteq> []" "r = dropWhile unit_char s2"
    unfolding parse_component_def Let_def
    by (auto split: if_splits option.splits prod.splits)
  then have "length r < length s2" "length s2 \<le> length s1" "length s1 \<le> length s"
    by (auto simp: dropWhile_shorter split: if_splits dest!: leading_int_length leading_fraction_length)
  then show ?thesis by linarith
qed

function parse_components :: "string \<Rightarrow> int \<Rightarrow> dur_error + int" where
  "parse_components s d =
     (if s = [] then Inr d
      else case parse_component s of
        Inl e \<Rightarrow> Inl e
      | Inr (v, r) \<Rightarrow>
          let d' = (d + v) mod 2 ^ 64 in
          if 2 ^ 63 < d' then Inl InvalidDuration else parse_components r d')"
  by pat_completeness auto
termination
  by (relation "measure (\<lambda>(s, d). length s)") (auto dest: parse_component_shorter)

declare parse_components.simps [simp del]

definition parse_duration :: "string \<Rightarrow> dur_error + duration" where
  "parse_duration orig =
     (let neg = (orig \<noteq> [] \<and> hd orig = CHR ''-'');
          s = (if orig \<noteq> [] \<and> (hd orig = CHR ''-'' \<or> hd orig = CHR ''+'') then tl orig else orig)
      in if s = ''0'' then Inr 0
         else if s = [] then Inl InvalidDuration
         else case parse_components s 0 of
           Inl e \<Rightarrow> Inl e
         | Inr d \<Rightarrow>
             if neg then Inr (word_of_int (- d))
             else if 2 ^ 63 - 1 < d then Inl InvalidDuration
             else Inr (word_of_int d))"

subsection \<open>Whole amounts of one unit\<close>

lemma digit_char_props [simp]:
  assumes "0 \<le> d" "d < 10"
  shows "is_digit (digit_char d)" "dec_val (digit_char d) = d"
  using assms by (simp_all add: is_digit_def dec_val_def digit_char_def)

lemma leading_int_append:
  "leading_int s x = Some (y, []) \<Longrightarrow> leading_int (s @ t) x = leading_int t y"
  by (induction s x rule: leading_int.induct) (auto split: if_splits)

lemma leading_int_show_int: "0 \<le> n \<Longrightarrow> n \<le> 2 ^ 63 \<Longrightarrow> leading_int (show_int n) 0 = Some (n, [])"
proof (induction n rule: show_int.induct)
  case (1 n)
  show ?case
  proof (cases "n < 10")
    case True
    then show ?thesis using 1(2) by (subst show_int.simps) simp
  next
    case False
    with 1 have ih: "leading_int (show_int (n div 10)) 0 = Some (n div 10, [])" by simp
    have "n div 10 \<le> 2 ^ 63 div 10" "n div 10 * 10 + n mod 10 = n"
      using 1(3) by (simp_all add: zdiv_mono1)
    then show ?thesis
      using False 1(2,3) leading_int_append[OF ih, of "[digit_char (n mod 10)]"]
      by (subst show_int.simps) simp
  qed
qed

lemma parse_component_show_int:
  assumes u: "unit_map u = Some k" "u \<noteq> []" "\<forall>c\<in>set u. unit_char c" and k: "0 < k"
    and n: "0 \<le> n" "n \<le> 2 ^ 63 div k"
  shows "parse_component (show_int n @ u) = Inr (n * k, [])"
proof -
  obtain d where d: "0 \<le> d" "d < 10" "hd (show_int n) = digit_char d"
    using hd_show_int_digit[OF n(1)] by blast
  then have hd: "is_digit (hd (show_int n @ u))" by simp
  obtain c cs where c: "u = c # cs" "unit_char c" using u by (cases u) auto
  have "2 ^ 63 div k \<le> 2 ^ 63" using k int_div_less_self[of "2 ^ 63" k] by (cases "k = 1") auto
  with n have "n \<le> 2 ^ 63" by linarith
  then have li: "leading_int (show_int n @ u) 0 = Some (n, u)"
    using leading_int_append[OF leading_int_show_int, of n u] c n(1) by (simp add: unit_char_def)
  have "hd u \<noteq> CHR ''.''" using c by (simp add: unit_char_def)
  moreover have tw: "takeWhile unit_char u = u" "dropWhile unit_char u = []" using u(3) by auto
  ultimately show ?thesis
    using u(1,2) n(2) hd by (simp add: parse_component_def li Let_def tw)
qed

text \<open>\<^verbatim>\<open>ParseDuration\<close> of a decimal amount and a unit is that many units.\<close>

lemma parse_duration_show_int:
  assumes u: "unit_map u = Some k" "u \<noteq> []" "\<forall>c\<in>set u. unit_char c" and k: "0 < k"
    and n: "0 \<le> n" "n * k < 2 ^ 63"
  shows "parse_duration (show_int n @ u) = Inr (word_of_int (n * k))"
proof -
  have "n * k div k \<le> 2 ^ 63 div k" using n k by (intro zdiv_mono1) auto
  then have "n \<le> 2 ^ 63 div k" using k by simp
  from parse_component_show_int[OF u k n(1) this]
  have "parse_components (show_int n @ u) 0 = Inr (n * k)"
    using n k by (simp add: parse_components.simps[of "show_int n @ u"] parse_components.simps[of "[]"])
  moreover have "show_int n @ u \<noteq> ''0''"
  proof
    assume "show_int n @ u = ''0''"
    then have "u = [] \<or> u = ''0''" by (metis append_eq_Cons_conv append_is_Nil_conv show_int_nonempty)
    then show False using u by (auto simp: unit_char_def is_digit_def)
  qed
  ultimately show ?thesis using n by (simp add: parse_duration_def Let_def hd_append)
qed

end
