(* ===== verification/Job.thy ===== *)
theory Job
  imports Go_Time
begin

text \<open>
  \<^verbatim>\<open>base/job.go\<close>: the phases and the job a master distributes to its agents, their
  validation and their durations. \<^verbatim>\<open>time.Now()\<close> is the argument \<open>now\<close>.
\<close>

record job_phase =
  phase_Name :: string
  UsersPerSecond :: int64
  phase_Duration :: string

record job =
  job_Name :: string
  StartTime :: gotime
  Phases :: "job_phase list"
  SessionNames :: "string list"
  SessionPercentages :: "float64 list"
  SessionParams :: params

definition phase_validate :: "job_phase \<Rightarrow> dur_error option" where
  "phase_validate p =
     (case parse_duration (phase_Duration p) of Inl e \<Rightarrow> Some e | Inr _ \<Rightarrow> None)"

definition get_duration :: "job_phase \<Rightarrow> duration" where
  "get_duration p = (case parse_duration (phase_Duration p) of Inl _ \<Rightarrow> 0 | Inr d \<Rightarrow> d)"

fun validate_phases :: "job_phase list \<Rightarrow> dur_error option" where
  "validate_phases [] = None"
| "validate_phases (p # ps) =
     (case phase_validate p of Some e \<Rightarrow> Some e | None \<Rightarrow> validate_phases ps)"

definition job_validate :: "job \<Rightarrow> dur_error option" where
  "job_validate j = validate_phases (Phases j)"

definition job_duration :: "job \<Rightarrow> gotime \<Rightarrow> duration" where
  "job_duration j now = time_sub now (StartTime j)"

lemma validate_phases_None_iff:
  "validate_phases ps = None \<longleftrightarrow> (\<forall>p\<in>set ps. phase_validate p = None)"
  by (induction ps) (auto split: option.splits)

lemma phase_validate_None_iff:
  "phase_validate p = None \<longleftrightarrow> parse_duration (phase_Duration p) = Inr (get_duration p)"
  by (auto simp: phase_validate_def get_duration_def split: sum.splits)

text \<open>
  \<^verbatim>\<open>Job.Validate\<close> accepts a job exactly when every phase has a duration that
  \<^verbatim>\<open>time.ParseDuration\<close> accepts, and \<^verbatim>\<open>GetDuration\<close>, which drops the parse
  error, then returns that duration for every phase, never the zero of a failed parse.
\<close>

theorem validated_durations:
  "job_validate j = None \<longleftrightarrow>
     list_all (\<lambda>p. parse_duration (phase_Duration p) = Inr (get_duration p)) (Phases j)"
  by (simp add: job_validate_def validate_phases_None_iff phase_validate_None_iff list_all_iff)

end
