(* ===== verification/Http_Get.thy ===== *)
theory Http_Get
  imports Session_Machine Quic_Pool Job
begin

text \<open>
  \<^verbatim>\<open>sessions/http_get.go\<close>. \<^verbatim>\<open>Setup\<close> builds the HTTP client from the session
  parameters; \<^verbatim>\<open>url.Parse\<close> (of which the code uses scheme and host) and
  \<^verbatim>\<open>quic.DialAddr\<close> are given by the environment. \<^verbatim>\<open>Execute\<close> is a step function:
  the events are the answers of \<^verbatim>\<open>client.Get\<close>, the calls the transport makes back to
  \<^verbatim>\<open>DialContext\<close> while \<^verbatim>\<open>Get\<close> runs, and the end of the body with the time the
  request took.
\<close>

record url =
  url_Scheme :: string
  url_Host :: string

record tls_config =
  InsecureSkipVerify :: bool
  ClientSessionCache :: "goint option"
  NextProtos :: "string list"

datatype dial_context = DialPlain | DialTLS tls_config | DialQuic

record http_transport =
  t_DialContext :: "dial_context option"
  t_DialTLSContext :: "dial_context option"
  t_MaxIdleConns :: goint
  t_MaxIdleConnsPerHost :: goint
  t_MaxConnsPerHost :: goint
  t_DisableKeepAlives :: bool
  t_Proxy :: "url option"
  t_NoHttp2 :: bool

datatype round_tripper =
    Transport http_transport
  | ProxyTransport url http_transport string

type_synonym quic_connection = nat

record http_get_session =
  h_client :: "round_tripper option"
  h_quicPool :: "quic_connection quic_conn_pool option"
  h_counterInitiated :: int64
  h_counterCompleted :: int64
  h_counterError :: int64
  h_counterDial :: int64
  h_counterDurationLt1000 :: int64
  h_counterDurationLt10000 :: int64
  h_counterDurationGte10000 :: int64

definition http_Name :: string where
  [simp]: "http_Name = ''HttpGet''"

record http_env =
  env_url_parse :: "string \<Rightarrow> url option"
  env_quic_dial :: "string \<Rightarrow> tls_config \<Rightarrow> int64 \<Rightarrow> nat \<Rightarrow> goerror + quic_connection"

subsection \<open>Setup\<close>

definition http_reset :: "http_get_session \<Rightarrow> http_get_session" where
  "http_reset s = s\<lparr>h_counterInitiated := 0, h_counterCompleted := 0, h_counterError := 0,
     h_counterDial := 0, h_counterDurationLt1000 := 0, h_counterDurationLt10000 := 0,
     h_counterDurationGte10000 := 0\<rparr>"

definition http_tls_config :: "params \<Rightarrow> tls_config option" where
  "http_tls_config ps =
     (if str_get ps ''tls'' \<noteq> ''true'' then None
      else Some \<lparr>InsecureSkipVerify = (str_get ps ''insecure'' = ''true''),
                 ClientSessionCache =
                   (if str_get ps ''tlsClientSessionCache'' \<noteq> ''''
                    then Some (fst (atoi (str_get ps ''tlsClientSessionCache''))) else None),
                 NextProtos = []\<rparr>)"

definition http_base_transport :: "params \<Rightarrow> http_transport" where
  "http_base_transport ps =
     \<lparr>t_DialContext =
        Some (case http_tls_config ps of None \<Rightarrow> DialPlain | Some c \<Rightarrow> DialTLS c),
      t_DialTLSContext = None,
      t_MaxIdleConns = fst (param_int ps ''maxIdleConns'' 100),
      t_MaxIdleConnsPerHost = fst (param_int ps ''maxIdleConnsPerHost'' 2),
      t_MaxConnsPerHost = fst (param_int ps ''maxConnsPerHost'' 0),
      t_DisableKeepAlives = (str_get ps ''keepAlive'' = ''false''),
      t_Proxy = None,
      t_NoHttp2 = False\<rparr>"

text \<open>The \<^verbatim>\<open>quic\<close> branch: the number of connections, the dial of the pool, the dialer.\<close>

definition http_quic_pool :: "params \<Rightarrow> quic_connection quic_conn_pool" where
  "http_quic_pool ps =
     \<lparr>qp_n = (if str_get ps ''quicMaxConnections'' \<noteq> ''''
              then word_of_int (fst (parse_uint (str_get ps ''quicMaxConnections'') 10)) else 100),
      qp_conns = [], qp_cnt = 0\<rparr>"

definition http_quic_max_streams :: "params \<Rightarrow> int64" where
  "http_quic_max_streams ps =
     (if str_get ps ''quicMaxStreams'' \<noteq> ''''
      then fst (parse_int (str_get ps ''quicMaxStreams'') 10) else 0)"

definition http_setup_quic ::
  "http_env \<Rightarrow> params \<Rightarrow> url \<Rightarrow> http_get_session \<Rightarrow> http_transport \<Rightarrow>
     (http_get_session \<times> http_transport \<times> goerror option) go" where
  "http_setup_quic env ps u s tr =
     (case http_tls_config ps of
        None \<Rightarrow> Panic NilDereference
      | Some c \<Rightarrow>
          (let c' = c\<lparr>NextProtos := [''quic'']\<rparr> in
           go_bind (quic_Dial (env_quic_dial env (url_Host u) c' (http_quic_max_streams ps))
                      (http_quic_pool ps)) (\<lambda>(pool, err).
             case err of
               Some e \<Rightarrow> Return (s, tr\<lparr>t_DialContext := Some (DialTLS c')\<rparr>, Some e)
             | None \<Rightarrow>
                 Return (s\<lparr>h_quicPool := Some pool\<rparr>, tr\<lparr>t_DialContext := Some DialQuic\<rparr>, None))))"

definition http_setup_proxy :: "params \<Rightarrow> url \<Rightarrow> http_transport \<Rightarrow> round_tripper" where
  "http_setup_proxy ps u tr =
     (if str_get ps ''httpProxy'' = ''true''
      then ProxyTransport u
             (if url_Scheme u = ''https''
              then tr\<lparr>t_DialTLSContext := t_DialContext tr, t_DialContext := None\<rparr> else tr)
             (str_get ps ''proxyUser'')
      else Transport (tr\<lparr>t_Proxy := Some u\<rparr>))"

text \<open>The type assertion \<^verbatim>\<open>Transport.(*http.Transport)\<close> of the last branch.\<close>

definition http_disable_h2 :: "params \<Rightarrow> round_tripper \<Rightarrow> round_tripper go" where
  "http_disable_h2 ps rt =
     (if str_get ps ''h2'' = ''false''
      then (case rt of
              Transport tr \<Rightarrow> Return (Transport (tr\<lparr>t_NoHttp2 := True\<rparr>))
            | ProxyTransport _ _ _ \<Rightarrow> Panic TypeAssertion)
      else Return rt)"

definition http_Setup ::
  "http_env \<Rightarrow> params \<Rightarrow> http_get_session \<Rightarrow> (http_get_session \<times> goerror option) go" where
  "http_Setup env ps s =
     (let s0 = http_reset s;
          tr = http_base_transport ps;
          finish = (\<lambda>s rt. go_bind (http_disable_h2 ps rt)
                      (\<lambda>rt'. Return (s\<lparr>h_client := Some rt'\<rparr>, None)));
          proxyUrl = str_get ps ''proxy''
      in case (if proxyUrl \<noteq> '''' then env_url_parse env proxyUrl else None) of
           None \<Rightarrow> finish s0 (Transport tr)
         | Some u \<Rightarrow>
             if str_get ps ''quic'' = ''true''
             then go_bind (http_setup_quic env ps u s0 tr) (\<lambda>(s1, tr1, err).
                    case err of
                      Some e \<Rightarrow> Return (s1\<lparr>h_client := Some (Transport tr1)\<rparr>, Some e)
                    | None \<Rightarrow> finish s1 (http_setup_proxy ps u tr1))
             else finish s0 (http_setup_proxy ps u tr))"

subsection \<open>Execute\<close>

datatype http_pc =
    HStart
  | HGetting
  | HFailed
  | HBody
  | HBucketed
  | HFinishing
  | HReturnedOk
  | HReturnedErr

record http_user =
  h_ctx :: user_context
  h_pc :: http_pc

datatype http_event =
    HGo
  | HDial
  | HGet string "goerror option"
  | HRead int64

definition http_start :: "user_context \<Rightarrow> http_user" where
  "http_start ctx = \<lparr>h_ctx = ctx, h_pc = HStart\<rparr>"

definition http_dialer :: "round_tripper \<Rightarrow> dial_context option" where
  "http_dialer rt =
     (case (case rt of Transport tr \<Rightarrow> tr | ProxyTransport _ tr _ \<Rightarrow> tr) of
        tr \<Rightarrow> (case t_DialContext tr of Some d \<Rightarrow> Some d | None \<Rightarrow> t_DialTLSContext tr))"

text \<open>
  The callback \<^verbatim>\<open>DialContext\<close>: count, then dial, over QUIC with a pooled connection. The transport
  may make it while \<^verbatim>\<open>Get\<close> runs and also after \<^verbatim>\<open>Get\<close> has returned, until the user returns.
\<close>

definition http_dial :: "http_get_session \<Rightarrow> http_get_session go" where
  "http_dial s =
     (let s1 = s\<lparr>h_counterDial := h_counterDial s + 1\<rparr> in
      case Option.bind (h_client s) http_dialer of
        Some DialQuic \<Rightarrow>
          (case h_quicPool s of
             None \<Rightarrow> Panic NilDereference
           | Some pool \<Rightarrow> go_bind (quic_Get pool) (\<lambda>(c, pool'). Return (s1\<lparr>h_quicPool := Some pool'\<rparr>)))
      | _ \<Rightarrow> Return s1)"

definition http_record_duration :: "int64 \<Rightarrow> http_get_session \<Rightarrow> http_get_session" where
  "http_record_duration d s =
     (if sint d < second_ns then s\<lparr>h_counterDurationLt1000 := h_counterDurationLt1000 s + 1\<rparr>
      else if sint d < 10 * second_ns then s\<lparr>h_counterDurationLt10000 := h_counterDurationLt10000 s + 1\<rparr>
      else s\<lparr>h_counterDurationGte10000 := h_counterDurationGte10000 s + 1\<rparr>)"

definition http_step ::
  "http_get_session \<Rightarrow> http_user \<Rightarrow> http_event \<Rightarrow> (http_get_session, http_user) step_result" where
  "http_step s l e =
     (case (h_pc l, e) of
        (HStart, HGo) \<Rightarrow>
          Next (s\<lparr>h_counterInitiated := h_counterInitiated s + 1\<rparr>) (l\<lparr>h_pc := HGetting\<rparr>)
      | (pc, HDial) \<Rightarrow>
          if pc \<in> {HStart, HReturnedErr, HReturnedOk} then Disabled
          else (case http_dial s of Return s' \<Rightarrow> Next s' l | Panic p \<Rightarrow> Crash p | Fatal _ \<Rightarrow> Disabled)
      | (HGetting, HGet u res) \<Rightarrow>
          if u = str_get (ctx_Params (h_ctx l)) ''url''
          then (if h_client s = None then Crash NilDereference
                else case res of
                  Some err \<Rightarrow>
                    Next (s\<lparr>h_counterInitiated := h_counterInitiated s - 1\<rparr>) (l\<lparr>h_pc := HFailed\<rparr>)
                | None \<Rightarrow> Next s (l\<lparr>h_pc := HBody\<rparr>))
          else Disabled
      | (HFailed, HGo) \<Rightarrow>
          Next (s\<lparr>h_counterError := h_counterError s + 1\<rparr>) (l\<lparr>h_pc := HReturnedErr\<rparr>)
      | (HBody, HRead d) \<Rightarrow> Next (http_record_duration d s) (l\<lparr>h_pc := HBucketed\<rparr>)
      | (HBucketed, HGo) \<Rightarrow>
          Next (s\<lparr>h_counterInitiated := h_counterInitiated s - 1\<rparr>) (l\<lparr>h_pc := HFinishing\<rparr>)
      | (HFinishing, HGo) \<Rightarrow>
          Next (s\<lparr>h_counterCompleted := h_counterCompleted s + 1\<rparr>) (l\<lparr>h_pc := HReturnedOk\<rparr>)
      | _ \<Rightarrow> Disabled)"

text \<open>Both ways out return a nil error.\<close>

definition http_result :: "http_user \<Rightarrow> goerror option option" where
  "http_result l =
     (case h_pc l of HReturnedOk \<Rightarrow> Some None | HReturnedErr \<Rightarrow> Some None | _ \<Rightarrow> None)"

definition http_Counters :: "http_get_session \<Rightarrow> counters" where
  "http_Counters s =
     [''initiated'' \<mapsto> h_counterInitiated s,
      ''completed'' \<mapsto> h_counterCompleted s,
      ''error'' \<mapsto> h_counterError s,
      ''dial'' \<mapsto> h_counterDial s,
      ''duration:<1000'' \<mapsto> h_counterDurationLt1000 s,
      ''duration:<10000'' \<mapsto> h_counterDurationLt10000 s,
      ''duration:>=10000'' \<mapsto> h_counterDurationGte10000 s]"

text \<open>The master's \<^verbatim>\<open>AggregateCounters\<close>, at the instant \<open>now\<close>.\<close>

definition http_AggregateCounters :: "job \<Rightarrow> gotime \<Rightarrow> counters \<Rightarrow> counters go" where
  "http_AggregateCounters j now counters =
     (let completed = cnt_get counters ''completed''; d = job_duration j now in
      if 0 <s d
      then go_bind (go_div completed (word_of_int (sint d sdiv second_ns)))
             (\<lambda>rps. Return (counters(''rps'' \<mapsto> rps)))
      else Return counters)"

record http_request =
  req_Header :: "string \<rightharpoonup> string"
  req_Scheme :: string
  req_Host :: string

text \<open>\<^verbatim>\<open>httpProxyTransport.RoundTrip\<close>: the request it hands to the inner transport.\<close>

definition http_proxy_RoundTrip :: "url \<Rightarrow> string \<Rightarrow> http_request \<Rightarrow> http_request" where
  "http_proxy_RoundTrip proxy user r =
     r\<lparr>req_Header := (req_Header r)(''X-Proxy-Proto'' \<mapsto> req_Scheme r, ''X-Proxy-User'' \<mapsto> user),
       req_Scheme := url_Scheme proxy, req_Host := url_Host proxy\<rparr>"

subsection \<open>Accounting\<close>

definition http_active :: "http_user \<Rightarrow> bool" where
  [session_defs]: "http_active l \<longleftrightarrow> h_pc l \<in> {HGetting, HBody, HBucketed}"

definition http_ok :: "http_user \<Rightarrow> bool" where
  [session_defs]: "http_ok l \<longleftrightarrow> h_pc l = HReturnedOk"

definition http_failed :: "http_user \<Rightarrow> bool" where
  [session_defs]: "http_failed l \<longleftrightarrow> h_pc l = HReturnedErr"

definition http_timed :: "http_user \<Rightarrow> bool" where
  [session_defs]: "http_timed l \<longleftrightarrow> h_pc l \<in> {HBucketed, HFinishing, HReturnedOk}"

definition http_buckets :: "http_get_session \<Rightarrow> int64" where
  "http_buckets s =
     h_counterDurationLt1000 s + h_counterDurationLt10000 s + h_counterDurationGte10000 s"

lemma http_dial_frame:
  assumes "http_dial s = Return s'"
  shows "h_counterInitiated s' = h_counterInitiated s" "h_counterCompleted s' = h_counterCompleted s"
    "h_counterError s' = h_counterError s" "http_buckets s' = http_buckets s"
    "h_counterDial s' = h_counterDial s + 1"
  using assms
  by (auto simp: http_dial_def Let_def http_buckets_def split_beta
      split: option.splits dial_context.splits)

lemma http_record_duration_frame [simp]:
  "h_counterInitiated (http_record_duration d s) = h_counterInitiated s"
  "h_counterCompleted (http_record_duration d s) = h_counterCompleted s"
  "h_counterError (http_record_duration d s) = h_counterError s"
  "http_buckets (http_record_duration d s) = http_buckets s + 1"
  by (auto simp: http_record_duration_def http_buckets_def)

lemma http_buckets_frame [simp]:
  "http_buckets (s\<lparr>h_counterInitiated := x\<rparr>) = http_buckets s"
  "http_buckets (s\<lparr>h_counterCompleted := x\<rparr>) = http_buckets s"
  "http_buckets (s\<lparr>h_counterError := x\<rparr>) = http_buckets s"
  by (simp_all add: http_buckets_def)

lemma http_step_counters:
  assumes "http_step s l e = Next s' l'"
  shows "h_counterInitiated s' = h_counterInitiated s + (of_bool (http_active l') - of_bool (http_active l))"
    "h_counterCompleted s' = h_counterCompleted s + (of_bool (http_ok l') - of_bool (http_ok l))"
    "h_counterError s' = h_counterError s + (of_bool (http_failed l') - of_bool (http_failed l))"
    "http_buckets s' = http_buckets s + (of_bool (http_timed l') - of_bool (http_timed l))"
  using assms
  by (auto simp: http_step_def http_dial_frame http_active_def http_ok_def http_failed_def http_timed_def
      split: http_pc.splits http_event.splits if_splits option.splits go.splits)

interpretation http_progress: session_gauge http_step http_start "\<lambda>_. True" h_counterInitiated
  "\<lambda>l. of_bool (http_active l)" http_active
  by unfold_locales (simp_all add: http_step_counters, simp add: http_active_def http_start_def)

interpretation http_completed: session_gauge http_step http_start "\<lambda>_. True" h_counterCompleted
  "\<lambda>l. of_bool (http_ok l)" http_ok
  by unfold_locales (simp_all add: http_step_counters, simp add: http_ok_def http_start_def)

interpretation http_errors: session_gauge http_step http_start "\<lambda>_. True" h_counterError
  "\<lambda>l. of_bool (http_failed l)" http_failed
  by unfold_locales (simp_all add: http_step_counters, simp add: http_failed_def http_start_def)

interpretation http_durations: session_gauge http_step http_start "\<lambda>_. True" http_buckets
  "\<lambda>l. of_bool (http_timed l)" http_timed
  by unfold_locales (simp_all add: http_step_counters, simp add: http_timed_def http_start_def)

subsection \<open>Setup\<close>

lemma http_Setup_counters:
  assumes "http_Setup env ps s = Return (s', err)"
  shows "h_counterInitiated s' = 0" "h_counterCompleted s' = 0" "h_counterError s' = 0"
    "h_counterDial s' = 0" "h_counterDurationLt1000 s' = 0" "h_counterDurationLt10000 s' = 0"
    "h_counterDurationGte10000 s' = 0"
  using assms
  by (auto simp: http_Setup_def http_reset_def http_setup_quic_def Let_def split_beta
      split: option.splits if_splits)

interpretation http_session: session_api http_Setup "\<lambda>s. Return (http_Counters s)"
  by unfold_locales (simp add: http_Counters_def http_Setup_counters)

lemma http_disable_h2_proxy:
  "str_get ps ''h2'' = ''false'' \<Longrightarrow> http_disable_h2 ps (ProxyTransport u tr user) = Panic TypeAssertion"
  by (simp add: http_disable_h2_def)

text \<open>
  \<^verbatim>\<open>HttpGetSession.Setup\<close> does not check the combination of its parameters. With
  a parsable proxy, \<^verbatim>\<open>quic=true\<close> without \<^verbatim>\<open>tls=true\<close> dereferences the nil
  \<^verbatim>\<open>tlsConfig\<close>, and \<^verbatim>\<open>httpProxy=true\<close> with \<^verbatim>\<open>h2=false\<close> (without QUIC)
  fails the type assertion on the transport it has just replaced: both panic in the agent.
\<close>

theorem http_Setup_panics:
  assumes "str_get ps ''proxy'' \<noteq> ''''" and "env_url_parse env (str_get ps ''proxy'') = Some u"
  shows "(str_get ps ''quic'' = ''true'' \<and> str_get ps ''tls'' \<noteq> ''true'' \<longrightarrow>
            http_Setup env ps s = Panic NilDereference)
       \<and> (str_get ps ''quic'' \<noteq> ''true'' \<and> str_get ps ''httpProxy'' = ''true'' \<and> str_get ps ''h2'' = ''false'' \<longrightarrow>
            http_Setup env ps s = Panic TypeAssertion)"
  using assms
  by (auto simp: http_Setup_def http_setup_quic_def http_tls_config_def http_setup_proxy_def
      http_disable_h2_proxy)

definition demo_http_env :: http_env where
  "demo_http_env = \<lparr>env_url_parse = (\<lambda>s. Some \<lparr>url_Scheme = ''http'', url_Host = s\<rparr>),
     env_quic_dial = (\<lambda>_ _ _ i. Inr i)\<rparr>"

definition demo_http :: http_get_session where
  "demo_http = \<lparr>h_client = None, h_quicPool = None, h_counterInitiated = 7, h_counterCompleted = 3,
     h_counterError = 1, h_counterDial = 9, h_counterDurationLt1000 = 3, h_counterDurationLt10000 = 0,
     h_counterDurationGte10000 = 0\<rparr>"

theorem http_Setup_panics_witness:
  "http_Setup demo_http_env [''proxy'' \<mapsto> ''p:1'', ''quic'' \<mapsto> ''true''] demo_http = Panic NilDereference
   \<and> http_Setup demo_http_env [''proxy'' \<mapsto> ''p:1'', ''httpProxy'' \<mapsto> ''true'', ''h2'' \<mapsto> ''false''] demo_http
     = Panic TypeAssertion"
proof -
  let ?u = "\<lparr>url_Scheme = ''http'', url_Host = ''p:1''\<rparr>"
  let ?p1 = "[''proxy'' \<mapsto> ''p:1'', ''quic'' \<mapsto> ''true''] :: params"
  let ?p2 = "[''proxy'' \<mapsto> ''p:1'', ''httpProxy'' \<mapsto> ''true'', ''h2'' \<mapsto> ''false''] :: params"
  have "http_Setup demo_http_env ?p1 demo_http = Panic NilDereference"
    using http_Setup_panics[of ?p1 demo_http_env ?u demo_http]
    by (simp add: demo_http_env_def str_get_def)
  moreover have "http_Setup demo_http_env ?p2 demo_http = Panic TypeAssertion"
    using http_Setup_panics[of ?p2 demo_http_env ?u demo_http]
    by (simp add: demo_http_env_def str_get_def)
  ultimately show ?thesis by blast
qed

subsection \<open>Requests per second\<close>

text \<open>
  C34: \<^verbatim>\<open>AggregateCounters\<close> divides the completed requests by the whole seconds since
  the job started, and panics with a division by zero exactly in the first second of the job
  (after its start instant), because its guard \<^verbatim>\<open>duration > 0\<close> tests the duration and
  not the number of seconds.
\<close>

theorem http_rps:
  "http_AggregateCounters j now cs =
     (if now \<le> StartTime j then Return cs
      else if now - StartTime j < second_ns then Panic DivideByZero
      else Return (cs(''rps'' \<mapsto>
        word_of_int (sint (cnt_get cs ''completed'') sdiv (clamp64 (now - StartTime j) div second_ns)))))"
proof -
  define d where "d = clamp64 (now - StartTime j)"
  have d: "sint (job_duration j now) = d" by (simp add: job_duration_def sint_time_sub d_def)
  have pos: "(0 < d) = (StartTime j < now)" "(d < second_ns) = (now - StartTime j < second_ns)"
    by (auto simp: d_def clamp64_def second_ns_def)
  have "d < 2 ^ 63" by (simp add: d_def clamp64_def)
  then have r: "0 < d \<Longrightarrow> in_int64 (d div second_ns)"
    by (simp add: in_int64_def second_ns_def) linarith
  have z: "(word_of_int (d div second_ns) :: int64) = 0 \<longleftrightarrow> d < second_ns" if "0 < d"
  proof -
    have "(word_of_int (d div second_ns) :: int64) = 0 \<longleftrightarrow> d div second_ns = 0"
      using sint_of_int_exact[OF r[OF that]] by (metis of_int_0 signed_0)
    also have "\<dots> \<longleftrightarrow> d < second_ns" using that by (auto simp: second_ns_def)
    finally show ?thesis .
  qed
  show ?thesis
    using pos r z
    by (auto simp: http_AggregateCounters_def Let_def word_sless_alt d go_div_def sint_of_int_exact
        d_def[symmetric] second_ns_def)
qed

subsection \<open>Accounting of requests\<close>

text \<open>
  C18: after \<^verbatim>\<open>Setup\<close>, in every interleaving of the users of the HTTP session,
  \<^verbatim>\<open>initiated\<close> is the number of requests in flight, \<^verbatim>\<open>completed\<close> and
  \<^verbatim>\<open>error\<close> the numbers of users that got and did not get their response, and the
  three duration buckets add up to the number of bodies read: every completed request is in
  exactly one bucket.
\<close>

theorem http_accounting:
  assumes "http_Setup env ps s = Return (s0, None)"
    and "sys_reach http_step http_start s0 (s', ls)"
  shows "http_Counters s' ''initiated'' = Some (word_of_nat (length (filter http_active ls)))
    \<and> http_Counters s' ''completed'' = Some (word_of_nat (length (filter http_ok ls)))
    \<and> http_Counters s' ''error'' = Some (word_of_nat (length (filter http_failed ls)))
    \<and> cnt_get (http_Counters s') ''duration:<1000'' + cnt_get (http_Counters s') ''duration:<10000''
        + cnt_get (http_Counters s') ''duration:>=10000'' = word_of_nat (length (filter http_timed ls))"
  using http_Setup_counters[OF assms(1)] http_progress.gauge_counts[OF assms(2)]
    http_completed.gauge_counts[OF assms(2)] http_errors.gauge_counts[OF assms(2)]
    http_durations.gauge_counts[OF assms(2)]
  by (simp add: http_Counters_def http_buckets_def)

definition demo_http_ctx :: user_context where
  "demo_http_ctx = \<lparr>UserId = ''u1'', ctx_Phase = ''p'', ctx_Params = [''url'' \<mapsto> ''http://h'']\<rparr>"

definition demo_http_ready :: http_get_session where
  "demo_http_ready = (http_reset demo_http)\<lparr>h_client := Some (Transport (http_base_transport Map.empty))\<rparr>"

lemma demo_http_Setup: "http_Setup demo_http_env Map.empty demo_http = Return (demo_http_ready, None)"
  by (simp add: http_Setup_def demo_http_ready_def str_get_def http_disable_h2_def)

lemma demo_http_run_result:
  "run_events http_step demo_http_ready (http_start demo_http_ctx)
     [HGo, HDial, HGet ''http://h'' None, HRead 5000000, HGo, HGo] =
   Next (demo_http_ready\<lparr>h_counterCompleted := 1, h_counterDial := 1, h_counterDurationLt1000 := 1\<rparr>)
     \<lparr>h_ctx = demo_http_ctx, h_pc = HReturnedOk\<rparr>"
  by (simp add: http_step_def http_start_def http_dial_def http_dialer_def demo_http_ready_def
      demo_http_def http_reset_def demo_http_ctx_def str_get_def http_record_duration_def second_ns_def
      http_base_transport_def http_tls_config_def)

theorem http_accounting_witness:
  "http_Counters (demo_http_ready\<lparr>h_counterCompleted := 1, h_counterDial := 1, h_counterDurationLt1000 := 1\<rparr>)
     ''completed'' = Some (word_of_nat (length (filter http_ok [\<lparr>h_ctx = demo_http_ctx, h_pc = HReturnedOk\<rparr>])))"
  using http_accounting[OF demo_http_Setup run_events_one[where start = http_start, OF demo_http_run_result]]
  by blast

end
