(* ===== verification/Session_Trace.thy ===== *)
theory Session_Trace
  imports Session_Machine
begin

text \<open>
  Runs of a session with their history: which user made which step, in which local state and on
  which event. A counter that the code only ever increments has no trace in the local states of
  the users that are left; its value is the number of steps of the history that it logs.
\<close>

inductive sys_trace ::
  "('s \<Rightarrow> 'l \<Rightarrow> 'e \<Rightarrow> ('s, 'l) step_result) \<Rightarrow> (user_context \<Rightarrow> 'l) \<Rightarrow> 's \<Rightarrow>
     (nat \<times> 'l \<times> 'e) list \<Rightarrow> 's \<times> 'l list \<Rightarrow> bool"
  for step start s0 where
  init: "sys_trace step start s0 [] (s0, [])"
| enter: "sys_trace step start s0 tr (s, ls) \<Longrightarrow> sys_trace step start s0 tr (s, ls @ [start ctx])"
| move: "sys_trace step start s0 tr (s, ls) \<Longrightarrow> i < length ls \<Longrightarrow> step s (ls ! i) e = Next s' l' \<Longrightarrow>
    sys_trace step start s0 (tr @ [(i, ls ! i, e)]) (s', ls[i := l'])"

lemma sys_trace_reach: "sys_trace step start s0 tr c \<Longrightarrow> sys_reach step start s0 c"
proof (induction rule: sys_trace.induct)
  case init
  show ?case by (rule sys_reach.init)
next
  case (enter tr s ls ctx)
  from enter.IH sys_step.enter show ?case by (rule sys_reach.more)
next
  case (move tr s ls i e s' l')
  from move.IH sys_step.move[where step = step, OF move.hyps(2,3)] show ?case by (rule sys_reach.more)
qed

text \<open>Every run has a history.\<close>

lemma sys_reach_trace: "sys_reach step start s0 (s, ls) \<Longrightarrow> \<exists>tr. sys_trace step start s0 tr (s, ls)"
proof (induction "(s, ls)" arbitrary: s ls rule: sys_reach.induct)
  case init
  show ?case by (rule exI, rule sys_trace.init)
next
  case (more c)
  obtain s1 ls1 where c: "c = (s1, ls1)" by (cases c)
  with more(2) obtain tr where tr: "sys_trace step start s0 tr (s1, ls1)" by blast
  from more(3)[unfolded c] show ?case
  proof (cases rule: sys_step.cases)
    case (enter ctx)
    with tr sys_trace.enter[of step start s0 tr s1 ls1 ctx] show ?thesis by auto
  next
    case (move i e l')
    with tr sys_trace.move[of step start s0 tr s1 ls1 i e s l'] show ?thesis by auto
  qed
qed

text \<open>How many steps of a history satisfy \<open>P\<close>.\<close>

definition happened :: "('l \<Rightarrow> 'e \<Rightarrow> bool) \<Rightarrow> (nat \<times> 'l \<times> 'e) list \<Rightarrow> int64" where
  "happened P tr = word_of_nat (length (filter (\<lambda>(i, l, e). P l e) tr))"

lemma happened_simps [simp]:
  "happened P [] = 0" "happened P (tr @ [(i, l, e)]) = happened P tr + of_bool (P l e)"
  by (simp_all add: happened_def)

text \<open>A counter to which every step adds 1 exactly when \<open>P\<close> holds of it.\<close>

lemma trace_counts:
  assumes "sys_trace step start s0 tr (s, ls)"
    and "\<And>s l e s' l'. step s l e = Next s' l' \<Longrightarrow> rd s' = rd s + of_bool (P l e)"
  shows "rd s = rd s0 + happened P tr"
  using assms(1)
proof (induction tr "(s, ls)" arbitrary: s ls rule: sys_trace.induct)
  case (move tr s ls i e s' l')
  with assms(2)[OF move.hyps(4)] show ?case by simp
qed simp_all

text \<open>The same for \<open>n\<close> counters at once.\<close>

lemma trace_counts_list:
  assumes "sys_trace step start s0 tr (s, ls)"
    and "\<And>s l e s' l'. step s l e = Next s' l' \<Longrightarrow> rd s' = map2 (+) (rd s) (map of_bool (P l e))"
    and "\<And>s. length (rd s) = n" and "\<And>l e. length (P l e) = n"
  shows "rd s = map2 (+) (rd s0) (map (\<lambda>k. happened (\<lambda>l e. P l e ! k) tr) [0..<n])"
proof (rule nth_equalityI)
  show "length (rd s) = length (map2 (+) (rd s0) (map (\<lambda>k. happened (\<lambda>l e. P l e ! k) tr) [0..<n]))"
    by (simp add: assms(3))
  fix k assume "k < length (rd s)"
  then have k: "k < n" by (simp add: assms(3))
  have "rd s ! k = rd s0 ! k + happened (\<lambda>l e. P l e ! k) tr"
    by (rule trace_counts[where rd = "\<lambda>s. rd s ! k", OF assms(1)]) (simp add: assms(2-4) k)
  with k show "rd s ! k = map2 (+) (rd s0) (map (\<lambda>k. happened (\<lambda>l e. P l e ! k) tr) [0..<n]) ! k"
    by (simp add: assms(3))
qed

text \<open>What is true of a user but was not when it started has become true in one of its steps.\<close>

lemma trace_evidence:
  assumes "sys_trace step start s0 tr (s, ls)" and "i < length ls" and "Q (ls ! i)"
    and "\<And>ctx. \<not> Q (start ctx)"
    and "\<And>s l e s' l'. step s l e = Next s' l' \<Longrightarrow> Q l' \<Longrightarrow> Q l \<or> P l e"
  shows "\<exists>l e. (i, l, e) \<in> set tr \<and> P l e"
  using assms(1-3)
proof (induction tr "(s, ls)" arbitrary: s ls rule: sys_trace.induct)
  case (enter tr s ls ctx)
  then show ?case using assms(4) by (cases "i < length ls") (auto simp: nth_append)
next
  case (move tr s ls k e s' l')
  show ?case
  proof (cases "k = i \<and> \<not> Q (ls ! i)")
    case True
    with move have "P (ls ! i) e" using assms(5)[OF move.hyps(4)] by auto
    with True show ?thesis by auto
  next
    case False
    then have "Q (ls ! i)" using move by (cases "k = i") auto
    with move show ?thesis by auto
  qed
qed simp

text \<open>The history of one user alone.\<close>

fun run_trace :: "('s \<Rightarrow> 'l \<Rightarrow> 'e \<Rightarrow> ('s, 'l) step_result) \<Rightarrow> 's \<Rightarrow> 'l \<Rightarrow> 'e list \<Rightarrow> (nat \<times> 'l \<times> 'e) list" where
  "run_trace step s l [] = []"
| "run_trace step s l (e # es) =
     (0, l, e) # (case step s l e of Next s' l' \<Rightarrow> run_trace step s' l' es | _ \<Rightarrow> [])"

lemma run_trace_more:
  assumes "sys_trace step start s0 tr (s, [l])" and "run_events step s l es = Next s' l'"
  shows "sys_trace step start s0 (tr @ run_trace step s l es) (s', [l'])"
  using assms
proof (induction es arbitrary: s l tr)
  case (Cons e es)
  then obtain s1 l1 where step: "step s l e = Next s1 l1" "run_events step s1 l1 es = Next s' l'"
    by (auto split: step_result.splits)
  have "sys_trace step start s0 (tr @ [(0, l, e)]) (s1, [l1])"
    using sys_trace.move[OF Cons.prems(1), of 0 e s1 l1] step(1) by simp
  from Cons.IH[OF this step(2)] step(1) show ?case by simp
qed simp

lemma run_events_trace:
  assumes "run_events step s0 (start ctx) es = Next s l"
  shows "sys_trace step start s0 (run_trace step s0 (start ctx) es) (s, [l])"
proof -
  have "sys_trace step start s0 [] (s0, [start ctx])"
    using sys_trace.enter[OF sys_trace.init, of step start s0 ctx] by simp
  from run_trace_more[OF this assms] show ?thesis by simp
qed

end
