(* ===== verification/SignalR_Core_Echo.thy ===== *)
theory SignalR_Core_Echo
  imports Session_Trace
begin

text \<open>
  \<^verbatim>\<open>sessions/signalr_core.go\<close> and \<^verbatim>\<open>sessions/signalr_core_echo.go\<close>. A user is
  the goroutine of \<^verbatim>\<open>Execute\<close> (\<open>e_pc\<close>) and the reader goroutine it starts
  (\<open>e_reader\<close>), with the two channels that the code only ever closes. The JSON decoder is
  the argument \<open>dec\<close> of the step function; HTTP and WebSocket calls are events.
\<close>

record signalr_core_invocation =
  InvocationId :: string
  inv_Type :: int64
  inv_Target :: string
  NonBlocking :: bool
  inv_Arguments :: "string list"

definition SignalRCoreTerminator :: char where
  "SignalRCoreTerminator = char_of (30 :: nat)"

text \<open>\<^verbatim>\<open>SerializeSignalRCoreMessage\<close>, with \<^verbatim>\<open>json.Marshal\<close> as its argument.\<close>

definition serialize_signalr_core_message :: "('a \<Rightarrow> goerror + string) \<Rightarrow> 'a \<Rightarrow> goerror + string" where
  "serialize_signalr_core_message marshal body =
     (case marshal body of Inl err \<Rightarrow> Inl err | Inr msg \<Rightarrow> Inr (msg @ [SignalRCoreTerminator]))"

record signalr_core_echo =
  e_cntInProgress :: int64
  e_cntError :: int64
  e_cntSuccess :: int64

definition echo_Name :: string where
  [simp]: "echo_Name = ''SignalRCore:Echo''"

definition echo_Setup :: "unit \<Rightarrow> params \<Rightarrow> signalr_core_echo \<Rightarrow> (signalr_core_echo \<times> goerror option) go" where
  "echo_Setup _ ps s = Return (s\<lparr>e_cntInProgress := 0, e_cntError := 0, e_cntSuccess := 0\<rparr>, None)"

definition echo_logError :: "signalr_core_echo \<Rightarrow> signalr_core_echo" where
  [session_defs]: "echo_logError s = s\<lparr>e_cntError := e_cntError s + 1\<rparr>"

datatype echo_pc =
    EStart
  | ENewRequest
  | EHandshake
  | EDecode
  | EDial string
  | ESetProtocol
  | ESendEcho
  | EWaitEcho
  | ESendClose
  | EWaitClose
  | EReturn "goerror option"
  | EDone "goerror option"

text \<open>The reader: not started, reading, or returned (having logged an error or not).\<close>

datatype echo_reader = NotStarted | Reading | Ended bool

record echo_user =
  e_ctx :: user_context
  e_pc :: echo_pc
  e_reader :: echo_reader
  e_echoReceived :: bool

datatype echo_event =
    EvGo
  | EvNewRequest string "goerror option"
  | EvDo "goerror option"
  | EvDecode "goerror + string"
  | EvDial string "goerror option"
  | EvWrite string "goerror option"
  | EvWriteClose "goerror option"
  | EvTimeout
  | EvRead "bool + string"

definition echo_start :: "user_context \<Rightarrow> echo_user" where
  "echo_start ctx = \<lparr>e_ctx = ctx, e_pc = EStart, e_reader = NotStarted, e_echoReceived = False\<rparr>"

definition echo_fail ::
  "signalr_core_echo \<Rightarrow> echo_user \<Rightarrow> goerror \<Rightarrow> (signalr_core_echo, echo_user) step_result" where
  [session_defs]: "echo_fail s l err = Next (echo_logError s) (l\<lparr>e_pc := EReturn (Some err)\<rparr>)"

definition echo_protocol_msg :: string where
  "echo_protocol_msg = [CHR 0x7B] @ [CHR 0x22] @ ''protocol'' @ [CHR 0x22] @ '':'' @ [CHR 0x22] @ ''json''
     @ [CHR 0x22] @ [CHR 0x7D] @ [SignalRCoreTerminator]"

definition quoted :: "string \<Rightarrow> string" where
  "quoted s = [CHR 0x22] @ s @ [CHR 0x22]"

definition echo_request_msg :: string where
  "echo_request_msg = [CHR 0x7B] @ quoted ''type'' @ '':1,'' @ quoted ''invocationId'' @ '':'' @ quoted ''0''
     @ '','' @ quoted ''target'' @ '':'' @ quoted ''echo'' @ '','' @ quoted ''arguments'' @ '':[''
     @ quoted ''echo-client'' @ '','' @ quoted ''foobar'' @ ''],'' @ quoted ''nonblocking'' @ '':false''
     @ [CHR 0x7D] @ [SignalRCoreTerminator]"

text \<open>The goroutine of \<^verbatim>\<open>Execute\<close>.\<close>

definition echo_main ::
  "signalr_core_echo \<Rightarrow> echo_user \<Rightarrow> echo_event \<Rightarrow> (signalr_core_echo, echo_user) step_result" where
  "echo_main s l e =
     (let host = str_get (ctx_Params (e_ctx l)) ParamHost in
      case (e_pc l, e) of
        (EStart, EvGo) \<Rightarrow>
          Next (s\<lparr>e_cntInProgress := e_cntInProgress s + 1\<rparr>) (l\<lparr>e_pc := ENewRequest\<rparr>)
      | (ENewRequest, EvNewRequest u res) \<Rightarrow>
          if u = ''http://'' @ host @ ''/chat''
          then (case res of Some err \<Rightarrow> echo_fail s l err | None \<Rightarrow> Next s (l\<lparr>e_pc := EHandshake\<rparr>))
          else Disabled
      | (EHandshake, EvDo res) \<Rightarrow>
          (case res of Some err \<Rightarrow> echo_fail s l err | None \<Rightarrow> Next s (l\<lparr>e_pc := EDecode\<rparr>))
      | (EDecode, EvDecode res) \<Rightarrow>
          (case res of Inl err \<Rightarrow> echo_fail s l err | Inr connId \<Rightarrow> Next s (l\<lparr>e_pc := EDial connId\<rparr>))
      | (EDial connId, EvDial u res) \<Rightarrow>
          if u = ''ws://'' @ host @ ''/chat?id='' @ connId
          then (case res of
                  Some err \<Rightarrow> echo_fail s l err
                | None \<Rightarrow> Next s (l\<lparr>e_pc := ESetProtocol, e_reader := Reading\<rparr>))
          else Disabled
      | (ESetProtocol, EvWrite m res) \<Rightarrow>
          if m = echo_protocol_msg
          then (case res of Some err \<Rightarrow> echo_fail s l err | None \<Rightarrow> Next s (l\<lparr>e_pc := ESendEcho\<rparr>))
          else Disabled
      | (ESendEcho, EvWrite m res) \<Rightarrow>
          if m = echo_request_msg
          then (case res of Some err \<Rightarrow> echo_fail s l err | None \<Rightarrow> Next s (l\<lparr>e_pc := EWaitEcho\<rparr>))
          else Disabled
      | (EWaitEcho, EvTimeout) \<Rightarrow> echo_fail s l ''fail to receive echo within timeout''
      | (EWaitEcho, EvGo) \<Rightarrow>
          if e_echoReceived l then Next s (l\<lparr>e_pc := ESendClose\<rparr>) else Disabled
      | (ESendClose, EvWriteClose res) \<Rightarrow>
          (case res of Some err \<Rightarrow> echo_fail s l err | None \<Rightarrow> Next s (l\<lparr>e_pc := EWaitClose\<rparr>))
      | (EWaitClose, EvTimeout) \<Rightarrow> echo_fail s l ''fail to receive close message''
      | (EWaitClose, EvGo) \<Rightarrow>
          (case e_reader l of
             Ended _ \<Rightarrow> Next (s\<lparr>e_cntSuccess := e_cntSuccess s + 1\<rparr>) (l\<lparr>e_pc := EReturn None\<rparr>)
           | _ \<Rightarrow> Disabled)
      | (EReturn r, EvGo) \<Rightarrow>
          Next (s\<lparr>e_cntInProgress := e_cntInProgress s - 1\<rparr>) (l\<lparr>e_pc := EDone r\<rparr>)
      | _ \<Rightarrow> Disabled)"

text \<open>
  The reader goroutine. A read error carries the answer of
  \<^verbatim>\<open>IsUnexpectedCloseError\<close>; its return closes \<^verbatim>\<open>doneChan\<close>.
\<close>

definition echo_read ::
  "(string \<Rightarrow> goerror + signalr_core_invocation) \<Rightarrow> signalr_core_echo \<Rightarrow> echo_user \<Rightarrow> bool + string \<Rightarrow>
     (signalr_core_echo, echo_user) step_result" where
  "echo_read dec s l r =
     (if e_reader l \<noteq> Reading then Disabled
      else case r of
        Inl unexpected \<Rightarrow>
          Next (if unexpected then echo_logError s else s) (l\<lparr>e_reader := Ended unexpected\<rparr>)
      | Inr msgWithTerm \<Rightarrow>
          if msgWithTerm = [] then Crash SliceOutOfRange
          else case dec (butlast msgWithTerm) of
            Inl err \<Rightarrow> Next (echo_logError s) (l\<lparr>e_reader := Ended True\<rparr>)
          | Inr content \<Rightarrow>
              if inv_Type content = 1 \<and> inv_Target content = ''echo''
              then if length (inv_Arguments content) < 2 then Crash IndexOutOfRange
                   else if inv_Arguments content ! 1 = ''foobar''
                   then if e_echoReceived l then Crash CloseOfClosedChannel
                        else Next s (l\<lparr>e_echoReceived := True\<rparr>)
                   else Next s l
              else Next s l)"

definition echo_step ::
  "(string \<Rightarrow> goerror + signalr_core_invocation) \<Rightarrow> signalr_core_echo \<Rightarrow> echo_user \<Rightarrow> echo_event \<Rightarrow>
     (signalr_core_echo, echo_user) step_result" where
  "echo_step dec s l e = (case e of EvRead r \<Rightarrow> echo_read dec s l r | _ \<Rightarrow> echo_main s l e)"

definition echo_result :: "echo_user \<Rightarrow> goerror option option" where
  "echo_result l = (case e_pc l of EDone r \<Rightarrow> Some r | _ \<Rightarrow> None)"

definition echo_Counters :: "signalr_core_echo \<Rightarrow> counters" where
  "echo_Counters s =
     [''signalrcore:echo:inprogress'' \<mapsto> e_cntInProgress s,
      ''signalrcore:echo:success'' \<mapsto> e_cntSuccess s,
      ''signalrcore:echo:error'' \<mapsto> e_cntError s]"

subsection \<open>Accounting\<close>

definition echo_active :: "echo_user \<Rightarrow> bool" where
  [session_defs]: "echo_active l \<longleftrightarrow> (case e_pc l of EStart \<Rightarrow> False | EDone _ \<Rightarrow> False | _ \<Rightarrow> True)"

definition echo_ok :: "echo_user \<Rightarrow> bool" where
  [session_defs]: "echo_ok l \<longleftrightarrow> e_pc l = EReturn None \<or> e_pc l = EDone None"

definition echo_errors :: "echo_user \<Rightarrow> int64" where
  [session_defs]: "echo_errors l =
     of_bool (\<exists>err. e_pc l = EReturn (Some err) \<or> e_pc l = EDone (Some err))
     + of_bool (e_reader l = Ended True)"

subsection \<open>A success has its echo\<close>

definition echo_sound :: "echo_user \<Rightarrow> bool" where
  "echo_sound l \<longleftrightarrow>
     (e_pc l \<in> {ESendClose, EWaitClose} \<or> echo_ok l \<longrightarrow> e_echoReceived l)
     \<and> (echo_ok l \<longrightarrow> (\<exists>b. e_reader l = Ended b))
     \<and> (e_pc l \<in> {EStart, ENewRequest, EHandshake, EDecode} \<or> (\<exists>i. e_pc l = EDial i) \<longrightarrow>
          e_reader l = NotStarted)"

lemma echo_main_sound: "echo_main s l e = Next s' l' \<Longrightarrow> echo_sound l \<Longrightarrow> echo_sound l'"
  by (cases "e_pc l"; cases e;
      force simp: echo_main_def Let_def echo_sound_def session_defs
        split: if_splits option.splits sum.splits echo_reader.splits)

lemma echo_read_sound: "echo_read dec s l r = Next s' l' \<Longrightarrow> echo_sound l \<Longrightarrow> echo_sound l'"
  by (force simp: echo_read_def echo_sound_def session_defs split: if_splits sum.splits)

lemma echo_step_cases:
  assumes "echo_step dec s l e = Next s' l'"
  obtains "echo_main s l e = Next s' l'" | r where "e = EvRead r" "echo_read dec s l r = Next s' l'"
  using assms by (cases e) (auto simp: echo_step_def)

interpretation echo_soundness: session_local_inv "echo_step dec" echo_start echo_sound for dec
proof
  show "echo_sound (echo_start ctx)" for ctx
    by (simp add: echo_sound_def echo_ok_def echo_start_def)
  show "echo_sound l'" if "echo_step dec s l e = Next s' l'" "echo_sound l" for s l e s' l'
    by (rule echo_step_cases[OF that(1)]) (use that(2) echo_main_sound echo_read_sound in blast)+
qed

lemma echo_main_counters:
  assumes "echo_main s l e = Next s' l'" and "echo_sound l"
  shows "e_cntInProgress s' = e_cntInProgress s + (of_bool (echo_active l') - of_bool (echo_active l))"
    "e_cntSuccess s' = e_cntSuccess s + (of_bool (echo_ok l') - of_bool (echo_ok l))"
    "e_cntError s' = e_cntError s + (echo_errors l' - echo_errors l)"
  using assms
  by (cases "e_pc l"; cases e;
      force simp: echo_main_def Let_def echo_sound_def session_defs split: if_splits option.splits sum.splits echo_reader.splits)+

lemma echo_read_counters:
  assumes "echo_read dec s l r = Next s' l'"
  shows "e_cntInProgress s' = e_cntInProgress s + (of_bool (echo_active l') - of_bool (echo_active l))"
    "e_cntSuccess s' = e_cntSuccess s + (of_bool (echo_ok l') - of_bool (echo_ok l))"
    "e_cntError s' = e_cntError s + (echo_errors l' - echo_errors l)"
  using assms
  by (force simp: echo_read_def session_defs split: if_splits sum.splits)+

lemma echo_step_counters:
  assumes "echo_step dec s l e = Next s' l'" and "echo_sound l"
  shows "e_cntInProgress s' = e_cntInProgress s + (of_bool (echo_active l') - of_bool (echo_active l))"
    "e_cntSuccess s' = e_cntSuccess s + (of_bool (echo_ok l') - of_bool (echo_ok l))"
    "e_cntError s' = e_cntError s + (echo_errors l' - echo_errors l)"
  by (rule echo_step_cases[OF assms(1)]; use assms(2) in \<open>simp only: echo_main_counters echo_read_counters\<close>)+

lemma echo_start_weights [simp]:
  "\<not> echo_active (echo_start ctx)" "\<not> echo_ok (echo_start ctx)" "echo_errors (echo_start ctx) = 0"
  by (simp_all add: session_defs echo_start_def)

interpretation echo_progress: session_gauge "echo_step dec" echo_start echo_sound e_cntInProgress
  "\<lambda>l. of_bool (echo_active l)" echo_active for dec
  by unfold_locales (simp_all add: echo_step_counters)

interpretation echo_success: session_gauge "echo_step dec" echo_start echo_sound e_cntSuccess
  "\<lambda>l. of_bool (echo_ok l)" echo_ok for dec
  by unfold_locales (simp_all add: echo_step_counters)

interpretation echo_error: session_counter "echo_step dec" echo_start echo_sound e_cntError echo_errors for dec
  by unfold_locales (simp_all add: echo_step_counters)

interpretation echo_session: session_api echo_Setup "\<lambda>s. Return (echo_Counters s)"
  by unfold_locales (auto simp: echo_Setup_def echo_Counters_def)

subsection \<open>Properties\<close>

text \<open>The answers that make up a success: the echo of the message, and the ways in which the reader ends.\<close>

definition echo_reply :: "(string \<Rightarrow> goerror + signalr_core_invocation) \<Rightarrow> echo_user \<Rightarrow> echo_event \<Rightarrow> bool" where
  "echo_reply dec l e \<longleftrightarrow>
     (\<exists>m content. e = EvRead (Inr m) \<and> dec (butlast m) = Inr content \<and> inv_Type content = 1
        \<and> inv_Target content = ''echo'' \<and> 2 \<le> length (inv_Arguments content) \<and> inv_Arguments content ! 1 = ''foobar'')"

definition echo_read_error :: "(string \<Rightarrow> goerror + signalr_core_invocation) \<Rightarrow> echo_user \<Rightarrow> echo_event \<Rightarrow> bool" where
  "echo_read_error dec l e \<longleftrightarrow> e = EvRead (Inl True) \<or> (\<exists>m err. e = EvRead (Inr m) \<and> dec (butlast m) = Inl err)"

lemma echo_step_evidence:
  assumes "echo_step dec s l e = Next s' l'"
  shows "e_echoReceived l' \<Longrightarrow> e_echoReceived l \<or> echo_reply dec l e"
    "e_reader l' = Ended False \<Longrightarrow> e_reader l = Ended False \<or> e = EvRead (Inl False)"
    "e_reader l' = Ended True \<Longrightarrow> e_reader l = Ended True \<or> echo_read_error dec l e"
proof -
  have "(e_echoReceived l' \<longrightarrow> e_echoReceived l \<or> echo_reply dec l e)
    \<and> (e_reader l' = Ended False \<longrightarrow> e_reader l = Ended False \<or> e = EvRead (Inl False))
    \<and> (e_reader l' = Ended True \<longrightarrow> e_reader l = Ended True \<or> echo_read_error dec l e)"
    using assms
  proof (rule echo_step_cases)
    assume "echo_main s l e = Next s' l'"
    then have "e_echoReceived l' = e_echoReceived l \<and> (e_reader l' = e_reader l \<or> e_reader l' = Reading)"
      by (auto simp: echo_main_def Let_def echo_fail_def
          split: echo_pc.splits echo_event.splits if_splits option.splits sum.splits echo_reader.splits)
    then show ?thesis by auto
  next
    fix r
    assume "e = EvRead r" "echo_read dec s l r = Next s' l'"
    then show ?thesis
      by (auto simp: echo_read_def echo_reply_def echo_read_error_def split: if_splits sum.splits)
  qed
  then show "e_echoReceived l' \<Longrightarrow> e_echoReceived l \<or> echo_reply dec l e"
    "e_reader l' = Ended False \<Longrightarrow> e_reader l = Ended False \<or> e = EvRead (Inl False)"
    "e_reader l' = Ended True \<Longrightarrow> e_reader l = Ended True \<or> echo_read_error dec l e"
    by blast+
qed


definition demo_echo :: signalr_core_echo where
  "demo_echo = \<lparr>e_cntInProgress = 0, e_cntError = 0, e_cntSuccess = 0\<rparr>"

definition demo_echo_ctx :: user_context where
  "demo_echo_ctx = \<lparr>UserId = ''u1'', ctx_Phase = ''p'', ctx_Params = [''host'' \<mapsto> ''h'']\<rparr>"

definition demo_echo_dec :: "string \<Rightarrow> goerror + signalr_core_invocation" where
  "demo_echo_dec m = Inr \<lparr>InvocationId = ''0'', inv_Type = 1, inv_Target = ''echo'', NonBlocking = False,
     inv_Arguments = [''echo-client'', m]\<rparr>"

definition demo_echo_run :: "echo_event list" where
  "demo_echo_run = [EvGo, EvNewRequest ''http://h/chat'' None, EvDo None, EvDecode (Inr ''7''),
     EvDial ''ws://h/chat?id=7'' None, EvWrite echo_protocol_msg None, EvWrite echo_request_msg None,
     EvRead (Inr ''foobar.''), EvGo, EvWriteClose None, EvRead (Inl False), EvGo, EvGo]"

definition demo_echo_done :: echo_user where
  "demo_echo_done = \<lparr>e_ctx = demo_echo_ctx, e_pc = EDone None, e_reader = Ended False, e_echoReceived = True\<rparr>"

lemma demo_echo_run_result:
  "run_events (echo_step demo_echo_dec) demo_echo (echo_start demo_echo_ctx) demo_echo_run =
     Next (demo_echo\<lparr>e_cntSuccess := 1\<rparr>) demo_echo_done"
  by (simp add: demo_echo_run_def echo_step_def echo_main_def echo_read_def echo_start_def
      demo_echo_def demo_echo_ctx_def demo_echo_dec_def demo_echo_done_def str_get_def ParamHost_def)


end
