(* ===== verification/SignalR_Core_Broadcast.thy ===== *)
theory SignalR_Core_Broadcast
  imports SignalR_Core_Echo Vmss
begin

text \<open>
  \<^verbatim>\<open>sessions/signalr_core_broadcast_sender.go\<close>. The local state of a user keeps the
  loop counters of the send and the receive loop, the buffer of \<^verbatim>\<open>recvChan\<close>, whose
  capacity is the number of seconds to broadcast, and the state of the reader goroutine.
  \<^verbatim>\<open>time.Now().UnixNano()\<close> comes with the events.
\<close>

definition MaxInstances :: nat where
  "MaxInstances = 256"

record signalr_core_broadcast =
  b_userIdx :: int64
  b_cntInProgress :: int64
  b_cntConnected :: int64
  b_cntError :: int64
  b_cntCloseError :: int64
  b_cntSuccess :: int64
  b_cntMessagesRecv :: int64
  b_cntMessagesSend :: int64
  b_cntLatencyLessThan100ms :: int64
  b_cntLatencyLessThan500ms :: int64
  b_cntLatencyLessThan1000ms :: int64
  b_cntLatencyMoreThan1000ms :: int64
  b_cntInstances :: "int64 list"

definition cbs_Name :: string where
  [simp]: "cbs_Name = ''SignalRCore:Broadcast:Sender''"

definition cbs_Setup :: "unit \<Rightarrow> params \<Rightarrow> signalr_core_broadcast \<Rightarrow> (signalr_core_broadcast \<times> goerror option) go" where
  "cbs_Setup _ ps s =
     Return (\<lparr>b_userIdx = 0, b_cntInProgress = 0, b_cntConnected = 0, b_cntError = 0,
       b_cntCloseError = 0, b_cntSuccess = 0, b_cntMessagesRecv = 0, b_cntMessagesSend = 0,
       b_cntLatencyLessThan100ms = 0, b_cntLatencyLessThan500ms = 0, b_cntLatencyLessThan1000ms = 0,
       b_cntLatencyMoreThan1000ms = 0, b_cntInstances = replicate MaxInstances 0\<rparr>, None)"

definition cbs_logError :: "signalr_core_broadcast \<Rightarrow> signalr_core_broadcast" where
  [session_defs]: "cbs_logError s = s\<lparr>b_cntError := b_cntError s + 1\<rparr>"

definition cbs_logLatency :: "int64 \<Rightarrow> signalr_core_broadcast \<Rightarrow> signalr_core_broadcast" where
  "cbs_logLatency latency s =
     (if latency <s 100 then s\<lparr>b_cntLatencyLessThan100ms := b_cntLatencyLessThan100ms s + 1\<rparr>
      else if latency <s 500 then s\<lparr>b_cntLatencyLessThan500ms := b_cntLatencyLessThan500ms s + 1\<rparr>
      else if latency <s 1000 then s\<lparr>b_cntLatencyLessThan1000ms := b_cntLatencyLessThan1000ms s + 1\<rparr>
      else s\<lparr>b_cntLatencyMoreThan1000ms := b_cntLatencyMoreThan1000ms s + 1\<rparr>)"

text \<open>\<^verbatim>\<open>logHostInstance\<close>: count a hit of the instance that the host name encodes.\<close>

definition cbs_logHostInstance :: "string \<Rightarrow> signalr_core_broadcast \<Rightarrow> (signalr_core_broadcast \<times> goerror option) go" where
  "cbs_logHostInstance hostName s =
     go_bind (get_vmss_instance_id hostName) (\<lambda>(i, err).
       case err of
         Some e \<Rightarrow> Return (cbs_logError s, Some (num_error_text e))
       | None \<Rightarrow>
           go_bind (go_index (b_cntInstances s) i) (\<lambda>v.
             Return (s\<lparr>b_cntInstances := (b_cntInstances s)[nat (sint i) := v + 1]\<rparr>, None)))"

datatype cbs_pc =
    BStart
  | BEntered
  | BNewRequest
  | BHandshake
  | BDecode
  | BDial string
  | BSetProtocol
  | BConnect
  | BSend
  | BSleep
  | BReceive
  | BSendClose
  | BWaitClose
  | BDisconnect "goerror option"
  | BReturn "goerror option"
  | BDone "goerror option"

datatype cbs_reader = BNotStarted | BReading | BPushing int64 | BEnded

record cbs_user =
  b_ctx :: user_context
  b_pc :: cbs_pc
  b_host :: string
  b_secs :: goint
  b_sendIdx :: goint
  b_recvIdx :: goint
  b_recvChan :: "int64 list"
  b_reader :: cbs_reader

datatype cbs_event =
    BvGo
  | BvNewRequest string "goerror option"
  | BvDo "goerror + string"
  | BvDecode "goerror + string"
  | BvDial string "goerror option"
  | BvWrite string "goerror option"
  | BvSend signalr_core_invocation int64 "goerror option"
  | BvWriteClose "goerror option"
  | BvTimeout
  | BvRead "bool + string" int64
  | BvPush

definition cbs_start :: "user_context \<Rightarrow> cbs_user" where
  "cbs_start ctx = \<lparr>b_ctx = ctx, b_pc = BStart, b_host = '''', b_secs = 0, b_sendIdx = 0,
     b_recvIdx = 0, b_recvChan = [], b_reader = BNotStarted\<rparr>"

text \<open>An error before and after the deferred decrement of \<^verbatim>\<open>cntConnected\<close> is set up.\<close>

definition cbs_fail where
  [session_defs]: "cbs_fail s l err = Next (cbs_logError s) (l\<lparr>b_pc := BReturn (Some err)\<rparr>)"

definition cbs_fail_connected where
  [session_defs]: "cbs_fail_connected s l err = Next (cbs_logError s) (l\<lparr>b_pc := BDisconnect (Some err)\<rparr>)"

definition cbs_invocation :: "user_context \<Rightarrow> int64 \<Rightarrow> signalr_core_invocation" where
  "cbs_invocation ctx now = \<lparr>InvocationId = ''0'', inv_Type = 1, inv_Target = ''send'',
     NonBlocking = False, inv_Arguments = [UserId ctx, format_int now]\<rparr>"

text \<open>The round-robin choice of the host.\<close>

definition cbs_pick_host :: "signalr_core_broadcast \<Rightarrow> params \<Rightarrow> (signalr_core_broadcast \<times> string) go" where
  "cbs_pick_host s ps =
     (let hosts = split_on CHR '','' (str_get ps ParamHost); idx = b_userIdx s + 1 in
      go_bind (go_rem idx (word_of_nat (length hosts))) (\<lambda>k.
        go_bind (go_index hosts k) (\<lambda>host. Return (s\<lparr>b_userIdx := idx\<rparr>, host))))"

text \<open>Dialling the socket up to the first message: the handshake of \<^verbatim>\<open>Execute\<close>.\<close>

definition cbs_connect ::
  "signalr_core_broadcast \<Rightarrow> cbs_user \<Rightarrow> cbs_event \<Rightarrow> (signalr_core_broadcast, cbs_user) step_result" where
  "cbs_connect s l e =
     (case (b_pc l, e) of
        (BStart, BvGo) \<Rightarrow> Next (s\<lparr>b_cntInProgress := b_cntInProgress s + 1\<rparr>) (l\<lparr>b_pc := BEntered\<rparr>)
      | (BEntered, BvGo) \<Rightarrow>
          (case cbs_pick_host s (ctx_Params (b_ctx l)) of
             Return (s', host) \<Rightarrow>
               Next s' (l\<lparr>b_pc := BNewRequest, b_host := host,
                          b_secs := broadcast_duration_secs (ctx_Params (b_ctx l))\<rparr>)
           | Panic p \<Rightarrow> Crash p
           | Fatal _ \<Rightarrow> Disabled)
      | (BNewRequest, BvNewRequest u res) \<Rightarrow>
          if u = ''http://'' @ b_host l @ ''/chat''
          then (case res of Some err \<Rightarrow> cbs_fail s l err | None \<Rightarrow> Next s (l\<lparr>b_pc := BHandshake\<rparr>))
          else Disabled
      | (BHandshake, BvDo res) \<Rightarrow>
          (case res of
             Inl err \<Rightarrow> cbs_fail s l err
           | Inr hostName \<Rightarrow>
               (case cbs_logHostInstance hostName s of
                  Return (s', Some err) \<Rightarrow> Next s' (l\<lparr>b_pc := BReturn (Some err)\<rparr>)
                | Return (s', None) \<Rightarrow> Next s' (l\<lparr>b_pc := BDecode\<rparr>)
                | Panic p \<Rightarrow> Crash p
                | Fatal _ \<Rightarrow> Disabled))
      | (BDecode, BvDecode res) \<Rightarrow>
          (case res of Inl err \<Rightarrow> cbs_fail s l err | Inr connId \<Rightarrow> Next s (l\<lparr>b_pc := BDial connId\<rparr>))
      | (BDial connId, BvDial u res) \<Rightarrow>
          if u = ''ws://'' @ b_host l @ ''/chat?id='' @ connId
          then (case res of
                  Some err \<Rightarrow> cbs_fail s l err
                | None \<Rightarrow>
                    if alloc_fits 8 (sint (b_secs l))
                    then Next s (l\<lparr>b_pc := BSetProtocol, b_reader := BReading\<rparr>)
                    else Crash MakeChanSize)
          else Disabled
      | (BSetProtocol, BvWrite m res) \<Rightarrow>
          if m = echo_protocol_msg
          then (case res of Some err \<Rightarrow> cbs_fail s l err | None \<Rightarrow> Next s (l\<lparr>b_pc := BConnect\<rparr>))
          else Disabled
      | _ \<Rightarrow> Disabled)"

text \<open>
  Sending, receiving and closing. The answer to \<open>BvSend\<close> stands for the serialization and
  the write, which the code treats alike.
\<close>

definition cbs_broadcast ::
  "signalr_core_broadcast \<Rightarrow> cbs_user \<Rightarrow> cbs_event \<Rightarrow> (signalr_core_broadcast, cbs_user) step_result" where
  "cbs_broadcast s l e =
     (case (b_pc l, e) of
        (BConnect, BvGo) \<Rightarrow> Next (s\<lparr>b_cntConnected := b_cntConnected s + 1\<rparr>) (l\<lparr>b_pc := BSend\<rparr>)
      | (BSend, BvSend msg now res) \<Rightarrow>
          if b_sendIdx l <s b_secs l \<and> msg = cbs_invocation (b_ctx l) now
          then (case res of
                  Some err \<Rightarrow> cbs_fail_connected s l err
                | None \<Rightarrow> Next (s\<lparr>b_cntMessagesSend := b_cntMessagesSend s + 1\<rparr>)
                              (l\<lparr>b_pc := BSleep, b_sendIdx := b_sendIdx l + 1\<rparr>))
          else Disabled
      | (BSleep, BvTimeout) \<Rightarrow> Next s (l\<lparr>b_pc := BSend\<rparr>)
      | (BSend, BvGo) \<Rightarrow> if b_sendIdx l <s b_secs l then Disabled else Next s (l\<lparr>b_pc := BReceive\<rparr>)
      | (BReceive, BvGo) \<Rightarrow>
          if b_recvIdx l <s b_secs l
          then (case b_recvChan l of
                  [] \<Rightarrow> Disabled
                | latency # rest \<Rightarrow>
                    Next (cbs_logLatency latency s) (l\<lparr>b_recvIdx := b_recvIdx l + 1, b_recvChan := rest\<rparr>))
          else Next s (l\<lparr>b_pc := BSendClose\<rparr>)
      | (BReceive, BvTimeout) \<Rightarrow>
          if b_recvIdx l <s b_secs l
          then cbs_fail_connected s l ''fail receive all self broadcast messages within timeout''
          else Disabled
      | (BSendClose, BvWriteClose res) \<Rightarrow>
          (case res of Some err \<Rightarrow> cbs_fail_connected s l err | None \<Rightarrow> Next s (l\<lparr>b_pc := BWaitClose\<rparr>))
      | (BWaitClose, BvTimeout) \<Rightarrow>
          Next (s\<lparr>b_cntCloseError := b_cntCloseError s + 1\<rparr>) (l\<lparr>b_pc := BDisconnect None\<rparr>)
      | (BWaitClose, BvGo) \<Rightarrow>
          if b_reader l = BEnded
          then Next (s\<lparr>b_cntSuccess := b_cntSuccess s + 1\<rparr>) (l\<lparr>b_pc := BDisconnect None\<rparr>) else Disabled
      | (BDisconnect r, BvGo) \<Rightarrow>
          Next (s\<lparr>b_cntConnected := b_cntConnected s - 1\<rparr>) (l\<lparr>b_pc := BReturn r\<rparr>)
      | (BReturn r, BvGo) \<Rightarrow>
          Next (s\<lparr>b_cntInProgress := b_cntInProgress s - 1\<rparr>) (l\<lparr>b_pc := BDone r\<rparr>)
      | _ \<Rightarrow> Disabled)"

text \<open>The reader goroutine; its send to \<^verbatim>\<open>recvChan\<close> waits while the buffer is full.\<close>

definition cbs_read ::
  "(string \<Rightarrow> goerror + signalr_core_invocation) \<Rightarrow> signalr_core_broadcast \<Rightarrow> cbs_user \<Rightarrow>
     bool + string \<Rightarrow> int64 \<Rightarrow> (signalr_core_broadcast, cbs_user) step_result" where
  "cbs_read dec s l r now =
     (if b_reader l \<noteq> BReading then Disabled
      else case r of
        Inl unexpected \<Rightarrow> Next (if unexpected then cbs_logError s else s) (l\<lparr>b_reader := BEnded\<rparr>)
      | Inr msgWithTerm \<Rightarrow>
          if msgWithTerm = [] then Crash SliceOutOfRange
          else case dec (butlast msgWithTerm) of
            Inl err \<Rightarrow> Next (cbs_logError s) (l\<lparr>b_reader := BEnded\<rparr>)
          | Inr content \<Rightarrow>
              (let s1 = s\<lparr>b_cntMessagesRecv := b_cntMessagesRecv s + 1\<rparr>; args = inv_Arguments content in
               if inv_Type content = 1 \<and> inv_Target content = ''broadcastMessage''
               then if length args < 1 then Crash IndexOutOfRange
                    else if args ! 0 \<noteq> UserId (b_ctx l) then Next s1 l
                    else if length args < 2 then Crash IndexOutOfRange
                    else (case parse_int (args ! 1) 10 of
                            (_, Some _) \<Rightarrow> Next (cbs_logError s1) l
                          | (sendStart, None) \<Rightarrow>
                              Next s1 (l\<lparr>b_reader := BPushing
                                (word_of_int (sint (now - sendStart) sdiv 1000000))\<rparr>))
               else Next s1 l))"

definition cbs_push :: "signalr_core_broadcast \<Rightarrow> cbs_user \<Rightarrow> (signalr_core_broadcast, cbs_user) step_result" where
  "cbs_push s l =
     (case b_reader l of
        BPushing latency \<Rightarrow>
          if int (length (b_recvChan l)) < sint (b_secs l)
          then Next s (l\<lparr>b_recvChan := b_recvChan l @ [latency], b_reader := BReading\<rparr>)
          else Disabled
      | _ \<Rightarrow> Disabled)"

definition cbs_step ::
  "(string \<Rightarrow> goerror + signalr_core_invocation) \<Rightarrow> signalr_core_broadcast \<Rightarrow> cbs_user \<Rightarrow> cbs_event \<Rightarrow>
     (signalr_core_broadcast, cbs_user) step_result" where
  "cbs_step dec s l e =
     (case e of
        BvRead r now \<Rightarrow> cbs_read dec s l r now
      | BvPush \<Rightarrow> cbs_push s l
      | _ \<Rightarrow>
          if b_pc l \<in> {BStart, BEntered, BNewRequest, BHandshake, BDecode, BSetProtocol} \<or>
             (case b_pc l of BDial _ \<Rightarrow> True | _ \<Rightarrow> False)
          then cbs_connect s l e else cbs_broadcast s l e)"

definition cbs_result :: "cbs_user \<Rightarrow> goerror option option" where
  "cbs_result l = (case b_pc l of BDone r \<Rightarrow> Some r | _ \<Rightarrow> None)"

definition cbs_instance_key :: "nat \<Rightarrow> string" where
  "cbs_instance_key i = ''signalrcore:broadcast:instancehit:'' @ show_int (int i)"

fun cbs_instance_counters :: "nat \<Rightarrow> int64 list \<Rightarrow> counters \<Rightarrow> counters" where
  "cbs_instance_counters i [] m = m"
| "cbs_instance_counters i (v # vs) m =
     cbs_instance_counters (Suc i) vs (if 0 <s v then m(cbs_instance_key i \<mapsto> v) else m)"

definition cbs_Counters :: "signalr_core_broadcast \<Rightarrow> counters go" where
  "cbs_Counters s =
     (let m =
       [''signalrcore:broadcast:inprogress'' \<mapsto> b_cntInProgress s,
        ''signalrcore:broadcast:connected'' \<mapsto> b_cntConnected s,
        ''signalrcore:broadcast:success'' \<mapsto> b_cntSuccess s,
        ''signalrcore:broadcast:error'' \<mapsto> b_cntError s,
        ''signalrcore:broadcast:closeerror'' \<mapsto> b_cntCloseError s,
        ''signalrcore:broadcast:messages:recv'' \<mapsto> b_cntMessagesRecv s,
        ''signalrcore:broadcast:messages:send'' \<mapsto> b_cntMessagesSend s,
        ''signalrcore:broadcast:latency:<100'' \<mapsto> b_cntLatencyLessThan100ms s,
        ''signalrcore:broadcast:latency:<500'' \<mapsto> b_cntLatencyLessThan500ms s,
        ''signalrcore:broadcast:latency:<1000'' \<mapsto> b_cntLatencyLessThan1000ms s,
        ''signalrcore:broadcast:latency:>=1000'' \<mapsto> b_cntLatencyMoreThan1000ms s]
      in if length (b_cntInstances s) < MaxInstances then Panic IndexOutOfRange
         else Return (cbs_instance_counters 0 (take MaxInstances (b_cntInstances s)) m))"

subsection \<open>Accounting\<close>

definition cbs_active :: "cbs_user \<Rightarrow> bool" where
  [session_defs]: "cbs_active l \<longleftrightarrow> (case b_pc l of BStart \<Rightarrow> False | BDone _ \<Rightarrow> False | _ \<Rightarrow> True)"

definition cbs_connected :: "cbs_user \<Rightarrow> bool" where
  [session_defs]: "cbs_connected l \<longleftrightarrow>
     (case b_pc l of BSend \<Rightarrow> True | BSleep \<Rightarrow> True | BReceive \<Rightarrow> True | BSendClose \<Rightarrow> True
      | BWaitClose \<Rightarrow> True | BDisconnect _ \<Rightarrow> True | _ \<Rightarrow> False)"

definition cbs_ok :: "cbs_user \<Rightarrow> bool" where
  [session_defs]: "cbs_ok l \<longleftrightarrow> b_pc l = BDisconnect None \<or> b_pc l = BReturn None \<or> b_pc l = BDone None"

definition cbs_latencies :: "signalr_core_broadcast \<Rightarrow> int64" where
  "cbs_latencies s = b_cntLatencyLessThan100ms s + b_cntLatencyLessThan500ms s
     + b_cntLatencyLessThan1000ms s + b_cntLatencyMoreThan1000ms s"

text \<open>
  Once the socket is open, the loop counters stay between 0 and the number of seconds; a user
  that gets to the close handshake has sent and received that many messages.
\<close>

definition cbs_fresh :: "cbs_user \<Rightarrow> bool" where
  "cbs_fresh l \<longleftrightarrow> b_sendIdx l = 0 \<and> b_recvIdx l = 0 \<and> b_reader l = BNotStarted"

definition cbs_range :: "cbs_user \<Rightarrow> bool" where
  "cbs_range l \<longleftrightarrow> 0 \<le> sint (b_sendIdx l) \<and> sint (b_sendIdx l) \<le> sint (b_secs l)
     \<and> 0 \<le> sint (b_recvIdx l) \<and> sint (b_recvIdx l) \<le> sint (b_secs l)"

definition cbs_complete :: "cbs_user \<Rightarrow> bool" where
  "cbs_complete l \<longleftrightarrow> 0 \<le> sint (b_secs l) \<and> b_sendIdx l = b_secs l \<and> b_recvIdx l = b_secs l"

definition cbs_inv :: "cbs_user \<Rightarrow> bool" where
  "cbs_inv l \<longleftrightarrow>
     (case b_pc l of
        BStart \<Rightarrow> cbs_fresh l | BEntered \<Rightarrow> cbs_fresh l | BNewRequest \<Rightarrow> cbs_fresh l
      | BHandshake \<Rightarrow> cbs_fresh l | BDecode \<Rightarrow> cbs_fresh l | BDial _ \<Rightarrow> cbs_fresh l
      | BSetProtocol \<Rightarrow> cbs_range l | BConnect \<Rightarrow> cbs_range l | BSend \<Rightarrow> cbs_range l
      | BSleep \<Rightarrow> cbs_range l | BReceive \<Rightarrow> cbs_range l \<and> b_sendIdx l = b_secs l
      | BSendClose \<Rightarrow> cbs_complete l | BWaitClose \<Rightarrow> cbs_complete l
      | BDisconnect r \<Rightarrow> (r = None \<longrightarrow> cbs_complete l)
      | BReturn r \<Rightarrow> (r = None \<longrightarrow> cbs_complete l)
      | BDone r \<Rightarrow> (r = None \<longrightarrow> cbs_complete l))"

lemma cbs_inv_frame [simp]:
  "cbs_fresh (l\<lparr>b_pc := p\<rparr>) = cbs_fresh l" "cbs_range (l\<lparr>b_pc := p\<rparr>) = cbs_range l"
  "cbs_complete (l\<lparr>b_pc := p\<rparr>) = cbs_complete l"
  "cbs_fresh (l\<lparr>b_host := h\<rparr>) = cbs_fresh l" "cbs_fresh (l\<lparr>b_secs := n\<rparr>) = cbs_fresh l"
  "cbs_range (l\<lparr>b_reader := rd\<rparr>) = cbs_range l" "cbs_complete (l\<lparr>b_reader := rd\<rparr>) = cbs_complete l"
  "cbs_range (l\<lparr>b_recvChan := q\<rparr>) = cbs_range l" "cbs_complete (l\<lparr>b_recvChan := q\<rparr>) = cbs_complete l"
  by (simp_all add: cbs_fresh_def cbs_range_def cbs_complete_def)

lemma cbs_fresh_range: "cbs_fresh l \<Longrightarrow> alloc_fits 8 (sint (b_secs l)) \<Longrightarrow> cbs_range l"
  by (simp add: cbs_fresh_def cbs_range_def alloc_fits_def)

lemma cbs_range_send:
  "cbs_range l \<Longrightarrow> b_sendIdx l <s b_secs l \<Longrightarrow> cbs_range (l\<lparr>b_pc := p, b_sendIdx := b_sendIdx l + 1\<rparr>)"
  by (simp add: cbs_range_def sint_Suc_less word_sless_alt)

lemma cbs_range_recv:
  "cbs_range l \<Longrightarrow> b_recvIdx l <s b_secs l \<Longrightarrow> cbs_range (l\<lparr>b_recvIdx := b_recvIdx l + 1, b_recvChan := q\<rparr>)"
  by (simp add: cbs_range_def sint_Suc_less word_sless_alt)

lemma cbs_range_done:
  assumes "cbs_range l"
  shows "\<not> b_sendIdx l <s b_secs l \<Longrightarrow> b_sendIdx l = b_secs l"
    "b_sendIdx l = b_secs l \<Longrightarrow> \<not> b_recvIdx l <s b_secs l \<Longrightarrow> cbs_complete l"
  using assms int64_eqI[of "b_sendIdx l" "b_secs l"] int64_eqI[of "b_recvIdx l" "b_secs l"]
  by (auto simp: cbs_range_def cbs_complete_def word_sless_alt)

lemma cbs_logLatency_frame [simp]:
  "b_cntInProgress (cbs_logLatency x s) = b_cntInProgress s"
  "b_cntConnected (cbs_logLatency x s) = b_cntConnected s"
  "b_cntSuccess (cbs_logLatency x s) = b_cntSuccess s"
  "b_cntCloseError (cbs_logLatency x s) = b_cntCloseError s"
  "b_cntMessagesSend (cbs_logLatency x s) = b_cntMessagesSend s"
  "cbs_latencies (cbs_logLatency x s) = cbs_latencies s + 1"
  by (auto simp: cbs_logLatency_def cbs_latencies_def)

lemma cbs_latencies_frame [simp]:
  "cbs_latencies (s\<lparr>b_cntInProgress := x\<rparr>) = cbs_latencies s"
  "cbs_latencies (s\<lparr>b_cntConnected := x\<rparr>) = cbs_latencies s"
  "cbs_latencies (s\<lparr>b_cntError := x\<rparr>) = cbs_latencies s"
  "cbs_latencies (s\<lparr>b_cntCloseError := x\<rparr>) = cbs_latencies s"
  "cbs_latencies (s\<lparr>b_cntSuccess := x\<rparr>) = cbs_latencies s"
  "cbs_latencies (s\<lparr>b_cntMessagesRecv := x\<rparr>) = cbs_latencies s"
  "cbs_latencies (s\<lparr>b_cntMessagesSend := x\<rparr>) = cbs_latencies s"
  "cbs_latencies (s\<lparr>b_userIdx := y\<rparr>) = cbs_latencies s"
  "cbs_latencies (s\<lparr>b_cntInstances := ys\<rparr>) = cbs_latencies s"
  by (simp_all add: cbs_latencies_def)

text \<open>What the accounting looks at; picking a host and counting an instance leave it alone.\<close>

definition cbs_view :: "signalr_core_broadcast \<Rightarrow> int64 list" where
  "cbs_view s = [b_cntInProgress s, b_cntConnected s, b_cntSuccess s + b_cntCloseError s,
     b_cntMessagesSend s, cbs_latencies s]"

definition cbs_weight :: "cbs_user \<Rightarrow> int64 list" where
  "cbs_weight l = [of_bool (cbs_active l), of_bool (cbs_connected l), of_bool (cbs_ok l),
     b_sendIdx l, b_recvIdx l]"

lemma cbs_logError_view [simp]: "cbs_view (cbs_logError s) = cbs_view s"
  by (simp add: cbs_view_def cbs_logError_def)

lemma cbs_pick_host_view: "cbs_pick_host s ps = Return (s', h) \<Longrightarrow> cbs_view s' = cbs_view s"
  by (auto simp: cbs_pick_host_def Let_def cbs_view_def)

lemma cbs_logHostInstance_view: "cbs_logHostInstance h s = Return (s', err) \<Longrightarrow> cbs_view s' = cbs_view s"
  by (auto simp: cbs_logHostInstance_def split_beta cbs_view_def cbs_logError_def split: option.splits)

lemmas cbs_acct = cbs_view_def cbs_weight_def cbs_inv_def cbs_active_def cbs_connected_def cbs_ok_def
  cbs_logError_def

lemma cbs_connect_counters:
  assumes "cbs_connect s l e = Next s' l'" and "cbs_inv l"
  shows "cbs_view s' = map2 (+) (cbs_view s) (map2 (-) (cbs_weight l') (cbs_weight l)) \<and> cbs_inv l'"
proof (cases "b_pc l")
  case BEntered
  then obtain h where "cbs_pick_host s (ctx_Params (b_ctx l)) = Return (s', h)"
    "l' = l\<lparr>b_pc := BNewRequest, b_host := h, b_secs := broadcast_duration_secs (ctx_Params (b_ctx l))\<rparr>"
    using assms(1) by (auto simp: cbs_connect_def split: go.splits cbs_event.splits)
  with BEntered assms(2) show ?thesis
    by (simp add: cbs_pick_host_view) (simp add: cbs_acct)
next
  case BHandshake
  then have "cbs_view s' = cbs_view s \<and> (\<exists>r. l' = l\<lparr>b_pc := BReturn (Some r)\<rparr> \<or> l' = l\<lparr>b_pc := BDecode\<rparr>)"
    using assms(1) by (auto simp: cbs_connect_def cbs_fail_def
        dest: cbs_logHostInstance_view split: sum.splits go.splits option.splits cbs_event.splits)
  then show ?thesis
    using BHandshake assms(2) by (elim conjE exE disjE) (simp_all add: cbs_acct)
next
  case (BDial c)
  then show ?thesis using assms cbs_fresh_range[of l]
    by (cases e; clarsimp simp: cbs_connect_def cbs_fail_def split: if_splits option.splits; simp add: cbs_acct)
qed (use assms in \<open>cases e; clarsimp simp: cbs_connect_def cbs_fail_def
  split: if_splits option.splits sum.splits; simp add: cbs_acct\<close>)+

lemma cbs_broadcast_counters:
  assumes "cbs_broadcast s l e = Next s' l'" and "cbs_inv l"
  shows "cbs_view s' = map2 (+) (cbs_view s) (map2 (-) (cbs_weight l') (cbs_weight l)) \<and> cbs_inv l'"
proof (cases "b_pc l")
  case BSend
  then show ?thesis using assms cbs_range_send[of l] cbs_range_done(1)[of l]
    by (cases e; clarsimp simp: cbs_broadcast_def cbs_fail_def cbs_fail_connected_def split: if_splits option.splits; simp add: cbs_acct)
next
  case BReceive
  then show ?thesis using assms cbs_range_recv[of l] cbs_range_done(2)[of l]
    by (cases e; clarsimp simp: cbs_broadcast_def cbs_fail_def cbs_fail_connected_def split: if_splits list.splits; simp add: cbs_acct)
qed (use assms in \<open>cases e; clarsimp simp: cbs_broadcast_def cbs_fail_def cbs_fail_connected_def
  split: if_splits option.splits; simp add: cbs_acct\<close>)+

lemma cbs_read_counters:
  assumes "cbs_read dec s l r now = Next s' l'" and "cbs_inv l"
  shows "cbs_view s' = cbs_view s \<and> cbs_weight l' = cbs_weight l \<and> cbs_inv l'"
proof -
  have "cbs_view s' = cbs_view s \<and> (\<exists>rd. l' = l\<lparr>b_reader := rd\<rparr>)" "b_reader l \<noteq> BNotStarted"
    using assms(1) by (auto simp: cbs_read_def Let_def cbs_view_def cbs_logError_def split_beta
        split: if_splits sum.splits option.splits intro: exI[of _ "b_reader l"])
  then obtain rd where l': "l' = l\<lparr>b_reader := rd\<rparr>" and v: "cbs_view s' = cbs_view s" by blast
  have "\<not> cbs_fresh l" using \<open>b_reader l \<noteq> BNotStarted\<close> by (simp add: cbs_fresh_def)
  with assms(2) v show ?thesis
    by (cases "b_pc l") (simp_all add: l' cbs_weight_def cbs_inv_def session_defs)
qed

lemma cbs_push_counters:
  assumes "cbs_push s l = Next s' l'" and "cbs_inv l"
  shows "cbs_view s' = cbs_view s \<and> cbs_weight l' = cbs_weight l \<and> cbs_inv l'"
proof -
  obtain q where l': "s' = s" "l' = l\<lparr>b_recvChan := q, b_reader := BReading\<rparr>" "b_reader l \<noteq> BNotStarted"
    using assms(1) by (auto simp: cbs_push_def split: cbs_reader.splits if_splits)
  have "\<not> cbs_fresh l" using l'(3) by (simp add: cbs_fresh_def)
  with assms(2) show ?thesis
    by (cases "b_pc l") (simp_all add: l' cbs_weight_def cbs_inv_def session_defs)
qed

lemma cbs_step_counters:
  assumes "cbs_step dec s l e = Next s' l'" and "cbs_inv l"
  shows "cbs_view s' = map2 (+) (cbs_view s) (map2 (-) (cbs_weight l') (cbs_weight l)) \<and> cbs_inv l'"
proof -
  have zero: "map2 (+) (cbs_view s) (map2 (-) (cbs_weight l) (cbs_weight l)) = cbs_view s"
    by (simp add: cbs_view_def cbs_weight_def)
  show ?thesis
    using assms cbs_connect_counters[of s l e s' l'] cbs_broadcast_counters[of s l e s' l']
      cbs_read_counters[of dec s l _ _ s' l'] cbs_push_counters[of s l s' l'] zero
    by (cases e) (auto simp: cbs_step_def split: if_splits)
qed

lemma cbs_step_fields:
  assumes "cbs_step dec s l e = Next s' l'" and "cbs_inv l"
  shows "b_cntInProgress s' = b_cntInProgress s + (of_bool (cbs_active l') - of_bool (cbs_active l))"
    "b_cntConnected s' = b_cntConnected s + (of_bool (cbs_connected l') - of_bool (cbs_connected l))"
    "b_cntSuccess s' + b_cntCloseError s' =
       b_cntSuccess s + b_cntCloseError s + (of_bool (cbs_ok l') - of_bool (cbs_ok l))"
    "b_cntMessagesSend s' = b_cntMessagesSend s + (b_sendIdx l' - b_sendIdx l)"
    "cbs_latencies s' = cbs_latencies s + (b_recvIdx l' - b_recvIdx l)"
  using cbs_step_counters[OF assms] by (simp_all add: cbs_view_def cbs_weight_def)

lemma cbs_start_facts [simp]:
  "\<not> cbs_active (cbs_start ctx)" "\<not> cbs_connected (cbs_start ctx)" "\<not> cbs_ok (cbs_start ctx)"
  "b_sendIdx (cbs_start ctx) = 0" "b_recvIdx (cbs_start ctx) = 0" "cbs_inv (cbs_start ctx)"
  by (simp_all add: session_defs cbs_start_def cbs_inv_def cbs_fresh_def)

interpretation cbs_invariant: session_local_inv "cbs_step dec" cbs_start cbs_inv for dec
  by unfold_locales (simp_all add: cbs_step_counters)

interpretation cbs_progress: session_gauge "cbs_step dec" cbs_start cbs_inv b_cntInProgress
  "\<lambda>l. of_bool (cbs_active l)" cbs_active for dec
  by unfold_locales (simp_all add: cbs_step_fields)

interpretation cbs_connection: session_gauge "cbs_step dec" cbs_start cbs_inv b_cntConnected
  "\<lambda>l. of_bool (cbs_connected l)" cbs_connected for dec
  by unfold_locales (simp_all add: cbs_step_fields)

interpretation cbs_closed: session_gauge "cbs_step dec" cbs_start cbs_inv
  "\<lambda>s. b_cntSuccess s + b_cntCloseError s" "\<lambda>l. of_bool (cbs_ok l)" cbs_ok for dec
  by unfold_locales (simp_all only: cbs_step_fields, simp_all)

interpretation cbs_sent: session_counter "cbs_step dec" cbs_start cbs_inv b_cntMessagesSend b_sendIdx for dec
  by unfold_locales (simp_all add: cbs_step_fields)

interpretation cbs_latency: session_counter "cbs_step dec" cbs_start cbs_inv cbs_latencies b_recvIdx for dec
  by unfold_locales (simp_all add: cbs_step_fields)

lemma cbs_instance_counters_zero:
  "\<forall>v\<in>set vs. v = 0 \<Longrightarrow> cbs_instance_counters i vs m = m"
  by (induction i vs m rule: cbs_instance_counters.induct) auto

interpretation cbs_session: session_api cbs_Setup cbs_Counters
  by unfold_locales
    (auto simp: cbs_Setup_def cbs_Counters_def Let_def cbs_instance_counters_zero)

subsection \<open>What is logged when\<close>

text \<open>The number of messages that the parameters ask for, and that the user works with.\<close>

definition cbs_seconds :: "cbs_user \<Rightarrow> goint" where
  "cbs_seconds l = broadcast_duration_secs (ctx_Params (b_ctx l))"

definition cbs_bound :: "cbs_user \<Rightarrow> bool" where
  "cbs_bound l \<longleftrightarrow> b_pc l \<in> {BStart, BEntered} \<or> b_secs l = cbs_seconds l"

text \<open>The answers that count as errors: every failed call, and every failure that the user finds itself.\<close>

definition cbs_read_error :: "(string \<Rightarrow> goerror + signalr_core_invocation) \<Rightarrow> cbs_user \<Rightarrow> string \<Rightarrow> bool" where
  "cbs_read_error dec l m =
     (case dec (butlast m) of
        Inl _ \<Rightarrow> True
      | Inr c \<Rightarrow> inv_Type c = 1 \<and> inv_Target c = ''broadcastMessage'' \<and> inv_Arguments c ! 0 = UserId (b_ctx l)
          \<and> snd (parse_int (inv_Arguments c ! 1) 10) \<noteq> None)"

definition cbs_error :: "(string \<Rightarrow> goerror + signalr_core_invocation) \<Rightarrow> cbs_user \<Rightarrow> cbs_event \<Rightarrow> bool" where
  "cbs_error dec l e =
     (case e of
        BvNewRequest _ res \<Rightarrow> res \<noteq> None
      | BvDo (Inl _) \<Rightarrow> True
      | BvDo (Inr hostName) \<Rightarrow> (\<exists>i err. get_vmss_instance_id hostName = Return (i, Some err))
      | BvDecode res \<Rightarrow> isl res
      | BvDial _ res \<Rightarrow> res \<noteq> None
      | BvWrite _ res \<Rightarrow> res \<noteq> None
      | BvSend _ _ res \<Rightarrow> res \<noteq> None
      | BvWriteClose res \<Rightarrow> res \<noteq> None
      | BvTimeout \<Rightarrow> b_pc l = BReceive
      | BvRead (Inl unexpected) _ \<Rightarrow> unexpected
      | BvRead (Inr m) _ \<Rightarrow> cbs_read_error dec l m
      | _ \<Rightarrow> False)"

definition cbs_message :: "(string \<Rightarrow> goerror + signalr_core_invocation) \<Rightarrow> cbs_user \<Rightarrow> cbs_event \<Rightarrow> bool" where
  "cbs_message dec l e \<longleftrightarrow> (\<exists>m now content. e = BvRead (Inr m) now \<and> dec (butlast m) = Inr content)"

text \<open>The user takes a latency of \<open>ms\<close> milliseconds out of \<^verbatim>\<open>recvChan\<close>.\<close>

definition cbs_latency_in :: "int set \<Rightarrow> cbs_user \<Rightarrow> cbs_event \<Rightarrow> bool" where
  "cbs_latency_in ms l e \<longleftrightarrow>
     b_pc l = BReceive \<and> e = BvGo \<and> b_recvIdx l <s b_secs l \<and> sint (hd (b_recvChan l)) \<in> ms"

definition cbs_hit :: "nat \<Rightarrow> cbs_user \<Rightarrow> cbs_event \<Rightarrow> bool" where
  "cbs_hit i l e \<longleftrightarrow> (\<exists>hostName k. e = BvDo (Inr hostName) \<and> get_vmss_instance_id hostName = Return (k, None) \<and> sint k = int i)"

definition cbs_logs :: "(string \<Rightarrow> goerror + signalr_core_invocation) \<Rightarrow> cbs_user \<Rightarrow> cbs_event \<Rightarrow> bool list" where
  "cbs_logs dec l e = [b_pc l = BWaitClose \<and> e = BvGo, b_pc l = BWaitClose \<and> e = BvTimeout, cbs_error dec l e, cbs_message dec l e,
     cbs_latency_in {..<100} l e, cbs_latency_in {100..<500} l e, cbs_latency_in {500..<1000} l e, cbs_latency_in {1000..} l e]"

definition cbs_logged :: "signalr_core_broadcast \<Rightarrow> int64 list" where
  "cbs_logged s = [b_cntSuccess s, b_cntCloseError s, b_cntError s, b_cntMessagesRecv s, b_cntLatencyLessThan100ms s,
     b_cntLatencyLessThan500ms s, b_cntLatencyLessThan1000ms s, b_cntLatencyMoreThan1000ms s]"

lemmas cbs_log_defs = cbs_logs_def cbs_logged_def cbs_error_def cbs_message_def cbs_latency_in_def cbs_read_error_def cbs_logError_def

lemma cbs_logHostInstance_logged:
  assumes "cbs_logHostInstance h s = Return (s', err)"
  shows "cbs_logged s' = map2 (+) (cbs_logged s) [0, 0, of_bool (err \<noteq> None), 0, 0, 0, 0, 0]"
    "err \<noteq> None \<longleftrightarrow> (\<exists>i err. get_vmss_instance_id h = Return (i, Some err))"
  using assms by (auto simp: cbs_logHostInstance_def cbs_logged_def cbs_logError_def split: option.splits)

lemma cbs_logLatency_logged:
  "cbs_logged (cbs_logLatency x s) = map2 (+) (cbs_logged s) ([0, 0, 0, 0] @
     map of_bool [sint x < 100, 100 \<le> sint x \<and> sint x < 500, 500 \<le> sint x \<and> sint x < 1000, 1000 \<le> sint x])"
  by (auto simp: cbs_logLatency_def cbs_logged_def word_sless_alt)

lemma cbs_pick_host_logged: "cbs_pick_host s ps = Return (s', h) \<Longrightarrow> cbs_logged s' = cbs_logged s"
  by (auto simp: cbs_pick_host_def Let_def cbs_logged_def)

lemma cbs_connect_logs:
  assumes "cbs_connect s l e = Next s' l'"
  shows "cbs_logged s' = map2 (+) (cbs_logged s) (map of_bool (cbs_logs dec l e))"
proof (cases "b_pc l = BHandshake \<or> b_pc l = BEntered")
  case True
  then show ?thesis
  proof
    assume "b_pc l = BHandshake"
    then obtain res where e: "e = BvDo res" and r: "(case res of Inl err \<Rightarrow> s' = cbs_logError s
        | Inr h \<Rightarrow> \<exists>err. cbs_logHostInstance h s = Return (s', err))"
      using assms by (auto simp: cbs_connect_def cbs_fail_def split: cbs_event.splits sum.splits go.splits option.splits)
    show ?thesis
    proof (cases res)
      case (Inr h)
      with r obtain err where "cbs_logHostInstance h s = Return (s', err)" by auto
      from cbs_logHostInstance_logged[OF this] show ?thesis using \<open>b_pc l = BHandshake\<close>
        by (simp add: e Inr cbs_logs_def cbs_error_def cbs_message_def cbs_latency_in_def)
    qed (use r \<open>b_pc l = BHandshake\<close> in \<open>simp add: e cbs_log_defs\<close>)
  next
    assume "b_pc l = BEntered"
    then obtain h where "e = BvGo" "cbs_pick_host s (ctx_Params (b_ctx l)) = Return (s', h)"
      using assms by (auto simp: cbs_connect_def split: cbs_event.splits go.splits)
    with \<open>b_pc l = BEntered\<close> show ?thesis
      by (simp add: cbs_pick_host_logged) (simp add: cbs_log_defs)
  qed
next
  case False
  with assms show ?thesis
    by (cases "b_pc l"; cases e; clarsimp simp: cbs_connect_def cbs_fail_def split: if_splits option.splits sum.splits;
        simp add: cbs_log_defs)
qed

lemma cbs_broadcast_logs:
  assumes "cbs_broadcast s l e = Next s' l'"
  shows "cbs_logged s' = map2 (+) (cbs_logged s) (map of_bool (cbs_logs dec l e))"
proof (cases "b_pc l = BReceive \<and> e = BvGo")
  case True
  with assms show ?thesis
    by (auto simp: cbs_broadcast_def cbs_logLatency_logged split: if_splits list.splits)
      (simp_all add: cbs_log_defs)
next
  case False
  with assms show ?thesis
    by (cases "b_pc l"; cases e; clarsimp simp: cbs_broadcast_def cbs_fail_connected_def split: if_splits option.splits sum.splits;
        simp add: cbs_log_defs)
qed

lemma cbs_read_logs:
  assumes "cbs_read dec s l r now = Next s' l'"
  shows "cbs_logged s' = map2 (+) (cbs_logged s) (map of_bool (cbs_logs dec l (BvRead r now)))"
  using assms
  by (auto simp: cbs_read_def Let_def cbs_log_defs split_beta split: if_splits sum.splits option.splits)

lemma cbs_step_logs:
  assumes "cbs_step dec s l e = Next s' l'"
  shows "cbs_logged s' = map2 (+) (cbs_logged s) (map of_bool (cbs_logs dec l e))"
proof (cases e)
  case BvPush
  with assms show ?thesis by (auto simp: cbs_step_def cbs_push_def cbs_log_defs split: cbs_reader.splits if_splits)
qed (use assms cbs_connect_logs[of s l e s' l' dec] cbs_broadcast_logs[of s l e s' l' dec] cbs_read_logs[of dec s l _ _ s' l']
  in \<open>auto simp: cbs_step_def split: if_splits\<close>)

text \<open>The hits of the instances are only counted with the answer of the handshake.\<close>

lemma cbs_logError_instances [simp]: "b_cntInstances (cbs_logError s) = b_cntInstances s"
  by (simp add: cbs_logError_def)

lemma cbs_logLatency_instances [simp]: "b_cntInstances (cbs_logLatency x s) = b_cntInstances s"
  by (simp add: cbs_logLatency_def)

lemma cbs_pick_host_instances: "cbs_pick_host s ps = Return (s', h) \<Longrightarrow> b_cntInstances s' = b_cntInstances s"
  by (auto simp: cbs_pick_host_def Let_def)

lemma cbs_logHostInstance_instances:
  assumes "cbs_logHostInstance h s = Return (s', err)"
  shows "b_cntInstances s' ! i = b_cntInstances s ! i
    + of_bool (\<exists>k. get_vmss_instance_id h = Return (k, None) \<and> sint k = int i)"
  using assms
  by (auto simp: cbs_logHostInstance_def go_index_def nth_list_update split: option.splits if_splits)

lemma cbs_connect_frame:
  assumes "cbs_connect s l e = Next s' l'"
  shows "(\<nexists>h. e = BvDo (Inr h)) \<Longrightarrow> b_cntInstances s' = b_cntInstances s" "cbs_bound l \<Longrightarrow> cbs_bound l'"
proof -
  have "((\<nexists>h. e = BvDo (Inr h)) \<longrightarrow> b_cntInstances s' = b_cntInstances s) \<and> (cbs_bound l \<longrightarrow> cbs_bound l')"
    using assms cbs_pick_host_instances[of s "ctx_Params (b_ctx l)" s']
    by (cases "b_pc l"; cases e; clarsimp simp: cbs_connect_def cbs_fail_def cbs_bound_def cbs_seconds_def
        split: if_splits option.splits sum.splits go.splits)
  then show "(\<nexists>h. e = BvDo (Inr h)) \<Longrightarrow> b_cntInstances s' = b_cntInstances s" "cbs_bound l \<Longrightarrow> cbs_bound l'" by blast+
qed

lemma cbs_broadcast_frame:
  assumes "cbs_broadcast s l e = Next s' l'"
  shows "b_cntInstances s' = b_cntInstances s" "cbs_bound l \<Longrightarrow> cbs_bound l'"
proof -
  have "b_cntInstances s' = b_cntInstances s \<and> (cbs_bound l \<longrightarrow> cbs_bound l')"
    using assms
    by (cases "b_pc l"; cases e; clarsimp simp: cbs_broadcast_def cbs_fail_connected_def cbs_bound_def cbs_seconds_def
        split: if_splits option.splits list.splits)
  then show "b_cntInstances s' = b_cntInstances s" "cbs_bound l \<Longrightarrow> cbs_bound l'" by blast+
qed

lemma cbs_reader_frame:
  assumes "cbs_read dec s l r now = Next s' l' \<or> cbs_push s l = Next s' l'"
  shows "b_cntInstances s' = b_cntInstances s" "cbs_bound l' = cbs_bound l"
  using assms
  by (auto simp: cbs_read_def cbs_push_def Let_def split_beta cbs_bound_def cbs_seconds_def
      split: if_splits option.splits sum.splits cbs_reader.splits)

lemma cbs_step_cases:
  assumes "cbs_step dec s l e = Next s' l'"
  obtains "cbs_connect s l e = Next s' l'" | "cbs_broadcast s l e = Next s' l'"
  | r now where "cbs_read dec s l r now = Next s' l' \<or> cbs_push s l = Next s' l'"
  using assms by (cases e) (auto simp: cbs_step_def split: if_splits)

lemma cbs_step_frame:
  assumes "cbs_step dec s l e = Next s' l'"
  shows "(\<nexists>h. e = BvDo (Inr h)) \<Longrightarrow> b_cntInstances s' = b_cntInstances s" "cbs_bound l \<Longrightarrow> cbs_bound l'"
  by (rule cbs_step_cases[OF assms]; simp add: cbs_connect_frame cbs_broadcast_frame cbs_reader_frame)+

lemma cbs_step_instances:
  assumes "cbs_step dec s l e = Next s' l'"
  shows "b_cntInstances s' ! i = b_cntInstances s ! i + of_bool (cbs_hit i l e)"
proof (cases "\<exists>h. e = BvDo (Inr h)")
  case True
  then obtain h where e: "e = BvDo (Inr h)" by blast
  with assms obtain err where "cbs_logHostInstance h s = Return (s', err)"
    by (cases "b_pc l") (auto simp: cbs_step_def cbs_connect_def cbs_broadcast_def split: go.splits option.splits)
  from cbs_logHostInstance_instances[OF this] e show ?thesis by (simp add: cbs_hit_def)
next
  case False
  then have "\<not> cbs_hit i l e" by (auto simp: cbs_hit_def)
  with cbs_step_frame(1)[OF assms] False show ?thesis by simp
qed

interpretation cbs_bounds: session_local_inv "cbs_step dec" cbs_start cbs_bound for dec
  by unfold_locales (simp add: cbs_bound_def cbs_start_def, rule cbs_step_frame(2))

subsection \<open>Properties\<close>

text \<open>
  C13: the broadcast session counts what it does. In every interleaving after \<^verbatim>\<open>Setup\<close>, with
  any history: \<^verbatim>\<open>inprogress\<close> and \<^verbatim>\<open>connected\<close> are the users inside \<^verbatim>\<open>Execute\<close> and those
  between the connect and the deferred disconnect; \<^verbatim>\<open>success\<close> counts the users whose reader
  ended before the timeout of the close handshake and \<^verbatim>\<open>closeerror\<close> those that ran into it, and
  together they are the users that return without an error; \<^verbatim>\<open>error\<close> counts each failed call,
  timeout of the receive loop and message that cannot be read or decoded, \<^verbatim>\<open>messages:recv\<close> the
  messages that were decoded, \<^verbatim>\<open>messages:send\<close> the messages sent, each bucket the latencies in its
  range, and \<^verbatim>\<open>instancehit\<close> the handshakes answered by that instance; and a user that returns
  without an error has sent and has logged the latency of exactly as many messages as
  \<^verbatim>\<open>broadcastDurationSecs\<close> (10 if it is missing or not a number) asks for.
\<close>

theorem cbs_complete_broadcast:
  assumes "cbs_Setup () ps s = Return (s0, None)"
    and "sys_trace (cbs_step dec) cbs_start s0 tr (s', ls)"
  shows "b_cntInProgress s' = word_of_nat (length (filter cbs_active ls))
    \<and> b_cntConnected s' = word_of_nat (length (filter cbs_connected ls))
    \<and> b_cntSuccess s' = happened (\<lambda>l e. b_pc l = BWaitClose \<and> e = BvGo) tr
    \<and> b_cntCloseError s' = happened (\<lambda>l e. b_pc l = BWaitClose \<and> e = BvTimeout) tr
    \<and> b_cntSuccess s' + b_cntCloseError s' = word_of_nat (length (filter cbs_ok ls))
    \<and> b_cntError s' = happened (cbs_error dec) tr
    \<and> b_cntMessagesRecv s' = happened (cbs_message dec) tr
    \<and> b_cntMessagesSend s' = sum_list (map b_sendIdx ls)
    \<and> b_cntLatencyLessThan100ms s' = happened (cbs_latency_in {..<100}) tr
    \<and> b_cntLatencyLessThan500ms s' = happened (cbs_latency_in {100..<500}) tr
    \<and> b_cntLatencyLessThan1000ms s' = happened (cbs_latency_in {500..<1000}) tr
    \<and> b_cntLatencyMoreThan1000ms s' = happened (cbs_latency_in {1000..}) tr
    \<and> cbs_latencies s' = sum_list (map b_recvIdx ls)
    \<and> (\<forall>i < MaxInstances. b_cntInstances s' ! i = happened (cbs_hit i) tr)
    \<and> (\<forall>l \<in> set ls. cbs_result l = Some None \<longrightarrow> b_sendIdx l = cbs_seconds l \<and> b_recvIdx l = cbs_seconds l)"
proof -
  note reach = sys_trace_reach[OF assms(2)]
  have s0: "cbs_logged s0 = replicate 8 0" "b_cntInstances s0 = replicate MaxInstances 0"
    "b_cntInProgress s0 = 0" "b_cntConnected s0 = 0" "b_cntMessagesSend s0 = 0" "cbs_latencies s0 = 0"
    using assms(1) by (auto simp: cbs_Setup_def cbs_logged_def cbs_latencies_def numeral_eq_Suc)
  have "b_sendIdx l = cbs_seconds l \<and> b_recvIdx l = cbs_seconds l" if "l \<in> set ls" "cbs_result l = Some None" for l
    using cbs_invariant.reach_inv[OF reach that(1)] cbs_bounds.reach_inv[OF reach that(1)] that(2)
    by (auto simp: cbs_inv_def cbs_result_def cbs_complete_def cbs_bound_def split: cbs_pc.splits)
  moreover have "b_cntInstances s' ! i = happened (cbs_hit i) tr" if "i < MaxInstances" for i
    using trace_counts[where rd = "\<lambda>s. b_cntInstances s ! i", OF assms(2) cbs_step_instances] that by (simp add: s0(2))
  moreover have "cbs_logged s' = map2 (+) (cbs_logged s0) (map (\<lambda>k. happened (\<lambda>l e. cbs_logs dec l e ! k) tr) [0..<8])"
    by (rule trace_counts_list[OF assms(2)]) (simp add: cbs_step_logs, simp_all add: cbs_logged_def cbs_logs_def)
  moreover have "b_cntSuccess s0 + b_cntCloseError s0 = 0" using s0(1) by (simp add: cbs_logged_def numeral_eq_Suc)
  ultimately show ?thesis
    using cbs_progress.gauge_counts[OF reach] cbs_connection.gauge_counts[OF reach] cbs_closed.gauge_counts[OF reach]
      cbs_sent.counter_is_sum[OF reach] cbs_latency.counter_is_sum[OF reach] s0(1,3-6)
    by (simp add: cbs_logged_def cbs_logs_def upt_rec numeral_eq_Suc)
qed

definition demo_cbs :: signalr_core_broadcast where
  "demo_cbs = \<lparr>b_userIdx = 0, b_cntInProgress = 0, b_cntConnected = 0, b_cntError = 0,
     b_cntCloseError = 0, b_cntSuccess = 0, b_cntMessagesRecv = 0, b_cntMessagesSend = 0,
     b_cntLatencyLessThan100ms = 0, b_cntLatencyLessThan500ms = 0, b_cntLatencyLessThan1000ms = 0,
     b_cntLatencyMoreThan1000ms = 0, b_cntInstances = replicate MaxInstances 0\<rparr>"

definition demo_cbs_ctx :: user_context where
  "demo_cbs_ctx = \<lparr>UserId = ''u1'', ctx_Phase = ''p'',
     ctx_Params = [''host'' \<mapsto> ''h'', ''broadcastDurationSecs'' \<mapsto> ''1'']\<rparr>"

definition demo_cbs_dec :: "string \<Rightarrow> goerror + signalr_core_invocation" where
  "demo_cbs_dec m = Inr \<lparr>InvocationId = ''0'', inv_Type = 1, inv_Target = ''broadcastMessage'',
     NonBlocking = False, inv_Arguments = [''u1'', m]\<rparr>"

definition demo_cbs_run :: "cbs_event list" where
  "demo_cbs_run = [BvGo, BvGo, BvNewRequest ''http://h/chat'' None, BvDo (Inr ''vm000003''),
     BvDecode (Inr ''7''), BvDial ''ws://h/chat?id=7'' None, BvWrite echo_protocol_msg None, BvGo,
     BvSend (cbs_invocation demo_cbs_ctx 5) 5 None, BvRead (Inr ''5.'') 250000005, BvPush, BvTimeout, BvGo,
     BvGo, BvGo, BvWriteClose None, BvRead (Inl False) 0, BvGo, BvGo, BvGo]"

definition demo_cbs_final :: signalr_core_broadcast where
  "demo_cbs_final = demo_cbs\<lparr>b_userIdx := 1, b_cntSuccess := 1, b_cntMessagesRecv := 1,
     b_cntMessagesSend := 1, b_cntLatencyLessThan500ms := 1,
     b_cntInstances := (replicate MaxInstances 0)[3 := 1]\<rparr>"

definition demo_cbs_done :: cbs_user where
  "demo_cbs_done = \<lparr>b_ctx = demo_cbs_ctx, b_pc = BDone None, b_host = ''h'', b_secs = 1, b_sendIdx = 1,
     b_recvIdx = 1, b_recvChan = [], b_reader = BEnded\<rparr>"

lemma demo_cbs_host: "cbs_logHostInstance ''vm000003'' s =
  (if length (b_cntInstances s) \<le> 3 then Panic IndexOutOfRange
   else Return (s\<lparr>b_cntInstances := (b_cntInstances s)[3 := b_cntInstances s ! 3 + 1]\<rparr>, None))"
  by (simp add: cbs_logHostInstance_def get_vmss_instance_id_def parse_int_def parse_uint_def digit_val_def go_index_def)

lemma demo_cbs_secs: "broadcast_duration_secs (ctx_Params demo_cbs_ctx) = 1"
  by (simp add: broadcast_duration_secs_def demo_cbs_ctx_def ParamBroadcastDurationSecs_def atoi_def parse_int_def parse_uint_def digit_val_def)

lemma demo_cbs_pick: "cbs_pick_host s (ctx_Params demo_cbs_ctx) = Return (s\<lparr>b_userIdx := b_userIdx s + 1\<rparr>, ''h'')"
  by (simp add: cbs_pick_host_def demo_cbs_ctx_def ParamHost_def str_get_def go_defs Let_def signed_modulo_int_def)

lemma demo_cbs_uid: "UserId demo_cbs_ctx = ''u1''"
  by (simp add: demo_cbs_ctx_def)

lemma demo_cbs_run_result:
  "run_events (cbs_step demo_cbs_dec) demo_cbs (cbs_start demo_cbs_ctx) demo_cbs_run =
     Next demo_cbs_final demo_cbs_done"
  by (simp add: demo_cbs_run_def cbs_step_def cbs_connect_def cbs_broadcast_def cbs_read_def cbs_push_def
      cbs_start_def demo_cbs_host demo_cbs_secs demo_cbs_pick demo_cbs_uid demo_cbs_dec_def Let_def demo_cbs_def demo_cbs_final_def
      demo_cbs_done_def MaxInstances_def cbs_logLatency_def alloc_fits_def word_sless_alt
      parse_int_def parse_uint_def digit_val_def)

lemma demo_cbs_Setup: "cbs_Setup () Map.empty (demo_cbs\<lparr>b_cntError := 4\<rparr>) = Return (demo_cbs, None)"
  by (simp add: cbs_Setup_def demo_cbs_def)

theorem cbs_complete_broadcast_witness:
  "\<exists>tr. sys_trace (cbs_step demo_cbs_dec) cbs_start demo_cbs tr (demo_cbs_final, [demo_cbs_done])
    \<and> happened (\<lambda>l e. b_pc l = BWaitClose \<and> e = BvGo) tr = 1 \<and> happened (cbs_latency_in {100..<500}) tr = 1
    \<and> happened (cbs_hit 3) tr = 1 \<and> b_sendIdx demo_cbs_done = cbs_seconds demo_cbs_done"
proof -
  note tr = run_events_trace[where start = cbs_start, OF demo_cbs_run_result]
  have "b_cntSuccess demo_cbs_final = 1" "b_cntLatencyLessThan500ms demo_cbs_final = 1" "b_cntInstances demo_cbs_final ! 3 = 1"
    "cbs_result demo_cbs_done = Some None" "3 < MaxInstances"
    by (simp_all add: demo_cbs_final_def demo_cbs_done_def cbs_result_def MaxInstances_def)
  with cbs_complete_broadcast[OF demo_cbs_Setup tr] tr show ?thesis by fastforce
qed

end
