(* ===== verification/Broadcast_Loops.thy ===== *)
theory Broadcast_Loops
  imports Session_Machine
begin

text \<open>
  What the broadcasting sessions share: they run a send loop and then a receive loop over the
  same bound.
\<close>

text \<open>The counters of both loops stay between 0 and the bound.\<close>

definition loops_in :: "goint \<Rightarrow> goint \<Rightarrow> goint \<Rightarrow> bool" where
  "loops_in i j n \<longleftrightarrow> 0 \<le> sint i \<and> sint i \<le> sint n \<and> 0 \<le> sint j \<and> sint j \<le> sint n"

lemma loops_start: "alloc_fits k (sint n) \<Longrightarrow> loops_in 0 0 n"
  by (simp add: loops_in_def alloc_fits_def)

lemma loops_send: "loops_in i j n \<Longrightarrow> i <s n \<Longrightarrow> loops_in (i + 1) j n"
  by (simp add: loops_in_def sint_Suc_less word_sless_alt)

lemma loops_recv: "loops_in i j n \<Longrightarrow> j <s n \<Longrightarrow> loops_in i (j + 1) n"
  by (simp add: loops_in_def sint_Suc_less word_sless_alt)

lemma loops_sent: "loops_in i j n \<Longrightarrow> \<not> i <s n \<Longrightarrow> i = n"
  using int64_eqI[of i n] by (auto simp: loops_in_def word_sless_alt)

lemma loops_received: "loops_in i j n \<Longrightarrow> \<not> j <s n \<Longrightarrow> j = n"
  using int64_eqI[of j n] by (auto simp: loops_in_def word_sless_alt)

text \<open>
  A broadcast session as its clients see it: \<open>sent\<close> and \<open>logged\<close> are the counters of the
  messages sent and of the latencies logged, \<open>sendIdx\<close>, \<open>recvIdx\<close> and \<open>bound\<close>
  the loop variables of a user.
\<close>

locale session_broadcast = session_local_inv step start inv
  for step :: "'s \<Rightarrow> 'l \<Rightarrow> 'e \<Rightarrow> ('s, 'l) step_result"
    and start :: "user_context \<Rightarrow> 'l"
    and inv :: "'l \<Rightarrow> bool" +
  fixes sent logged :: "'s \<Rightarrow> int64"
    and sendIdx recvIdx bound :: "'l \<Rightarrow> goint"
    and result :: "'l \<Rightarrow> goerror option option"
  assumes start_loops: "sendIdx (start ctx) = 0" "recvIdx (start ctx) = 0"
    and step_sent: "step s l e = Next s' l' \<Longrightarrow> inv l \<Longrightarrow> sent s' = sent s + (sendIdx l' - sendIdx l)"
    and step_logged: "step s l e = Next s' l' \<Longrightarrow> inv l \<Longrightarrow> logged s' = logged s + (recvIdx l' - recvIdx l)"
    and inv_complete: "inv l \<Longrightarrow> result l = Some None \<Longrightarrow> sendIdx l = bound l \<and> recvIdx l = bound l"

sublocale session_broadcast \<subseteq> sent: session_counter step start inv sent sendIdx
  by unfold_locales (simp_all add: start_loops step_sent)

sublocale session_broadcast \<subseteq> logged: session_counter step start inv logged recvIdx
  by unfold_locales (simp_all add: start_loops step_logged)

context session_broadcast
begin

lemma broadcast_complete:
  assumes "sys_reach step start s0 (s, ls)"
  shows "sent s = sent s0 + sum_list (map sendIdx ls)"
    "logged s = logged s0 + sum_list (map recvIdx ls)"
    "l \<in> set ls \<Longrightarrow> result l = Some None \<Longrightarrow> sendIdx l = bound l \<and> recvIdx l = bound l"
  using sent.counter_is_sum[OF assms] logged.counter_is_sum[OF assms] inv_complete reach_inv[OF assms]
  by blast+

end

end
