(* ===== verification/SignalR_Fx_Broadcast.thy ===== *)
theory SignalR_Fx_Broadcast
  imports Broadcast_Loops Session_Trace Go_Url
begin

text \<open>
  \<^verbatim>\<open>sessions/signalr_fx.go\<close> and \<^verbatim>\<open>sessions/signalr_fx_broadcast_sender.go\<close>.
  The reader goroutine works through the frames of a message one at a time; between two frames
  it may wait for room in \<^verbatim>\<open>recvChan\<close>. \<^verbatim>\<open>connectChan\<close> is only ever closed,
  and a second close panics. The JSON decoder is the argument \<open>dec\<close>; of the handshake
  responses the code uses the connection token and the text of the start response.
\<close>

record fx_frame =
  fr_Hub :: string
  fr_Method :: string
  fr_Arguments :: "string list"

record fx_server_message =
  sm_C :: string
  sm_S :: goint
  sm_Id :: string
  sm_Frames :: "fx_frame list"

record fx_client_message =
  cm_Hub :: string
  cm_Method :: string
  cm_Arguments :: "string list"
  cm_Id :: goint

record signalr_fx_broadcast =
  f_cntInProgress :: int64
  f_cntConnected :: int64
  f_cntError :: int64
  f_cntCloseError :: int64
  f_cntSuccess :: int64
  f_cntMessagesRecv :: int64
  f_cntMessagesSend :: int64
  f_cntMessagesSendAck :: int64
  f_cntLatencyLessThan100ms :: int64
  f_cntLatencyLessThan500ms :: int64
  f_cntLatencyLessThan1000ms :: int64
  f_cntLatencyMoreThan1000ms :: int64

definition fx_Name :: string where
  [simp]: "fx_Name = ''SignalRFx:Broadcast:Sender''"

definition fx_Setup :: "unit \<Rightarrow> params \<Rightarrow> signalr_fx_broadcast \<Rightarrow> (signalr_fx_broadcast \<times> goerror option) go" where
  "fx_Setup _ ps s =
     Return (\<lparr>f_cntInProgress = 0, f_cntConnected = 0, f_cntError = 0, f_cntCloseError = 0,
       f_cntSuccess = 0, f_cntMessagesRecv = 0, f_cntMessagesSend = 0, f_cntMessagesSendAck = 0,
       f_cntLatencyLessThan100ms = 0, f_cntLatencyLessThan500ms = 0, f_cntLatencyLessThan1000ms = 0,
       f_cntLatencyMoreThan1000ms = 0\<rparr>, None)"

definition fx_logError :: "signalr_fx_broadcast \<Rightarrow> signalr_fx_broadcast" where
  [session_defs]: "fx_logError s = s\<lparr>f_cntError := f_cntError s + 1\<rparr>"

definition fx_logLatency :: "int64 \<Rightarrow> signalr_fx_broadcast \<Rightarrow> signalr_fx_broadcast" where
  "fx_logLatency latency s =
     (if latency <s 100 then s\<lparr>f_cntLatencyLessThan100ms := f_cntLatencyLessThan100ms s + 1\<rparr>
      else if latency <s 500 then s\<lparr>f_cntLatencyLessThan500ms := f_cntLatencyLessThan500ms s + 1\<rparr>
      else if latency <s 1000 then s\<lparr>f_cntLatencyLessThan1000ms := f_cntLatencyLessThan1000ms s + 1\<rparr>
      else s\<lparr>f_cntLatencyMoreThan1000ms := f_cntLatencyMoreThan1000ms s + 1\<rparr>)"

subsection \<open>The URLs of the three handshake phases\<close>

definition fx_connection_data :: string where
  "fx_connection_data = ''&connectionData=%5B%7B%22name%22%3A%22chat%22%7D%5D''"

definition fx_negotiate_url :: "string \<Rightarrow> string" where
  "fx_negotiate_url host = ''http://'' @ host @ ''/signalr/negotiate?clientProtocol=1.4'' @ fx_connection_data"

definition fx_connect_url :: "string \<Rightarrow> string \<Rightarrow> string" where
  "fx_connect_url host token =
     ''ws://'' @ host @ ''/signalr/connect?transport=webSockets&clientProtocol=1.4&connectionToken=''
     @ query_escape token @ fx_connection_data @ ''&tid=0''"

definition fx_start_url :: "string \<Rightarrow> string \<Rightarrow> string" where
  "fx_start_url host token =
     ''http://'' @ host @ ''/signalr/start?transport=webSockets&clientProtocol=1.4&connectionToken=''
     @ query_escape token @ fx_connection_data @ ''&tid=0''"

subsection \<open>Execute\<close>

datatype fx_pc =
    FStart
  | FNegotiate
  | FHandshake
  | FDecode
  | FDial string
  | FWaitInit string
  | FStartReq string
  | FStartDo
  | FStartDecode
  | FConnect
  | FSend
  | FSleep
  | FReceive
  | FSendClose
  | FWaitClose
  | FDisconnect "goerror option"
  | FReturn "goerror option"
  | FDone "goerror option"

datatype fx_reader =
    FNotStarted
  | FReading
  | FFrames "fx_frame list"
  | FPushing int64 "fx_frame list"
  | FEnded

record fx_user =
  f_ctx :: user_context
  f_pc :: fx_pc
  f_secs :: goint
  f_sendIdx :: goint
  f_recvIdx :: goint
  f_inited :: bool
  f_recvChan :: "int64 list"
  f_reader :: fx_reader

datatype fx_event =
    FvGo
  | FvNewRequest string "goerror option"
  | FvDo "goerror option"
  | FvDecode "goerror + string"
  | FvDial string "goerror option"
  | FvSend fx_client_message int64 "goerror option"
  | FvWriteClose "goerror option"
  | FvTimeout
  | FvRead "bool + string"
  | FvFrame int64

definition fx_start :: "user_context \<Rightarrow> fx_user" where
  "fx_start ctx = \<lparr>f_ctx = ctx, f_pc = FStart, f_secs = broadcast_duration_secs (ctx_Params ctx), f_sendIdx = 0,
     f_recvIdx = 0, f_inited = False, f_recvChan = [], f_reader = FNotStarted\<rparr>"

definition fx_fail where
  [session_defs]: "fx_fail s l err = Next (fx_logError s) (l\<lparr>f_pc := FReturn (Some err)\<rparr>)"

definition fx_fail_connected where
  [session_defs]: "fx_fail_connected s l err = Next (fx_logError s) (l\<lparr>f_pc := FDisconnect (Some err)\<rparr>)"

definition fx_message :: "user_context \<Rightarrow> goint \<Rightarrow> int64 \<Rightarrow> fx_client_message" where
  "fx_message ctx i now = \<lparr>cm_Hub = ''chat'', cm_Method = ''Send'', cm_Arguments = [UserId ctx, format_int now],
     cm_Id = i\<rparr>"

text \<open>The three phases of the handshake, up to the first message.\<close>

definition fx_connect ::
  "signalr_fx_broadcast \<Rightarrow> fx_user \<Rightarrow> fx_event \<Rightarrow> (signalr_fx_broadcast, fx_user) step_result" where
  "fx_connect s l e =
     (let host = str_get (ctx_Params (f_ctx l)) ParamHost in
      case (f_pc l, e) of
        (FStart, FvGo) \<Rightarrow> Next (s\<lparr>f_cntInProgress := f_cntInProgress s + 1\<rparr>) (l\<lparr>f_pc := FNegotiate\<rparr>)
      | (FNegotiate, FvNewRequest u res) \<Rightarrow>
          if u = fx_negotiate_url host
          then (case res of Some err \<Rightarrow> fx_fail s l err | None \<Rightarrow> Next s (l\<lparr>f_pc := FHandshake\<rparr>))
          else Disabled
      | (FHandshake, FvDo res) \<Rightarrow>
          (case res of Some err \<Rightarrow> fx_fail s l err | None \<Rightarrow> Next s (l\<lparr>f_pc := FDecode\<rparr>))
      | (FDecode, FvDecode res) \<Rightarrow>
          (case res of Inl err \<Rightarrow> fx_fail s l err | Inr token \<Rightarrow> Next s (l\<lparr>f_pc := FDial token\<rparr>))
      | (FDial token, FvDial u res) \<Rightarrow>
          if u = fx_connect_url host token
          then (case res of
                  Some err \<Rightarrow> fx_fail s l err
                | None \<Rightarrow>
                    if alloc_fits 8 (sint (f_secs l))
                    then Next s (l\<lparr>f_pc := FWaitInit token, f_reader := FReading\<rparr>)
                    else Crash MakeChanSize)
          else Disabled
      | (FWaitInit token, FvGo) \<Rightarrow> if f_inited l then Next s (l\<lparr>f_pc := FStartReq token\<rparr>) else Disabled
      | (FWaitInit token, FvTimeout) \<Rightarrow> fx_fail s l ''no init message''
      | (FStartReq token, FvNewRequest u res) \<Rightarrow>
          if u = fx_start_url host token
          then (case res of Some err \<Rightarrow> fx_fail s l err | None \<Rightarrow> Next s (l\<lparr>f_pc := FStartDo\<rparr>))
          else Disabled
      | (FStartDo, FvDo res) \<Rightarrow>
          (case res of Some err \<Rightarrow> fx_fail s l err | None \<Rightarrow> Next s (l\<lparr>f_pc := FStartDecode\<rparr>))
      | (FStartDecode, FvDecode res) \<Rightarrow>
          (case res of
             Inl err \<Rightarrow> fx_fail s l err
           | Inr response \<Rightarrow> if response \<noteq> ''started'' then fx_fail s l response else Next s (l\<lparr>f_pc := FConnect\<rparr>))
      | _ \<Rightarrow> Disabled)"

text \<open>Sending, receiving and closing.\<close>

definition fx_broadcast ::
  "signalr_fx_broadcast \<Rightarrow> fx_user \<Rightarrow> fx_event \<Rightarrow> (signalr_fx_broadcast, fx_user) step_result" where
  "fx_broadcast s l e =
     (case (f_pc l, e) of
        (FConnect, FvGo) \<Rightarrow> Next (s\<lparr>f_cntConnected := f_cntConnected s + 1\<rparr>) (l\<lparr>f_pc := FSend\<rparr>)
      | (FSend, FvSend msg now res) \<Rightarrow>
          if f_sendIdx l <s f_secs l \<and> msg = fx_message (f_ctx l) (f_sendIdx l) now
          then (case res of
                  Some err \<Rightarrow> fx_fail_connected s l err
                | None \<Rightarrow> Next (s\<lparr>f_cntMessagesSend := f_cntMessagesSend s + 1\<rparr>)
                              (l\<lparr>f_pc := FSleep, f_sendIdx := f_sendIdx l + 1\<rparr>))
          else Disabled
      | (FSleep, FvTimeout) \<Rightarrow> Next s (l\<lparr>f_pc := FSend\<rparr>)
      | (FSend, FvGo) \<Rightarrow> if f_sendIdx l <s f_secs l then Disabled else Next s (l\<lparr>f_pc := FReceive\<rparr>)
      | (FReceive, FvGo) \<Rightarrow>
          if f_recvIdx l <s f_secs l
          then (case f_recvChan l of
                  [] \<Rightarrow> Disabled
                | latency # rest \<Rightarrow>
                    Next (fx_logLatency latency s) (l\<lparr>f_recvIdx := f_recvIdx l + 1, f_recvChan := rest\<rparr>))
          else Next s (l\<lparr>f_pc := FSendClose\<rparr>)
      | (FReceive, FvTimeout) \<Rightarrow>
          if f_recvIdx l <s f_secs l
          then fx_fail_connected s l ''fail receive all self broadcast messages within timeout''
          else Disabled
      | (FSendClose, FvWriteClose res) \<Rightarrow>
          (case res of Some err \<Rightarrow> fx_fail_connected s l err | None \<Rightarrow> Next s (l\<lparr>f_pc := FWaitClose\<rparr>))
      | (FWaitClose, FvTimeout) \<Rightarrow>
          Next (s\<lparr>f_cntCloseError := f_cntCloseError s + 1\<rparr>) (l\<lparr>f_pc := FDisconnect None\<rparr>)
      | (FWaitClose, FvGo) \<Rightarrow>
          if f_reader l = FEnded
          then Next (s\<lparr>f_cntSuccess := f_cntSuccess s + 1\<rparr>) (l\<lparr>f_pc := FDisconnect None\<rparr>) else Disabled
      | (FDisconnect r, FvGo) \<Rightarrow>
          Next (s\<lparr>f_cntConnected := f_cntConnected s - 1\<rparr>) (l\<lparr>f_pc := FReturn r\<rparr>)
      | (FReturn r, FvGo) \<Rightarrow>
          Next (s\<lparr>f_cntInProgress := f_cntInProgress s - 1\<rparr>) (l\<lparr>f_pc := FDone r\<rparr>)
      | _ \<Rightarrow> Disabled)"

text \<open>The reader goroutine: one message, then one step per frame.\<close>

definition fx_read ::
  "(string \<Rightarrow> goerror + fx_server_message) \<Rightarrow> signalr_fx_broadcast \<Rightarrow> fx_user \<Rightarrow> bool + string \<Rightarrow>
     (signalr_fx_broadcast, fx_user) step_result" where
  "fx_read dec s l r =
     (if f_reader l \<noteq> FReading then Disabled
      else case r of
        Inl unexpected \<Rightarrow> Next (if unexpected then fx_logError s else s) (l\<lparr>f_reader := FEnded\<rparr>)
      | Inr msg \<Rightarrow>
          (case dec msg of
             Inl err \<Rightarrow> Next (fx_logError s) (l\<lparr>f_reader := FEnded\<rparr>)
           | Inr content \<Rightarrow>
               (let s1 = s\<lparr>f_cntMessagesRecv := f_cntMessagesRecv s + 1\<rparr> in
                if sm_S content = 1
                then (if f_inited l then Crash CloseOfClosedChannel else Next s1 (l\<lparr>f_inited := True\<rparr>))
                else if sm_Id content \<noteq> ''''
                then Next (s1\<lparr>f_cntMessagesSendAck := f_cntMessagesSendAck s1 + 1\<rparr>) l
                else Next s1 (l\<lparr>f_reader := FFrames (sm_Frames content)\<rparr>))))"

definition fx_frame_step ::
  "signalr_fx_broadcast \<Rightarrow> fx_user \<Rightarrow> int64 \<Rightarrow> (signalr_fx_broadcast, fx_user) step_result" where
  "fx_frame_step s l now =
     (case f_reader l of
        FFrames [] \<Rightarrow> Next s (l\<lparr>f_reader := FReading\<rparr>)
      | FFrames (frame # rest) \<Rightarrow>
          (let args = fr_Arguments frame in
           if fr_Hub frame = ''Chat'' \<and> fr_Method frame = ''send''
           then if length args < 1 then Crash IndexOutOfRange
                else if args ! 0 \<noteq> UserId (f_ctx l) then Next s (l\<lparr>f_reader := FFrames rest\<rparr>)
                else if length args < 2 then Crash IndexOutOfRange
                else (case parse_int (args ! 1) 10 of
                        (_, Some _) \<Rightarrow> Next (fx_logError s) (l\<lparr>f_reader := FFrames rest\<rparr>)
                      | (sendStart, None) \<Rightarrow>
                          Next s (l\<lparr>f_reader := FPushing
                            (word_of_int (sint (now - sendStart) sdiv 1000000)) rest\<rparr>))
           else Next s (l\<lparr>f_reader := FFrames rest\<rparr>))
      | FPushing latency rest \<Rightarrow>
          if int (length (f_recvChan l)) < sint (f_secs l)
          then Next s (l\<lparr>f_recvChan := f_recvChan l @ [latency], f_reader := FFrames rest\<rparr>)
          else Disabled
      | _ \<Rightarrow> Disabled)"

definition fx_handshaking :: "fx_pc \<Rightarrow> bool" where
  "fx_handshaking pc \<longleftrightarrow>
     (case pc of FStart \<Rightarrow> True | FNegotiate \<Rightarrow> True | FHandshake \<Rightarrow> True | FDecode \<Rightarrow> True | FDial _ \<Rightarrow> True
      | FWaitInit _ \<Rightarrow> True | FStartReq _ \<Rightarrow> True | FStartDo \<Rightarrow> True | FStartDecode \<Rightarrow> True | _ \<Rightarrow> False)"

definition fx_step ::
  "(string \<Rightarrow> goerror + fx_server_message) \<Rightarrow> signalr_fx_broadcast \<Rightarrow> fx_user \<Rightarrow> fx_event \<Rightarrow>
     (signalr_fx_broadcast, fx_user) step_result" where
  "fx_step dec s l e =
     (case e of
        FvRead r \<Rightarrow> fx_read dec s l r
      | FvFrame now \<Rightarrow> fx_frame_step s l now
      | _ \<Rightarrow> if fx_handshaking (f_pc l) then fx_connect s l e else fx_broadcast s l e)"

definition fx_result :: "fx_user \<Rightarrow> goerror option option" where
  "fx_result l = (case f_pc l of FDone r \<Rightarrow> Some r | _ \<Rightarrow> None)"

definition fx_Counters :: "signalr_fx_broadcast \<Rightarrow> counters" where
  "fx_Counters s =
     [''signalrfx:broadcast:inprogress'' \<mapsto> f_cntInProgress s,
      ''signalrfx:broadcast:connected'' \<mapsto> f_cntConnected s,
      ''signalrfx:broadcast:success'' \<mapsto> f_cntSuccess s,
      ''signalrfx:broadcast:error'' \<mapsto> f_cntError s,
      ''signalrfx:broadcast:closeerror'' \<mapsto> f_cntCloseError s,
      ''signalrfx:broadcast:messages:recv'' \<mapsto> f_cntMessagesRecv s,
      ''signalrfx:broadcast:messages:send'' \<mapsto> f_cntMessagesSend s,
      ''signalrfx:broadcast:messages:sendack'' \<mapsto> f_cntMessagesSendAck s,
      ''signalrfx:broadcast:latency:<100'' \<mapsto> f_cntLatencyLessThan100ms s,
      ''signalrfx:broadcast:latency:<500'' \<mapsto> f_cntLatencyLessThan500ms s,
      ''signalrfx:broadcast:latency:<1000'' \<mapsto> f_cntLatencyLessThan1000ms s,
      ''signalrfx:broadcast:latency:>=1000'' \<mapsto> f_cntLatencyMoreThan1000ms s]"

subsection \<open>Accounting\<close>

definition fx_active :: "fx_user \<Rightarrow> bool" where
  [session_defs]: "fx_active l \<longleftrightarrow> (case f_pc l of FStart \<Rightarrow> False | FDone _ \<Rightarrow> False | _ \<Rightarrow> True)"

definition fx_connected :: "fx_user \<Rightarrow> bool" where
  [session_defs]: "fx_connected l \<longleftrightarrow>
     (case f_pc l of FSend \<Rightarrow> True | FSleep \<Rightarrow> True | FReceive \<Rightarrow> True | FSendClose \<Rightarrow> True
      | FWaitClose \<Rightarrow> True | FDisconnect _ \<Rightarrow> True | _ \<Rightarrow> False)"

definition fx_ok :: "fx_user \<Rightarrow> bool" where
  [session_defs]: "fx_ok l \<longleftrightarrow>
     (case f_pc l of FDisconnect r \<Rightarrow> r = None | FReturn r \<Rightarrow> r = None | FDone r \<Rightarrow> r = None | _ \<Rightarrow> False)"

definition fx_latencies :: "signalr_fx_broadcast \<Rightarrow> int64" where
  "fx_latencies s = f_cntLatencyLessThan100ms s + f_cntLatencyLessThan500ms s
     + f_cntLatencyLessThan1000ms s + f_cntLatencyMoreThan1000ms s"

text \<open>What a user has sent and received at each point of \<^verbatim>\<open>Execute\<close>.\<close>

definition fx_inv :: "fx_user \<Rightarrow> bool" where
  "fx_inv l \<longleftrightarrow>
     (case f_pc l of
        FSend \<Rightarrow> loops_in (f_sendIdx l) (f_recvIdx l) (f_secs l)
      | FSleep \<Rightarrow> loops_in (f_sendIdx l) (f_recvIdx l) (f_secs l)
      | FReceive \<Rightarrow> loops_in (f_sendIdx l) (f_recvIdx l) (f_secs l) \<and> f_sendIdx l = f_secs l
      | FSendClose \<Rightarrow> f_sendIdx l = f_secs l \<and> f_recvIdx l = f_secs l
      | FWaitClose \<Rightarrow> f_sendIdx l = f_secs l \<and> f_recvIdx l = f_secs l
      | FDisconnect r \<Rightarrow> (r = None \<longrightarrow> f_sendIdx l = f_secs l \<and> f_recvIdx l = f_secs l)
      | FReturn r \<Rightarrow> (r = None \<longrightarrow> f_sendIdx l = f_secs l \<and> f_recvIdx l = f_secs l)
      | FDone r \<Rightarrow> (r = None \<longrightarrow> f_sendIdx l = f_secs l \<and> f_recvIdx l = f_secs l)
      | FWaitInit _ \<Rightarrow> loops_in (f_sendIdx l) (f_recvIdx l) (f_secs l)
      | FStartReq _ \<Rightarrow> loops_in (f_sendIdx l) (f_recvIdx l) (f_secs l)
      | FStartDo \<Rightarrow> loops_in (f_sendIdx l) (f_recvIdx l) (f_secs l)
      | FStartDecode \<Rightarrow> loops_in (f_sendIdx l) (f_recvIdx l) (f_secs l)
      | FConnect \<Rightarrow> loops_in (f_sendIdx l) (f_recvIdx l) (f_secs l)
      | _ \<Rightarrow> f_sendIdx l = 0 \<and> f_recvIdx l = 0)"

definition fx_view :: "signalr_fx_broadcast \<Rightarrow> int64 list" where
  "fx_view s = [f_cntInProgress s, f_cntConnected s, f_cntSuccess s + f_cntCloseError s, f_cntMessagesSend s,
     fx_latencies s]"

definition fx_weight :: "fx_user \<Rightarrow> int64 list" where
  "fx_weight l = [of_bool (fx_active l), of_bool (fx_connected l), of_bool (fx_ok l), f_sendIdx l, f_recvIdx l]"

lemma fx_logLatency_view:
  "fx_view (fx_logLatency x s) =
     [f_cntInProgress s, f_cntConnected s, f_cntSuccess s + f_cntCloseError s, f_cntMessagesSend s, fx_latencies s + 1]"
  by (auto simp: fx_view_def fx_logLatency_def fx_latencies_def)

lemma fx_latencies_frame [simp]:
  "fx_latencies (s\<lparr>f_cntInProgress := x\<rparr>) = fx_latencies s"
  "fx_latencies (s\<lparr>f_cntConnected := x\<rparr>) = fx_latencies s"
  "fx_latencies (s\<lparr>f_cntError := x\<rparr>) = fx_latencies s"
  "fx_latencies (s\<lparr>f_cntCloseError := x\<rparr>) = fx_latencies s"
  "fx_latencies (s\<lparr>f_cntSuccess := x\<rparr>) = fx_latencies s"
  "fx_latencies (s\<lparr>f_cntMessagesRecv := x\<rparr>) = fx_latencies s"
  "fx_latencies (s\<lparr>f_cntMessagesRecv := x, f_cntMessagesSendAck := y\<rparr>) = fx_latencies s"
  "fx_latencies (s\<lparr>f_cntMessagesSend := x\<rparr>) = fx_latencies s"
  by (simp_all add: fx_latencies_def)

lemmas fx_acct = fx_view_def fx_weight_def fx_inv_def fx_logError_def fx_active_def fx_connected_def fx_ok_def

lemma fx_connect_counters:
  assumes "fx_connect s l e = Next s' l'" and "fx_inv l"
  shows "fx_view s' = map2 (+) (fx_view s) (map2 (-) (fx_weight l') (fx_weight l)) \<and> fx_inv l'"
proof (cases "f_pc l")
  case (FDial t)
  then show ?thesis using assms loops_start[of 8 "f_secs l"]
    by (cases e; clarsimp simp: fx_connect_def fx_fail_def Let_def split: if_splits option.splits; simp add: fx_acct)
qed (use assms in \<open>cases e; clarsimp simp: fx_connect_def fx_fail_def fx_fail_connected_def Let_def
  split: if_splits option.splits sum.splits; simp add: fx_acct\<close>)+

lemma fx_broadcast_counters:
  assumes "fx_broadcast s l e = Next s' l'" and "fx_inv l"
  shows "fx_view s' = map2 (+) (fx_view s) (map2 (-) (fx_weight l') (fx_weight l)) \<and> fx_inv l'"
proof (cases "f_pc l")
  case FSend
  then show ?thesis using assms loops_send[of "f_sendIdx l" "f_recvIdx l" "f_secs l"]
      loops_sent[of "f_sendIdx l" "f_recvIdx l" "f_secs l"]
    by (cases e; clarsimp simp: fx_broadcast_def fx_fail_def fx_fail_connected_def
        split: if_splits option.splits; simp add: fx_acct)
next
  case FReceive
  note loops = loops_recv[of "f_sendIdx l" "f_recvIdx l" "f_secs l"]
    loops_received[of "f_sendIdx l" "f_recvIdx l" "f_secs l"]
  show ?thesis
  proof (cases e)
    case FvGo
    with FReceive assms loops show ?thesis
      by (auto simp: fx_broadcast_def fx_logLatency_view split: if_splits list.splits) (auto simp: fx_acct)
  qed (use FReceive assms in \<open>clarsimp simp: fx_broadcast_def fx_fail_def fx_fail_connected_def
    split: if_splits option.splits; simp add: fx_acct\<close>)+
qed (use assms in \<open>cases e; clarsimp simp: fx_broadcast_def fx_fail_def fx_fail_connected_def
  split: if_splits option.splits; simp add: fx_acct\<close>)+

text \<open>The reader touches neither the counters nor the loops.\<close>

lemma fx_reader_frame:
  assumes "fx_read dec s l r = Next s' l' \<or> fx_frame_step s l now = Next s' l'"
  shows "fx_view s' = fx_view s" "f_pc l' = f_pc l" "f_sendIdx l' = f_sendIdx l"
    "f_recvIdx l' = f_recvIdx l" "f_secs l' = f_secs l"
  using assms
  by (auto simp: fx_read_def fx_frame_step_def Let_def fx_view_def fx_logError_def split_beta
      split: if_splits sum.splits option.splits fx_reader.splits list.splits)

lemma fx_step_counters:
  assumes "fx_step dec s l e = Next s' l'" and "fx_inv l"
  shows "fx_view s' = map2 (+) (fx_view s) (map2 (-) (fx_weight l') (fx_weight l)) \<and> fx_inv l'"
proof (cases "\<exists>r now. e = FvRead r \<or> e = FvFrame now")
  case True
  then obtain r now where rd: "fx_read dec s l r = Next s' l' \<or> fx_frame_step s l now = Next s' l'"
    using assms(1) by (auto simp: fx_step_def) blast+
  note frame = fx_reader_frame[OF rd]
  have "fx_weight l' = fx_weight l"
    by (simp add: fx_weight_def fx_active_def fx_connected_def fx_ok_def frame)
  moreover have "fx_inv l' = fx_inv l"
    by (cases "f_pc l") (simp_all add: fx_inv_def frame)
  ultimately show ?thesis using assms(2) frame(1) by (simp add: fx_view_def fx_weight_def)
next
  case False
  then show ?thesis
    using assms fx_connect_counters[of s l e s' l'] fx_broadcast_counters[of s l e s' l']
    by (cases e) (auto simp: fx_step_def split: if_splits)
qed

lemma fx_step_fields:
  assumes "fx_step dec s l e = Next s' l'" and "fx_inv l"
  shows "f_cntInProgress s' = f_cntInProgress s + (of_bool (fx_active l') - of_bool (fx_active l))"
    "f_cntConnected s' = f_cntConnected s + (of_bool (fx_connected l') - of_bool (fx_connected l))"
    "f_cntSuccess s' + f_cntCloseError s' =
       f_cntSuccess s + f_cntCloseError s + (of_bool (fx_ok l') - of_bool (fx_ok l))"
    "f_cntMessagesSend s' = f_cntMessagesSend s + (f_sendIdx l' - f_sendIdx l)"
    "fx_latencies s' = fx_latencies s + (f_recvIdx l' - f_recvIdx l)"
  using fx_step_counters[OF assms] by (simp_all add: fx_view_def fx_weight_def)

lemma fx_start_facts [simp]:
  "\<not> fx_active (fx_start ctx)" "\<not> fx_connected (fx_start ctx)" "\<not> fx_ok (fx_start ctx)"
  "f_sendIdx (fx_start ctx) = 0" "f_recvIdx (fx_start ctx) = 0" "fx_inv (fx_start ctx)"
  by (simp_all add: fx_active_def fx_connected_def fx_ok_def fx_start_def fx_inv_def)

lemma fx_inv_complete: "fx_inv l \<Longrightarrow> fx_result l = Some None \<Longrightarrow> f_sendIdx l = f_secs l \<and> f_recvIdx l = f_secs l"
  by (auto simp: fx_inv_def fx_result_def split: fx_pc.splits)

interpretation fx_loops: session_broadcast "fx_step dec" fx_start fx_inv f_cntMessagesSend fx_latencies
  f_sendIdx f_recvIdx f_secs fx_result for dec
  by unfold_locales (simp_all add: fx_step_counters fx_step_fields fx_inv_complete)

interpretation fx_progress: session_gauge "fx_step dec" fx_start fx_inv f_cntInProgress
  "\<lambda>l. of_bool (fx_active l)" fx_active for dec
  by unfold_locales (simp_all add: fx_step_fields)

interpretation fx_connection: session_gauge "fx_step dec" fx_start fx_inv f_cntConnected
  "\<lambda>l. of_bool (fx_connected l)" fx_connected for dec
  by unfold_locales (simp_all add: fx_step_fields)

interpretation fx_closed: session_gauge "fx_step dec" fx_start fx_inv
  "\<lambda>s. f_cntSuccess s + f_cntCloseError s" "\<lambda>l. of_bool (fx_ok l)" fx_ok for dec
  by unfold_locales (simp_all only: fx_step_fields, simp_all)

interpretation fx_session: session_api fx_Setup "\<lambda>s. Return (fx_Counters s)"
  by unfold_locales (auto simp: fx_Setup_def fx_Counters_def)

subsection \<open>What is logged when\<close>

text \<open>The number of messages that the parameters ask for, and that the user works with.\<close>

definition fx_seconds :: "fx_user \<Rightarrow> goint" where
  "fx_seconds l = broadcast_duration_secs (ctx_Params (f_ctx l))"

definition fx_bound :: "fx_user \<Rightarrow> bool" where
  "fx_bound l \<longleftrightarrow> f_secs l = fx_seconds l"

text \<open>A frame with the user's own message, the time in it being no number.\<close>

definition fx_bad_frame :: "fx_user \<Rightarrow> bool" where
  "fx_bad_frame l =
     (case f_reader l of
        FFrames (frame # _) \<Rightarrow> fr_Hub frame = ''Chat'' \<and> fr_Method frame = ''send''
          \<and> fr_Arguments frame ! 0 = UserId (f_ctx l) \<and> snd (parse_int (fr_Arguments frame ! 1) 10) \<noteq> None
      | _ \<Rightarrow> False)"

text \<open>The answers that count as errors: every failed call, and every failure that the user finds itself.\<close>

definition fx_error :: "(string \<Rightarrow> goerror + fx_server_message) \<Rightarrow> fx_user \<Rightarrow> fx_event \<Rightarrow> bool" where
  "fx_error dec l e =
     (case e of
        FvNewRequest _ res \<Rightarrow> res \<noteq> None
      | FvDo res \<Rightarrow> res \<noteq> None
      | FvDecode res \<Rightarrow> isl res \<or> f_pc l = FStartDecode \<and> res \<noteq> Inr ''started''
      | FvDial _ res \<Rightarrow> res \<noteq> None
      | FvSend _ _ res \<Rightarrow> res \<noteq> None
      | FvWriteClose res \<Rightarrow> res \<noteq> None
      | FvTimeout \<Rightarrow> f_pc l = FReceive \<or> (\<exists>token. f_pc l = FWaitInit token)
      | FvRead (Inl unexpected) \<Rightarrow> unexpected
      | FvRead (Inr m) \<Rightarrow> isl (dec m)
      | FvFrame _ \<Rightarrow> fx_bad_frame l
      | _ \<Rightarrow> False)"

definition fx_received :: "(string \<Rightarrow> goerror + fx_server_message) \<Rightarrow> fx_user \<Rightarrow> fx_event \<Rightarrow> bool" where
  "fx_received dec l e \<longleftrightarrow> (\<exists>m content. e = FvRead (Inr m) \<and> dec m = Inr content)"

definition fx_acked :: "(string \<Rightarrow> goerror + fx_server_message) \<Rightarrow> fx_user \<Rightarrow> fx_event \<Rightarrow> bool" where
  "fx_acked dec l e \<longleftrightarrow>
     (\<exists>m content. e = FvRead (Inr m) \<and> dec m = Inr content \<and> sm_S content \<noteq> 1 \<and> sm_Id content \<noteq> [])"

text \<open>The user takes a latency of \<open>ms\<close> milliseconds out of \<^verbatim>\<open>recvChan\<close>.\<close>

definition fx_latency_in :: "int set \<Rightarrow> fx_user \<Rightarrow> fx_event \<Rightarrow> bool" where
  "fx_latency_in ms l e \<longleftrightarrow>
     f_pc l = FReceive \<and> e = FvGo \<and> f_recvIdx l <s f_secs l \<and> sint (hd (f_recvChan l)) \<in> ms"

definition fx_logs :: "(string \<Rightarrow> goerror + fx_server_message) \<Rightarrow> fx_user \<Rightarrow> fx_event \<Rightarrow> bool list" where
  "fx_logs dec l e = [f_pc l = FWaitClose \<and> e = FvGo, f_pc l = FWaitClose \<and> e = FvTimeout, fx_error dec l e,
     fx_received dec l e, fx_acked dec l e, fx_latency_in {..<100} l e, fx_latency_in {100..<500} l e,
     fx_latency_in {500..<1000} l e, fx_latency_in {1000..} l e]"

definition fx_logged :: "signalr_fx_broadcast \<Rightarrow> int64 list" where
  "fx_logged s = [f_cntSuccess s, f_cntCloseError s, f_cntError s, f_cntMessagesRecv s, f_cntMessagesSendAck s,
     f_cntLatencyLessThan100ms s, f_cntLatencyLessThan500ms s, f_cntLatencyLessThan1000ms s, f_cntLatencyMoreThan1000ms s]"

lemmas fx_log_defs = fx_logs_def fx_logged_def fx_error_def fx_bad_frame_def fx_received_def fx_acked_def fx_latency_in_def
  fx_logError_def fx_bound_def fx_seconds_def

lemma fx_logLatency_logged:
  "fx_logged (fx_logLatency x s) = map2 (+) (fx_logged s) ([0, 0, 0, 0, 0] @
     map of_bool [sint x < 100, 100 \<le> sint x \<and> sint x < 500, 500 \<le> sint x \<and> sint x < 1000, 1000 \<le> sint x])"
  by (auto simp: fx_logLatency_def fx_logged_def word_sless_alt)

lemma fx_connect_logs:
  assumes "fx_connect s l e = Next s' l'"
  shows "fx_logged s' = map2 (+) (fx_logged s) (map of_bool (fx_logs dec l e)) \<and> fx_bound l' = fx_bound l"
  using assms
  by (cases "f_pc l"; cases e; clarsimp simp: fx_connect_def fx_fail_def Let_def split: if_splits option.splits sum.splits;
      simp add: fx_log_defs)

lemma fx_broadcast_logs:
  assumes "fx_broadcast s l e = Next s' l'"
  shows "fx_logged s' = map2 (+) (fx_logged s) (map of_bool (fx_logs dec l e)) \<and> fx_bound l' = fx_bound l"
proof (cases "f_pc l = FReceive \<and> e = FvGo")
  case True
  with assms show ?thesis
    by (auto simp: fx_broadcast_def fx_logLatency_logged split: if_splits list.splits) (simp_all add: fx_log_defs)
next
  case False
  with assms show ?thesis
    by (cases "f_pc l"; cases e; clarsimp simp: fx_broadcast_def fx_fail_connected_def split: if_splits option.splits;
        simp add: fx_log_defs)
qed

lemma fx_read_logs:
  assumes "fx_read dec s l r = Next s' l'"
  shows "fx_logged s' = map2 (+) (fx_logged s) (map of_bool (fx_logs dec l (FvRead r))) \<and> fx_bound l' = fx_bound l"
  using assms by (auto simp: fx_read_def Let_def fx_log_defs split: if_splits sum.splits)

lemma fx_frame_logs:
  assumes "fx_frame_step s l now = Next s' l'"
  shows "fx_logged s' = map2 (+) (fx_logged s) (map of_bool (fx_logs dec l (FvFrame now))) \<and> fx_bound l' = fx_bound l"
  using assms
  by (auto simp: fx_frame_step_def Let_def fx_log_defs split_beta
      split: fx_reader.splits list.splits if_splits option.splits)

lemma fx_step_logs:
  assumes "fx_step dec s l e = Next s' l'"
  shows "fx_logged s' = map2 (+) (fx_logged s) (map of_bool (fx_logs dec l e)) \<and> fx_bound l' = fx_bound l"
proof (cases "\<exists>r now. e = FvRead r \<or> e = FvFrame now")
  case True
  then show ?thesis using assms fx_read_logs fx_frame_logs by (auto simp: fx_step_def)
next
  case False
  then have "fx_connect s l e = Next s' l' \<or> fx_broadcast s l e = Next s' l'"
    using assms by (cases e) (simp_all add: fx_step_def split: if_splits)
  then show ?thesis using fx_connect_logs fx_broadcast_logs by blast
qed

interpretation fx_bounds: session_local_inv "fx_step dec" fx_start fx_bound for dec
  by unfold_locales (simp add: fx_bound_def fx_seconds_def fx_start_def, simp add: fx_step_logs)

subsection \<open>Properties\<close>

text \<open>
  C14: the SignalR (.NET Framework) broadcast session counts what it does. In every interleaving
  after \<^verbatim>\<open>Setup\<close>, with any history: \<^verbatim>\<open>inprogress\<close> and \<^verbatim>\<open>connected\<close> are the users inside
  \<^verbatim>\<open>Execute\<close> and those between the connect and the deferred disconnect; \<^verbatim>\<open>success\<close> counts the
  users whose reader ended before the timeout of the close handshake and \<^verbatim>\<open>closeerror\<close> those that
  ran into it, and together they are the users that return without an error; \<^verbatim>\<open>error\<close> counts each
  failed call, refused start, timeout of the init message or of the receive loop, and message that
  cannot be read or decoded; \<^verbatim>\<open>messages:recv\<close>, \<^verbatim>\<open>messages:sendack\<close> and \<^verbatim>\<open>messages:send\<close> count
  the messages decoded, the acknowledgements among them and the messages sent, and each bucket the
  latencies in its range; and a user that returns without an error has sent and received back
  exactly as many messages as \<^verbatim>\<open>broadcastDurationSecs\<close> asks for.
\<close>

theorem fx_complete_broadcast:
  assumes "fx_Setup () ps s = Return (s0, None)"
    and "sys_trace (fx_step dec) fx_start s0 tr (s', ls)"
  shows "f_cntInProgress s' = word_of_nat (length (filter fx_active ls))
    \<and> f_cntConnected s' = word_of_nat (length (filter fx_connected ls))
    \<and> f_cntSuccess s' = happened (\<lambda>l e. f_pc l = FWaitClose \<and> e = FvGo) tr
    \<and> f_cntCloseError s' = happened (\<lambda>l e. f_pc l = FWaitClose \<and> e = FvTimeout) tr
    \<and> f_cntSuccess s' + f_cntCloseError s' = word_of_nat (length (filter fx_ok ls))
    \<and> f_cntError s' = happened (fx_error dec) tr
    \<and> f_cntMessagesRecv s' = happened (fx_received dec) tr
    \<and> f_cntMessagesSendAck s' = happened (fx_acked dec) tr
    \<and> f_cntMessagesSend s' = sum_list (map f_sendIdx ls)
    \<and> f_cntLatencyLessThan100ms s' = happened (fx_latency_in {..<100}) tr
    \<and> f_cntLatencyLessThan500ms s' = happened (fx_latency_in {100..<500}) tr
    \<and> f_cntLatencyLessThan1000ms s' = happened (fx_latency_in {500..<1000}) tr
    \<and> f_cntLatencyMoreThan1000ms s' = happened (fx_latency_in {1000..}) tr
    \<and> fx_latencies s' = sum_list (map f_recvIdx ls)
    \<and> (\<forall>l \<in> set ls. fx_result l = Some None \<longrightarrow> f_sendIdx l = fx_seconds l \<and> f_recvIdx l = fx_seconds l)"
proof -
  note reach = sys_trace_reach[OF assms(2)]
  have s0: "fx_logged s0 = replicate 9 0" "f_cntInProgress s0 = 0" "f_cntConnected s0 = 0" "f_cntMessagesSend s0 = 0"
    "fx_latencies s0 = 0" "f_cntSuccess s0 + f_cntCloseError s0 = 0"
    using assms(1) by (auto simp: fx_Setup_def fx_logged_def fx_latencies_def numeral_eq_Suc)
  have "f_sendIdx l = fx_seconds l \<and> f_recvIdx l = fx_seconds l" if "l \<in> set ls" "fx_result l = Some None" for l
    using fx_loops.broadcast_complete(3)[OF reach that] fx_bounds.reach_inv[OF reach that(1)] by (simp add: fx_bound_def)
  moreover have "fx_logged s' = map2 (+) (fx_logged s0) (map (\<lambda>k. happened (\<lambda>l e. fx_logs dec l e ! k) tr) [0..<9])"
    by (rule trace_counts_list[OF assms(2)]) (simp add: fx_step_logs, simp_all add: fx_logged_def fx_logs_def)
  ultimately show ?thesis
    using fx_progress.gauge_counts[OF reach] fx_connection.gauge_counts[OF reach] fx_closed.gauge_counts[OF reach]
      fx_loops.broadcast_complete(1,2)[OF reach] s0
    by (simp add: fx_logged_def fx_logs_def upt_rec numeral_eq_Suc)
qed

definition demo_fx :: signalr_fx_broadcast where
  "demo_fx = \<lparr>f_cntInProgress = 0, f_cntConnected = 0, f_cntError = 0, f_cntCloseError = 0, f_cntSuccess = 0,
     f_cntMessagesRecv = 0, f_cntMessagesSend = 0, f_cntMessagesSendAck = 0, f_cntLatencyLessThan100ms = 0,
     f_cntLatencyLessThan500ms = 0, f_cntLatencyLessThan1000ms = 0, f_cntLatencyMoreThan1000ms = 0\<rparr>"

definition demo_fx_ctx :: user_context where
  "demo_fx_ctx = \<lparr>UserId = ''u1'', ctx_Phase = ''p'',
     ctx_Params = [''host'' \<mapsto> ''h'', ''broadcastDurationSecs'' \<mapsto> ''1'']\<rparr>"

definition demo_fx_dec :: "string \<Rightarrow> goerror + fx_server_message" where
  "demo_fx_dec m =
     (if m = ''init'' then Inr \<lparr>sm_C = '''', sm_S = 1, sm_Id = '''', sm_Frames = []\<rparr>
      else if m = ''ack'' then Inr \<lparr>sm_C = '''', sm_S = 0, sm_Id = ''0'', sm_Frames = []\<rparr>
      else Inr \<lparr>sm_C = '''', sm_S = 0, sm_Id = '''',
             sm_Frames = [\<lparr>fr_Hub = ''Chat'', fr_Method = ''send'', fr_Arguments = [''u1'', m]\<rparr>]\<rparr>)"

definition demo_fx_run :: "fx_event list" where
  "demo_fx_run = [FvGo, FvNewRequest (fx_negotiate_url ''h'') None, FvDo None, FvDecode (Inr ''t+k''),
     FvDial (fx_connect_url ''h'' ''t+k'') None, FvRead (Inr ''init''), FvGo,
     FvNewRequest (fx_start_url ''h'' ''t+k'') None, FvDo None, FvDecode (Inr ''started''), FvGo,
     FvSend (fx_message demo_fx_ctx 0 5) 5 None, FvRead (Inr ''ack''), FvRead (Inr ''5''), FvFrame 250000005,
     FvFrame 0, FvFrame 0, FvTimeout, FvGo, FvGo, FvGo, FvWriteClose None, FvRead (Inl False), FvGo, FvGo, FvGo]"

definition demo_fx_final :: signalr_fx_broadcast where
  "demo_fx_final = demo_fx\<lparr>f_cntSuccess := 1, f_cntMessagesRecv := 3, f_cntMessagesSend := 1,
     f_cntMessagesSendAck := 1, f_cntLatencyLessThan500ms := 1\<rparr>"

definition demo_fx_done :: fx_user where
  "demo_fx_done = \<lparr>f_ctx = demo_fx_ctx, f_pc = FDone None, f_secs = 1, f_sendIdx = 1, f_recvIdx = 1,
     f_inited = True, f_recvChan = [], f_reader = FEnded\<rparr>"

lemma demo_fx_params [simp]:
  "UserId demo_fx_ctx = ''u1''" "str_get (ctx_Params demo_fx_ctx) ParamHost = ''h''"
  "broadcast_duration_secs (ctx_Params demo_fx_ctx) = 1"
  by (simp_all add: demo_fx_ctx_def str_get_def ParamHost_def ParamBroadcastDurationSecs_def
      broadcast_duration_secs_def atoi_def parse_int_def parse_uint_def digit_val_def)

lemma demo_fx_run_result:
  "run_events (fx_step demo_fx_dec) demo_fx (fx_start demo_fx_ctx) demo_fx_run = Next demo_fx_final demo_fx_done"
  by (simp add: demo_fx_run_def fx_step_def fx_handshaking_def fx_connect_def fx_broadcast_def fx_read_def
      fx_frame_step_def fx_start_def demo_fx_dec_def demo_fx_def demo_fx_final_def demo_fx_done_def
      alloc_fits_def fx_logLatency_def word_sless_alt Let_def parse_int_def parse_uint_def digit_val_def)

lemma demo_fx_Setup: "fx_Setup () Map.empty (demo_fx\<lparr>f_cntError := 4\<rparr>) = Return (demo_fx, None)"
  by (simp add: fx_Setup_def demo_fx_def)

theorem fx_complete_broadcast_witness:
  "\<exists>tr. sys_trace (fx_step demo_fx_dec) fx_start demo_fx tr (demo_fx_final, [demo_fx_done])
    \<and> happened (\<lambda>l e. f_pc l = FWaitClose \<and> e = FvGo) tr = 1 \<and> happened (fx_latency_in {100..<500}) tr = 1
    \<and> happened (fx_acked demo_fx_dec) tr = 1 \<and> f_sendIdx demo_fx_done = fx_seconds demo_fx_done"
proof -
  note tr = run_events_trace[where start = fx_start, OF demo_fx_run_result]
  have "f_cntSuccess demo_fx_final = 1" "f_cntLatencyLessThan500ms demo_fx_final = 1" "f_cntMessagesSendAck demo_fx_final = 1"
    "fx_result demo_fx_done = Some None"
    by (simp_all add: demo_fx_final_def demo_fx_done_def fx_result_def)
  with fx_complete_broadcast[OF demo_fx_Setup tr] tr show ?thesis by fastforce
qed

text \<open>
  C39: the connection token survives the handshake. The URL of the websocket carries it escaped
  between two fixed parts; the escaped token contains no character that separates the parts of
  a query, and unescaping it gives back the token the server handed out, whatever its bytes.
\<close>

theorem fx_token_roundtrip:
  "\<exists>esc. fx_connect_url host token =
       ''ws://'' @ host @ ''/signalr/connect?transport=webSockets&clientProtocol=1.4&connectionToken='' @ esc
       @ fx_connection_data @ ''&tid=0''
     \<and> query_unescape esc = Some token \<and> set esc \<inter> set ''&=#? '' = {}"
  using unescape_escape[of token] query_escape_safe[of _ token]
  by (intro exI[of _ "query_escape token"]) (auto simp: fx_connect_url_def)

end
