(* ===== verification/WebPubSub_Echo.thy ===== *)
theory WebPubSub_Echo
  imports Session_Machine
begin

text \<open>
  \<^verbatim>\<open>sessions/webpubsub_echo.go\<close>. The reader goroutine hands every message to
  \<^verbatim>\<open>Execute\<close> over one of five unbuffered channels: it is blocked in the state
  \<open>WSending\<close> until the \<^verbatim>\<open>select\<close> that \<^verbatim>\<open>Execute\<close> waits in has a case for that
  channel. The JSON decoder is the argument \<open>dec\<close>; a marshalled event is represented by
  the event itself.
\<close>

record webpubsub_event =
  ev_Type :: string
  ev_Event :: string
  ev_UserId :: string
  ev_ConnectionId :: string
  ev_Message :: string
  ev_From :: string
  ev_AckId :: goint
  ev_Group :: string
  ev_DataType :: string
  ev_Data :: string

definition empty_event :: webpubsub_event where
  "empty_event = \<lparr>ev_Type = '''', ev_Event = '''', ev_UserId = '''', ev_ConnectionId = '''',
     ev_Message = '''', ev_From = '''', ev_AckId = 0, ev_Group = '''', ev_DataType = '''', ev_Data = ''''\<rparr>"

record webpubsub_echo =
  w_subprotocols :: "string list option"
  w_cntInProgress :: int64
  w_cntError :: int64
  w_cntSuccess :: int64

definition wps_Name :: string where
  [simp]: "wps_Name = ''WebPubSub:Echo''"

definition wps_Setup :: "unit \<Rightarrow> params \<Rightarrow> webpubsub_echo \<Rightarrow> (webpubsub_echo \<times> goerror option) go" where
  "wps_Setup _ ps s = Return (s\<lparr>w_subprotocols := Some [''json.webpubsub.azure.v1''],
     w_cntInProgress := 0, w_cntError := 0, w_cntSuccess := 0\<rparr>, None)"

definition wps_logError :: "webpubsub_echo \<Rightarrow> webpubsub_echo" where
  [session_defs]: "wps_logError s = s\<lparr>w_cntError := w_cntError s + 1\<rparr>"

definition wps_joinGroupEv :: "user_context \<Rightarrow> webpubsub_event" where
  "wps_joinGroupEv ctx = empty_event\<lparr>ev_Type := ''joinGroup'', ev_Group := UserId ctx, ev_AckId := 1\<rparr>"

definition wps_sendToGroupEv :: "user_context \<Rightarrow> webpubsub_event" where
  "wps_sendToGroupEv ctx = empty_event\<lparr>ev_Type := ''sendToGroup'', ev_Group := UserId ctx, ev_AckId := 2,
     ev_DataType := ''text'', ev_Data := ''foobar''\<rparr>"

datatype wps_msg = OnConn | Ack goint | Msg string | Err goerror | Close

datatype wps_pc =
    WStart
  | WDial
  | WWaitConn
  | WJoin
  | WWaitJoin
  | WSend
  | WWaitEcho
  | WReturn "goerror option"
  | WDone "goerror option"

text \<open>The flag says whether the reader has logged an error.\<close>

datatype wps_reader = WNotStarted | WReading | WSending wps_msg bool | WEnded bool

record wps_user =
  w_ctx :: user_context
  w_pc :: wps_pc
  w_reader :: wps_reader

datatype wps_ev =
    WvGo
  | WvDial string "goerror option"
  | WvWrite webpubsub_event "goerror option"
  | WvTimeout
  | WvReceive
  | WvRead "bool + string"

definition wps_start :: "user_context \<Rightarrow> wps_user" where
  "wps_start ctx = \<lparr>w_ctx = ctx, w_pc = WStart, w_reader = WNotStarted\<rparr>"

definition wps_fail :: "webpubsub_echo \<Rightarrow> wps_user \<Rightarrow> goerror \<Rightarrow> (webpubsub_echo, wps_user) step_result" where
  [session_defs]: "wps_fail s l err = Next (wps_logError s) (l\<lparr>w_pc := WReturn (Some err)\<rparr>)"

text \<open>After its send succeeded, the reader goes on reading, or returns if it was closing.\<close>

definition wps_delivered :: "wps_user \<Rightarrow> wps_user" where
  [session_defs]: "wps_delivered l =
     (case w_reader l of
        WSending Close logged \<Rightarrow> l\<lparr>w_reader := WEnded logged\<rparr>
      | WSending _ _ \<Rightarrow> l\<lparr>w_reader := WReading\<rparr>
      | _ \<Rightarrow> l)"

text \<open>The \<^verbatim>\<open>select\<close> statements: what \<^verbatim>\<open>Execute\<close> does with a message of the reader.\<close>

definition wps_receive :: "webpubsub_echo \<Rightarrow> wps_user \<Rightarrow> wps_msg \<Rightarrow> (webpubsub_echo, wps_user) step_result" where
  "wps_receive s l m =
     (case (w_pc l, m) of
        (WWaitConn, OnConn) \<Rightarrow> Next s ((wps_delivered l)\<lparr>w_pc := WJoin\<rparr>)
      | (WWaitJoin, Ack i) \<Rightarrow>
          if i \<noteq> ev_AckId (wps_joinGroupEv (w_ctx l)) then wps_fail s (wps_delivered l) ''Unexpected ack id''
          else Next s ((wps_delivered l)\<lparr>w_pc := WSend\<rparr>)
      | (WWaitEcho, Ack i) \<Rightarrow>
          if i \<noteq> ev_AckId (wps_sendToGroupEv (w_ctx l)) then wps_fail s (wps_delivered l) ''Unexpected ack id''
          else Next s (wps_delivered l)
      | (WWaitEcho, Msg d) \<Rightarrow>
          if d \<noteq> ev_Data (wps_sendToGroupEv (w_ctx l)) then wps_fail s (wps_delivered l) ''Unexpected data''
          else Next (s\<lparr>w_cntSuccess := w_cntSuccess s + 1\<rparr>) ((wps_delivered l)\<lparr>w_pc := WReturn None\<rparr>)
      | (pc, Err err) \<Rightarrow>
          if pc \<in> {WWaitConn, WWaitJoin, WWaitEcho} then wps_fail s (wps_delivered l) err else Disabled
      | (pc, Close) \<Rightarrow>
          if pc \<in> {WWaitConn, WWaitJoin, WWaitEcho} then wps_fail s (wps_delivered l) ''Unexpected close''
          else Disabled
      | _ \<Rightarrow> Disabled)"

definition wps_main :: "webpubsub_echo \<Rightarrow> wps_user \<Rightarrow> wps_ev \<Rightarrow> (webpubsub_echo, wps_user) step_result" where
  "wps_main s l e =
     (case (w_pc l, e) of
        (WStart, WvGo) \<Rightarrow> Next (s\<lparr>w_cntInProgress := w_cntInProgress s + 1\<rparr>) (l\<lparr>w_pc := WDial\<rparr>)
      | (WDial, WvDial u res) \<Rightarrow>
          if u = str_get (ctx_Params (w_ctx l)) ''url''
          then (case res of
                  Some err \<Rightarrow> wps_fail s l err
                | None \<Rightarrow> Next s (l\<lparr>w_pc := WWaitConn, w_reader := WReading\<rparr>))
          else Disabled
      | (WWaitConn, WvTimeout) \<Rightarrow> wps_fail s l ''On connected timeout''
      | (WJoin, WvWrite ev res) \<Rightarrow>
          if ev = wps_joinGroupEv (w_ctx l)
          then (case res of Some err \<Rightarrow> wps_fail s l err | None \<Rightarrow> Next s (l\<lparr>w_pc := WWaitJoin\<rparr>))
          else Disabled
      | (WWaitJoin, WvTimeout) \<Rightarrow> wps_fail s l (''Join group '' @ UserId (w_ctx l) @ '' ack timeout'')
      | (WSend, WvWrite ev res) \<Rightarrow>
          if ev = wps_sendToGroupEv (w_ctx l)
          then (case res of Some err \<Rightarrow> wps_fail s l err | None \<Rightarrow> Next s (l\<lparr>w_pc := WWaitEcho\<rparr>))
          else Disabled
      | (WWaitEcho, WvTimeout) \<Rightarrow> wps_fail s l ''Echo timeout''
      | (WReturn r, WvGo) \<Rightarrow> Next (s\<lparr>w_cntInProgress := w_cntInProgress s - 1\<rparr>) (l\<lparr>w_pc := WDone r\<rparr>)
      | _ \<Rightarrow> Disabled)"

definition wps_read ::
  "(string \<Rightarrow> goerror + webpubsub_event) \<Rightarrow> webpubsub_echo \<Rightarrow> wps_user \<Rightarrow> bool + string \<Rightarrow>
     (webpubsub_echo, wps_user) step_result" where
  "wps_read dec s l r =
     (if w_reader l \<noteq> WReading then Disabled
      else case r of
        Inl unexpected \<Rightarrow>
          Next (if unexpected then wps_logError s else s) (l\<lparr>w_reader := WSending Close unexpected\<rparr>)
      | Inr msg \<Rightarrow>
          (case dec msg of
             Inl err \<Rightarrow> Next (wps_logError s) (l\<lparr>w_reader := WEnded True\<rparr>)
           | Inr ev \<Rightarrow>
               Next s (l\<lparr>w_reader := WSending
                 (if ev_Type ev = ''system'' \<and> ev_Event ev = ''connected'' then OnConn
                  else if ev_Type ev = ''ack'' then Ack (ev_AckId ev)
                  else if ev_Type ev = ''message'' \<and> ev_From ev = ''group'' then Msg (ev_Data ev)
                  else Err ''Unexpected message'') False\<rparr>)))"

definition wps_step ::
  "(string \<Rightarrow> goerror + webpubsub_event) \<Rightarrow> webpubsub_echo \<Rightarrow> wps_user \<Rightarrow> wps_ev \<Rightarrow>
     (webpubsub_echo, wps_user) step_result" where
  "wps_step dec s l e =
     (case e of
        WvRead r \<Rightarrow> wps_read dec s l r
      | WvReceive \<Rightarrow> (case w_reader l of WSending m _ \<Rightarrow> wps_receive s l m | _ \<Rightarrow> Disabled)
      | _ \<Rightarrow> wps_main s l e)"

definition wps_result :: "wps_user \<Rightarrow> goerror option option" where
  "wps_result l = (case w_pc l of WDone r \<Rightarrow> Some r | _ \<Rightarrow> None)"

definition wps_Counters :: "webpubsub_echo \<Rightarrow> counters" where
  "wps_Counters s =
     [''webpubsub:echo:inprogress'' \<mapsto> w_cntInProgress s,
      ''webpubsub:echo:success'' \<mapsto> w_cntSuccess s,
      ''webpubsub:echo:error'' \<mapsto> w_cntError s]"

subsection \<open>Accounting\<close>

definition wps_active :: "wps_user \<Rightarrow> bool" where
  [session_defs]: "wps_active l \<longleftrightarrow> (case w_pc l of WStart \<Rightarrow> False | WDone _ \<Rightarrow> False | _ \<Rightarrow> True)"

definition wps_ok :: "wps_user \<Rightarrow> bool" where
  [session_defs]: "wps_ok l \<longleftrightarrow> w_pc l = WReturn None \<or> w_pc l = WDone None"

definition wps_errors :: "wps_user \<Rightarrow> int64" where
  [session_defs]: "wps_errors l =
     of_bool (\<exists>err. w_pc l = WReturn (Some err) \<or> w_pc l = WDone (Some err))
     + of_bool (w_reader l = WEnded True \<or> w_reader l = WSending Close True)"

text \<open>The reader starts with the connection, and only a closing reader carries a log flag.\<close>

definition wps_inv :: "wps_user \<Rightarrow> bool" where
  "wps_inv l \<longleftrightarrow> (w_pc l \<in> {WStart, WDial} \<longrightarrow> w_reader l = WNotStarted)
     \<and> (\<forall>m. w_reader l = WSending m True \<longrightarrow> m = Close)"

lemmas wps_acct = wps_active_def wps_ok_def wps_errors_def wps_inv_def

lemma wps_step_cases:
  assumes "wps_step dec s l e = Next s' l'"
  obtains "wps_main s l e = Next s' l'" | r where "wps_read dec s l r = Next s' l'"
  | m b where "w_reader l = WSending m b" "wps_receive s l m = Next s' l'"
  using assms by (cases e) (auto simp: wps_step_def split: wps_reader.splits)

lemma wps_main_inv: "wps_main s l e = Next s' l' \<Longrightarrow> wps_inv l \<Longrightarrow> wps_inv l'"
  by (cases "w_pc l"; cases e; clarsimp simp: wps_main_def wps_fail_def wps_logError_def split: if_splits option.splits;
      simp add: wps_acct)

lemma wps_read_inv: "wps_read dec s l r = Next s' l' \<Longrightarrow> wps_inv l \<Longrightarrow> wps_inv l'"
  by (auto simp: wps_read_def wps_inv_def split: if_splits sum.splits)

lemma wps_receive_inv:
  "wps_receive s l m = Next s' l' \<Longrightarrow> w_reader l = WSending m b \<Longrightarrow> wps_inv l \<Longrightarrow> wps_inv l'"
  by (cases "w_pc l"; cases m; clarsimp simp: wps_receive_def wps_fail_def wps_logError_def wps_delivered_def
      split: if_splits; simp add: wps_acct)

interpretation wps_invariant: session_local_inv "wps_step dec" wps_start wps_inv for dec
proof
  show "wps_inv (wps_start ctx)" for ctx by (simp add: wps_inv_def wps_start_def)
  show "wps_inv l'" if "wps_step dec s l e = Next s' l'" "wps_inv l" for s l e s' l'
    by (rule wps_step_cases[OF that(1)])
      (use that(2) wps_main_inv wps_read_inv wps_receive_inv in blast)+
qed

lemma wps_main_counters:
  assumes "wps_main s l e = Next s' l'" and "wps_inv l"
  shows "w_cntInProgress s' = w_cntInProgress s + (of_bool (wps_active l') - of_bool (wps_active l))"
    "w_cntSuccess s' = w_cntSuccess s + (of_bool (wps_ok l') - of_bool (wps_ok l))"
    "w_cntError s' = w_cntError s + (wps_errors l' - wps_errors l)"
  using assms
  by (cases "w_pc l"; cases e; clarsimp simp: wps_main_def wps_fail_def wps_logError_def split: if_splits option.splits;
      simp add: wps_acct)+

lemma wps_read_counters:
  assumes "wps_read dec s l r = Next s' l'"
  shows "w_cntInProgress s' = w_cntInProgress s + (of_bool (wps_active l') - of_bool (wps_active l))"
    "w_cntSuccess s' = w_cntSuccess s + (of_bool (wps_ok l') - of_bool (wps_ok l))"
    "w_cntError s' = w_cntError s + (wps_errors l' - wps_errors l)"
  using assms by (force simp: wps_read_def session_defs split: if_splits sum.splits)+

lemma wps_receive_counters:
  assumes "wps_receive s l m = Next s' l'" and "w_reader l = WSending m b" and "wps_inv l"
  shows "w_cntInProgress s' = w_cntInProgress s + (of_bool (wps_active l') - of_bool (wps_active l))"
    "w_cntSuccess s' = w_cntSuccess s + (of_bool (wps_ok l') - of_bool (wps_ok l))"
    "w_cntError s' = w_cntError s + (wps_errors l' - wps_errors l)"
  using assms
  by (cases "w_pc l"; cases m; clarsimp simp: wps_receive_def wps_fail_def wps_logError_def wps_delivered_def
      split: if_splits; simp add: wps_acct)+

lemma wps_step_counters:
  assumes "wps_step dec s l e = Next s' l'" and "wps_inv l"
  shows "w_cntInProgress s' = w_cntInProgress s + (of_bool (wps_active l') - of_bool (wps_active l))"
    "w_cntSuccess s' = w_cntSuccess s + (of_bool (wps_ok l') - of_bool (wps_ok l))"
    "w_cntError s' = w_cntError s + (wps_errors l' - wps_errors l)"
  by (rule wps_step_cases[OF assms(1)];
      use assms(2) in \<open>simp only: wps_main_counters wps_read_counters wps_receive_counters\<close>)+

lemma wps_start_weights [simp]:
  "\<not> wps_active (wps_start ctx)" "\<not> wps_ok (wps_start ctx)" "wps_errors (wps_start ctx) = 0"
  by (simp_all add: session_defs wps_start_def)

interpretation wps_progress: session_gauge "wps_step dec" wps_start wps_inv w_cntInProgress
  "\<lambda>l. of_bool (wps_active l)" wps_active for dec
  by unfold_locales (simp_all add: wps_step_counters)

interpretation wps_success: session_gauge "wps_step dec" wps_start wps_inv w_cntSuccess
  "\<lambda>l. of_bool (wps_ok l)" wps_ok for dec
  by unfold_locales (simp_all add: wps_step_counters)

interpretation wps_error: session_counter "wps_step dec" wps_start wps_inv w_cntError wps_errors for dec
  by unfold_locales (simp_all add: wps_step_counters)

interpretation wps_session: session_api wps_Setup "\<lambda>s. Return (wps_Counters s)"
  by unfold_locales (auto simp: wps_Setup_def wps_Counters_def)

subsection \<open>The reader that nobody receives from\<close>

lemma wps_leak_step:
  assumes "w_pc l = WDone r" and "w_reader l = WSending m b"
  shows "wps_step dec s l e = Disabled"
  using assms by (cases e; cases m) (auto simp: wps_step_def wps_main_def wps_read_def wps_receive_def)

text \<open>
  When \<^verbatim>\<open>WebPubSubEcho.Execute\<close> has returned while its reader goroutine is sending
  on one of the unbuffered channels (for instance the acknowledgement that arrives after the
  echoed message), the reader is blocked forever: no event of the environment, in any state of
  the session, is a step of this user again.
\<close>

theorem wps_reader_leak:
  assumes "w_pc l = WDone r" and "w_reader l = WSending m b" and "es \<noteq> []"
  shows "run_events (wps_step dec) s l es = Disabled"
  using assms by (cases es) (simp_all add: wps_leak_step)

definition demo_ctx :: user_context where
  "demo_ctx = \<lparr>UserId = ''u1'', ctx_Phase = ''p'', ctx_Params = [''url'' \<mapsto> ''ws'']\<rparr>"

definition demo_wps_dec :: "string \<Rightarrow> goerror + webpubsub_event" where
  "demo_wps_dec m =
     (if m = ''c'' then Inr (empty_event\<lparr>ev_Type := ''system'', ev_Event := ''connected''\<rparr>)
      else if m = ''1'' then Inr (empty_event\<lparr>ev_Type := ''ack'', ev_AckId := 1\<rparr>)
      else if m = ''2'' then Inr (empty_event\<lparr>ev_Type := ''ack'', ev_AckId := 2\<rparr>)
      else if m = ''m'' then Inr (empty_event\<lparr>ev_Type := ''message'', ev_From := ''group'', ev_Data := ''foobar''\<rparr>)
      else Inl ''bad'')"

definition demo_wps_run :: "wps_ev list" where
  "demo_wps_run = [WvGo, WvDial ''ws'' None, WvRead (Inr ''c''), WvReceive,
     WvWrite (wps_joinGroupEv demo_ctx) None, WvRead (Inr ''1''), WvReceive,
     WvWrite (wps_sendToGroupEv demo_ctx) None, WvRead (Inr ''m''), WvReceive,
     WvRead (Inr ''2''), WvGo]"

definition demo_wps :: webpubsub_echo where
  "demo_wps = \<lparr>w_subprotocols = Some [''json.webpubsub.azure.v1''], w_cntInProgress = 0, w_cntError = 0, w_cntSuccess = 0\<rparr>"

lemma demo_wps_run_result:
  "run_events (wps_step demo_wps_dec) demo_wps (wps_start demo_ctx) demo_wps_run =
     Next (demo_wps\<lparr>w_cntSuccess := 1\<rparr>)
       \<lparr>w_ctx = demo_ctx, w_pc = WDone None, w_reader = WSending (Ack 2) False\<rparr>"
  by (simp add: demo_wps_run_def wps_step_def wps_main_def wps_read_def wps_receive_def wps_start_def
      wps_delivered_def demo_wps_dec_def demo_wps_def demo_ctx_def wps_joinGroupEv_def
      wps_sendToGroupEv_def empty_event_def str_get_def)

theorem wps_reader_leak_witness:
  "run_events (wps_step demo_wps_dec) (demo_wps\<lparr>w_cntSuccess := 1\<rparr>)
     \<lparr>w_ctx = demo_ctx, w_pc = WDone None, w_reader = WSending (Ack 2) False\<rparr> [WvReceive] = Disabled
   \<and> run_events (wps_step demo_wps_dec) demo_wps (wps_start demo_ctx) demo_wps_run =
     Next (demo_wps\<lparr>w_cntSuccess := 1\<rparr>)
       \<lparr>w_ctx = demo_ctx, w_pc = WDone None, w_reader = WSending (Ack 2) False\<rparr>"
  using demo_wps_run_result
    wps_reader_leak[of "\<lparr>w_ctx = demo_ctx, w_pc = WDone None, w_reader = WSending (Ack 2) False\<rparr>"
      None "Ack 2" False "[WvReceive]" demo_wps_dec "demo_wps\<lparr>w_cntSuccess := 1\<rparr>"]
  by simp

subsection \<open>Accounting\<close>

text \<open>
  C20: after \<^verbatim>\<open>Setup\<close>, in every interleaving of the users of the Web PubSub session,
  \<^verbatim>\<open>inprogress\<close> is the number of users inside \<^verbatim>\<open>Execute\<close>,
  \<^verbatim>\<open>success\<close> the number that returned (or is returning) without an error, and
  \<^verbatim>\<open>error\<close> counts every failed user and every reader that logged an unexpected end once.
\<close>

theorem wps_accounting:
  assumes "wps_Setup () ps s = Return (s0, None)"
    and "sys_reach (wps_step dec) wps_start s0 (s', ls)"
  shows "cnt_get (wps_Counters s') ''webpubsub:echo:inprogress'' = word_of_nat (length (filter wps_active ls))
    \<and> cnt_get (wps_Counters s') ''webpubsub:echo:success'' = word_of_nat (length (filter wps_ok ls))
    \<and> cnt_get (wps_Counters s') ''webpubsub:echo:error'' = sum_list (map wps_errors ls)"
  using wps_progress.gauge_counts[OF assms(2)] wps_success.gauge_counts[OF assms(2)]
    wps_error.counter_is_sum[OF assms(2)] assms(1)
  by (auto simp: wps_Counters_def wps_Setup_def)

lemma demo_wps_Setup: "wps_Setup () Map.empty (demo_wps\<lparr>w_cntError := 4\<rparr>) = Return (demo_wps, None)"
  by (simp add: wps_Setup_def demo_wps_def)

theorem wps_accounting_witness:
  "cnt_get (wps_Counters (demo_wps\<lparr>w_cntSuccess := 1\<rparr>)) ''webpubsub:echo:success'' =
     word_of_nat (length (filter wps_ok
       [\<lparr>w_ctx = demo_ctx, w_pc = WDone None, w_reader = WSending (Ack 2) False\<rparr>]))"
  using wps_accounting[OF demo_wps_Setup run_events_one[where start = wps_start, OF demo_wps_run_result]] by blast

end
