(* ===== verification/Redis_PubSub.thy ===== *)
theory Redis_PubSub
  imports Session_Trace
begin

text \<open>
  \<^verbatim>\<open>sessions/redis_pubsub.go\<close>. The local state of a user keeps the loop counters, the
  buffer of \<^verbatim>\<open>recvChan\<close>, the flag \<^verbatim>\<open>exit\<close> and the state of the
  subscriber goroutine; \<^verbatim>\<open>startChan\<close> is closed exactly when the subscriber has got
  past \<^verbatim>\<open>Subscribe\<close>. The decoder of the messages is the argument \<open>dec\<close>.
\<close>

record redis_pool =
  pool_host :: string
  pool_password :: "string option"

record redis_message =
  msg_Uid :: string
  msg_Timestamp :: int64

record redis_pubsub =
  r_pool :: "redis_pool option"
  r_cntInProgress :: int64
  r_cntConnected :: int64
  r_cntError :: int64
  r_cntErrorNotRecvAll :: int64
  r_cntSuccess :: int64
  r_cntMessagesRecv :: int64
  r_cntMessagesSend :: int64
  r_cntLatencyLessThan100ms :: int64
  r_cntLatencyLessThan500ms :: int64
  r_cntLatencyLessThan1000ms :: int64
  r_cntLatencyMoreThan1000ms :: int64

definition redis_Name :: string where
  [simp]: "redis_Name = ''Redis:PubSub''"

definition redis_setupRedisPool :: "params \<Rightarrow> redis_pubsub \<Rightarrow> redis_pubsub" where
  "redis_setupRedisPool ps s =
     s\<lparr>r_pool := Some \<lparr>pool_host = str_get ps ParamHost, pool_password = ps ParamPassword\<rparr>\<rparr>"

text \<open>
  The \<^verbatim>\<open>Dial\<close> callback of the pool, with \<^verbatim>\<open>redis.Dial\<close> and
  \<^verbatim>\<open>AUTH\<close> as arguments: an empty password is not sent.
\<close>

definition redis_pool_Dial ::
  "(string \<Rightarrow> goerror + 'c) \<Rightarrow> ('c \<Rightarrow> string \<Rightarrow> goerror option) \<Rightarrow> redis_pool \<Rightarrow> goerror + 'c" where
  "redis_pool_Dial dial auth pool =
     (case dial (pool_host pool) of
        Inl err \<Rightarrow> Inl err
      | Inr c \<Rightarrow>
          (case pool_password pool of
             Some password \<Rightarrow>
               if password \<noteq> '''' then (case auth c password of Some err \<Rightarrow> Inl err | None \<Rightarrow> Inr c) else Inr c
           | None \<Rightarrow> Inr c))"

definition redis_Setup :: "unit \<Rightarrow> params \<Rightarrow> redis_pubsub \<Rightarrow> (redis_pubsub \<times> goerror option) go" where
  "redis_Setup _ ps s =
     Return ((redis_setupRedisPool ps s)\<lparr>r_cntInProgress := 0, r_cntConnected := 0, r_cntError := 0,
       r_cntErrorNotRecvAll := 0, r_cntSuccess := 0, r_cntMessagesRecv := 0, r_cntMessagesSend := 0,
       r_cntLatencyLessThan100ms := 0, r_cntLatencyLessThan500ms := 0,
       r_cntLatencyLessThan1000ms := 0, r_cntLatencyMoreThan1000ms := 0\<rparr>, None)"

definition redis_logError :: "redis_pubsub \<Rightarrow> redis_pubsub" where
  [session_defs]: "redis_logError s = s\<lparr>r_cntError := r_cntError s + 1\<rparr>"

definition redis_logLatency :: "int64 \<Rightarrow> redis_pubsub \<Rightarrow> redis_pubsub" where
  "redis_logLatency latency s =
     (if latency <s 100 then s\<lparr>r_cntLatencyLessThan100ms := r_cntLatencyLessThan100ms s + 1\<rparr>
      else if latency <s 500 then s\<lparr>r_cntLatencyLessThan500ms := r_cntLatencyLessThan500ms s + 1\<rparr>
      else if latency <s 1000 then s\<lparr>r_cntLatencyLessThan1000ms := r_cntLatencyLessThan1000ms s + 1\<rparr>
      else s\<lparr>r_cntLatencyMoreThan1000ms := r_cntLatencyMoreThan1000ms s + 1\<rparr>)"

subsection \<open>Execute\<close>

datatype redis_pc =
    RStart
  | REntered
  | RWaitStart
  | RPublish
  | RSleep
  | RReceive
  | RExit "goerror option"
  | RDisconnect "goerror option"
  | RReturn "goerror option"
  | RDone "goerror option"

datatype redis_reader = RNotStarted | RSubscribing | RCheckExit | RReceiving | RPushing int64 | REnded

record redis_user =
  r_ctx :: user_context
  r_pc :: redis_pc
  r_interval :: goint
  r_msgs :: goint
  r_sendIdx :: goint
  r_recvIdx :: goint
  r_started :: bool
  r_recvChan :: "int64 list"
  r_exit :: bool
  r_reader :: redis_reader

datatype redis_received = RMessage string | RErrorMsg goerror | ROther

datatype redis_event =
    RvGo
  | RvPublish redis_message int64 "goerror option"
  | RvTimeout
  | RvSubscribe string "goerror option"
  | RvReceive redis_received int64
  | RvPush

definition redis_start :: "user_context \<Rightarrow> redis_user" where
  "redis_start ctx = \<lparr>r_ctx = ctx, r_pc = RStart, r_interval = 0, r_msgs = 0, r_sendIdx = 0,
     r_recvIdx = 0, r_started = False, r_recvChan = [], r_exit = False, r_reader = RNotStarted\<rparr>"

text \<open>\<^verbatim>\<open>totalMsgCnt\<close>: the product wraps around, a zero interval divides by zero.\<close>

definition redis_total :: "params \<Rightarrow> goint \<Rightarrow> goint go" where
  "redis_total ps publishInterval = go_div (broadcast_duration_secs ps * 1000 * 1000) publishInterval"

definition redis_main ::
  "redis_pubsub \<Rightarrow> redis_user \<Rightarrow> redis_event \<Rightarrow> (redis_pubsub, redis_user) step_result" where
  "redis_main s l e =
     (case (r_pc l, e) of
        (RStart, RvGo) \<Rightarrow> Next (s\<lparr>r_cntInProgress := r_cntInProgress s + 1\<rparr>) (l\<lparr>r_pc := REntered\<rparr>)
      | (REntered, RvGo) \<Rightarrow>
          (case atoi (str_get (ctx_Params (r_ctx l)) ParamPublishInterval) of
             (_, Some err) \<Rightarrow> Next (redis_logError s) (l\<lparr>r_pc := RReturn (Some (num_error_text err))\<rparr>)
           | (publishInterval, None) \<Rightarrow>
               (case redis_total (ctx_Params (r_ctx l)) publishInterval of
                  Return totalMsgCnt \<Rightarrow>
                    if alloc_fits 8 (sint totalMsgCnt)
                    then Next s (l\<lparr>r_pc := RWaitStart, r_interval := publishInterval, r_msgs := totalMsgCnt,
                                   r_reader := RSubscribing\<rparr>)
                    else Crash MakeChanSize
                | Panic p \<Rightarrow> Crash p
                | Fatal _ \<Rightarrow> Disabled))
      | (RWaitStart, RvGo) \<Rightarrow>
          if r_started l then Next (s\<lparr>r_cntConnected := r_cntConnected s + 1\<rparr>) (l\<lparr>r_pc := RPublish\<rparr>)
          else Disabled
      | (RPublish, RvPublish msg now res) \<Rightarrow>
          if r_sendIdx l <s r_msgs l \<and> msg = \<lparr>msg_Uid = UserId (r_ctx l), msg_Timestamp = now\<rparr>
          then (case res of
                  Some err \<Rightarrow> Next (redis_logError s) (l\<lparr>r_pc := RDisconnect (Some err)\<rparr>)
                | None \<Rightarrow> Next (s\<lparr>r_cntMessagesSend := r_cntMessagesSend s + 1\<rparr>)
                              (l\<lparr>r_pc := RSleep, r_sendIdx := r_sendIdx l + 1\<rparr>))
          else Disabled
      | (RSleep, RvTimeout) \<Rightarrow> Next s (l\<lparr>r_pc := RPublish\<rparr>)
      | (RPublish, RvGo) \<Rightarrow> if r_sendIdx l <s r_msgs l then Disabled else Next s (l\<lparr>r_pc := RReceive\<rparr>)
      | (RReceive, RvGo) \<Rightarrow>
          if r_recvIdx l <s r_msgs l
          then (case r_recvChan l of
                  [] \<Rightarrow> Disabled
                | latency # rest \<Rightarrow>
                    Next (redis_logLatency latency s) (l\<lparr>r_recvIdx := r_recvIdx l + 1, r_recvChan := rest\<rparr>))
          else Next (s\<lparr>r_cntSuccess := r_cntSuccess s + 1\<rparr>) (l\<lparr>r_pc := RExit None\<rparr>)
      | (RReceive, RvTimeout) \<Rightarrow>
          if r_recvIdx l <s r_msgs l
          then Next (s\<lparr>r_cntErrorNotRecvAll := r_cntErrorNotRecvAll s + 1\<rparr>)
                 (l\<lparr>r_pc := RExit (Some ''fail to receive all messages within timeout'')\<rparr>)
          else Disabled
      | (RExit r, RvGo) \<Rightarrow> Next s (l\<lparr>r_pc := RDisconnect r, r_exit := True\<rparr>)
      | (RDisconnect r, RvGo) \<Rightarrow>
          Next (s\<lparr>r_cntConnected := r_cntConnected s - 1\<rparr>) (l\<lparr>r_pc := RReturn r\<rparr>)
      | (RReturn r, RvGo) \<Rightarrow>
          Next (s\<lparr>r_cntInProgress := r_cntInProgress s - 1\<rparr>) (l\<lparr>r_pc := RDone r\<rparr>)
      | _ \<Rightarrow> Disabled)"

text \<open>
  The subscriber goroutine. \<open>RvPush\<close> is its own step: the test of \<^verbatim>\<open>exit\<close> and the
  send to \<^verbatim>\<open>recvChan\<close>, which waits while the buffer is full.
\<close>

definition redis_sub ::
  "(string \<Rightarrow> goerror + redis_message) \<Rightarrow> redis_pubsub \<Rightarrow> redis_user \<Rightarrow> redis_event \<Rightarrow>
     (redis_pubsub, redis_user) step_result" where
  "redis_sub dec s l e =
     (case (r_reader l, e) of
        (RSubscribing, RvSubscribe ch res) \<Rightarrow>
          if r_pool s = None then Crash NilDereference
          else if ch = ''sigbench''
          then (case res of
                  Some err \<Rightarrow> Next (redis_logError s) (l\<lparr>r_reader := REnded\<rparr>)
                | None \<Rightarrow> Next s (l\<lparr>r_started := True, r_reader := RCheckExit\<rparr>))
          else Disabled
      | (RCheckExit, RvPush) \<Rightarrow> Next s (l\<lparr>r_reader := (if r_exit l then REnded else RReceiving)\<rparr>)
      | (RReceiving, RvReceive n now) \<Rightarrow>
          (case n of
             RMessage d \<Rightarrow>
               (let s1 = s\<lparr>r_cntMessagesRecv := r_cntMessagesRecv s + 1\<rparr> in
                case dec d of
                  Inl err \<Rightarrow> Next (redis_logError s1) (l\<lparr>r_reader := RCheckExit\<rparr>)
                | Inr msg \<Rightarrow>
                    if msg_Uid msg = UserId (r_ctx l)
                    then Next s1 (l\<lparr>r_reader := RPushing
                           (word_of_int (sint (now - msg_Timestamp msg) sdiv 1000000))\<rparr>)
                    else Next s1 (l\<lparr>r_reader := RCheckExit\<rparr>))
           | RErrorMsg err \<Rightarrow>
               Next (if err \<noteq> ''redigo: connection closed'' then redis_logError s else s)
                 (l\<lparr>r_reader := REnded\<rparr>)
           | ROther \<Rightarrow> Next s (l\<lparr>r_reader := RCheckExit\<rparr>))
      | (RPushing latency, RvPush) \<Rightarrow>
          if int (length (r_recvChan l)) < sint (r_msgs l)
          then Next s (l\<lparr>r_recvChan := r_recvChan l @ [latency], r_reader := RCheckExit\<rparr>)
          else Disabled
      | _ \<Rightarrow> Disabled)"

definition redis_step ::
  "(string \<Rightarrow> goerror + redis_message) \<Rightarrow> redis_pubsub \<Rightarrow> redis_user \<Rightarrow> redis_event \<Rightarrow>
     (redis_pubsub, redis_user) step_result" where
  "redis_step dec s l e =
     (case e of
        RvSubscribe _ _ \<Rightarrow> redis_sub dec s l e
      | RvReceive _ _ \<Rightarrow> redis_sub dec s l e
      | RvPush \<Rightarrow> redis_sub dec s l e
      | _ \<Rightarrow> redis_main s l e)"

definition redis_result :: "redis_user \<Rightarrow> goerror option option" where
  "redis_result l = (case r_pc l of RDone r \<Rightarrow> Some r | _ \<Rightarrow> None)"

definition redis_Counters :: "redis_pubsub \<Rightarrow> counters" where
  "redis_Counters s =
     [''redis:pubsub:inprogress'' \<mapsto> r_cntInProgress s,
      ''redis:pubsub:connected'' \<mapsto> r_cntConnected s,
      ''redis:pubsub:success'' \<mapsto> r_cntSuccess s,
      ''redis:pubsub:error'' \<mapsto> r_cntError s,
      ''redis:pubsub:error:notrecvall'' \<mapsto> r_cntErrorNotRecvAll s,
      ''redis:pubsub:messages:recv'' \<mapsto> r_cntMessagesRecv s,
      ''redis:pubsub:messages:send'' \<mapsto> r_cntMessagesSend s,
      ''redis:pubsub:latency:<100'' \<mapsto> r_cntLatencyLessThan100ms s,
      ''redis:pubsub:latency:<500'' \<mapsto> r_cntLatencyLessThan500ms s,
      ''redis:pubsub:latency:<1000'' \<mapsto> r_cntLatencyLessThan1000ms s,
      ''redis:pubsub:latency:>=1000'' \<mapsto> r_cntLatencyMoreThan1000ms s]"

subsection \<open>Accounting\<close>

definition redis_active :: "redis_user \<Rightarrow> bool" where
  [session_defs]: "redis_active l \<longleftrightarrow> (case r_pc l of RStart \<Rightarrow> False | RDone _ \<Rightarrow> False | _ \<Rightarrow> True)"

definition redis_connected :: "redis_user \<Rightarrow> bool" where
  [session_defs]: "redis_connected l \<longleftrightarrow>
     (case r_pc l of RPublish \<Rightarrow> True | RSleep \<Rightarrow> True | RReceive \<Rightarrow> True | RExit _ \<Rightarrow> True
      | RDisconnect _ \<Rightarrow> True | _ \<Rightarrow> False)"

definition redis_ok :: "redis_user \<Rightarrow> bool" where
  [session_defs]: "redis_ok l \<longleftrightarrow>
     (case r_pc l of RExit r \<Rightarrow> r = None | RDisconnect r \<Rightarrow> r = None | RReturn r \<Rightarrow> r = None
      | RDone r \<Rightarrow> r = None | _ \<Rightarrow> False)"

definition redis_latencies :: "redis_pubsub \<Rightarrow> int64" where
  "redis_latencies s = r_cntLatencyLessThan100ms s + r_cntLatencyLessThan500ms s
     + r_cntLatencyLessThan1000ms s + r_cntLatencyMoreThan1000ms s"

definition redis_fresh :: "redis_user \<Rightarrow> bool" where
  "redis_fresh l \<longleftrightarrow> r_sendIdx l = 0 \<and> r_recvIdx l = 0 \<and> r_reader l = RNotStarted"

definition redis_range :: "redis_user \<Rightarrow> bool" where
  "redis_range l \<longleftrightarrow> 0 \<le> sint (r_sendIdx l) \<and> sint (r_sendIdx l) \<le> sint (r_msgs l)
     \<and> 0 \<le> sint (r_recvIdx l) \<and> sint (r_recvIdx l) \<le> sint (r_msgs l)"

definition redis_complete :: "redis_user \<Rightarrow> bool" where
  "redis_complete l \<longleftrightarrow> 0 \<le> sint (r_msgs l) \<and> r_sendIdx l = r_msgs l \<and> r_recvIdx l = r_msgs l"

definition redis_inv :: "redis_user \<Rightarrow> bool" where
  "redis_inv l \<longleftrightarrow>
     (case r_pc l of
        RStart \<Rightarrow> redis_fresh l | REntered \<Rightarrow> redis_fresh l
      | RWaitStart \<Rightarrow> redis_range l | RPublish \<Rightarrow> redis_range l | RSleep \<Rightarrow> redis_range l
      | RReceive \<Rightarrow> redis_range l \<and> r_sendIdx l = r_msgs l
      | RExit r \<Rightarrow> (r = None \<longrightarrow> redis_complete l)
      | RDisconnect r \<Rightarrow> (r = None \<longrightarrow> redis_complete l)
      | RReturn r \<Rightarrow> (r = None \<longrightarrow> redis_complete l)
      | RDone r \<Rightarrow> (r = None \<longrightarrow> redis_complete l))"

lemma redis_inv_frame [simp]:
  "redis_fresh (l\<lparr>r_pc := p\<rparr>) = redis_fresh l" "redis_range (l\<lparr>r_pc := p\<rparr>) = redis_range l"
  "redis_complete (l\<lparr>r_pc := p\<rparr>) = redis_complete l"
  "redis_complete (l\<lparr>r_pc := p, r_exit := b\<rparr>) = redis_complete l"
  by (simp_all add: redis_fresh_def redis_range_def redis_complete_def)

lemma redis_inv_reader_frame [simp]:
  "redis_range (l\<lparr>r_reader := rd\<rparr>) = redis_range l" "redis_complete (l\<lparr>r_reader := rd\<rparr>) = redis_complete l"
  "redis_range (l\<lparr>r_started := b\<rparr>) = redis_range l" "redis_complete (l\<lparr>r_started := b\<rparr>) = redis_complete l"
  "redis_range (l\<lparr>r_recvChan := q\<rparr>) = redis_range l" "redis_complete (l\<lparr>r_recvChan := q\<rparr>) = redis_complete l"
  by (simp_all add: redis_range_def redis_complete_def)

lemma redis_fresh_range:
  "redis_fresh l \<Longrightarrow> alloc_fits 8 (sint n) \<Longrightarrow>
     redis_range (l\<lparr>r_pc := p, r_interval := i, r_msgs := n, r_reader := rd\<rparr>)"
  by (simp add: redis_fresh_def redis_range_def alloc_fits_def)

lemma redis_range_send:
  "redis_range l \<Longrightarrow> r_sendIdx l <s r_msgs l \<Longrightarrow> redis_range (l\<lparr>r_pc := p, r_sendIdx := r_sendIdx l + 1\<rparr>)"
  by (simp add: redis_range_def sint_Suc_less word_sless_alt)

lemma redis_range_recv:
  "redis_range l \<Longrightarrow> r_recvIdx l <s r_msgs l \<Longrightarrow>
     redis_range (l\<lparr>r_recvIdx := r_recvIdx l + 1, r_recvChan := q\<rparr>)"
  by (simp add: redis_range_def sint_Suc_less word_sless_alt)

lemma redis_range_done:
  assumes "redis_range l"
  shows "\<not> r_sendIdx l <s r_msgs l \<Longrightarrow> r_sendIdx l = r_msgs l"
    "r_sendIdx l = r_msgs l \<Longrightarrow> \<not> r_recvIdx l <s r_msgs l \<Longrightarrow> redis_complete l"
  using assms int64_eqI[of "r_sendIdx l" "r_msgs l"] int64_eqI[of "r_recvIdx l" "r_msgs l"]
  by (auto simp: redis_range_def redis_complete_def word_sless_alt)

text \<open>The counters that the accounting looks at, and what a user contributes to each.\<close>

definition redis_view :: "redis_pubsub \<Rightarrow> int64 list" where
  "redis_view s = [r_cntInProgress s, r_cntConnected s, r_cntSuccess s, r_cntMessagesSend s, redis_latencies s]"

definition redis_weight :: "redis_user \<Rightarrow> int64 list" where
  "redis_weight l = [of_bool (redis_active l), of_bool (redis_connected l), of_bool (redis_ok l),
     r_sendIdx l, r_recvIdx l]"

lemma redis_logLatency_view:
  "redis_view (redis_logLatency x s) =
     [r_cntInProgress s, r_cntConnected s, r_cntSuccess s, r_cntMessagesSend s, redis_latencies s + 1]"
  by (auto simp: redis_view_def redis_logLatency_def redis_latencies_def)

lemma redis_latencies_frame [simp]:
  "redis_latencies (s\<lparr>r_cntInProgress := x\<rparr>) = redis_latencies s"
  "redis_latencies (s\<lparr>r_cntConnected := x\<rparr>) = redis_latencies s"
  "redis_latencies (s\<lparr>r_cntError := x\<rparr>) = redis_latencies s"
  "redis_latencies (s\<lparr>r_cntErrorNotRecvAll := x\<rparr>) = redis_latencies s"
  "redis_latencies (s\<lparr>r_cntSuccess := x\<rparr>) = redis_latencies s"
  "redis_latencies (s\<lparr>r_cntMessagesRecv := x\<rparr>) = redis_latencies s"
  "redis_latencies (s\<lparr>r_cntMessagesRecv := x, r_cntError := y\<rparr>) = redis_latencies s"
  "redis_latencies (s\<lparr>r_cntMessagesSend := x\<rparr>) = redis_latencies s"
  by (simp_all add: redis_latencies_def)

lemmas redis_acct = redis_view_def redis_weight_def redis_inv_def redis_logError_def redis_active_def
  redis_connected_def redis_ok_def

lemma redis_main_counters:
  assumes "redis_main s l e = Next s' l'" and "redis_inv l"
  shows "redis_view s' = map2 (+) (redis_view s) (map2 (-) (redis_weight l') (redis_weight l)) \<and> redis_inv l'"
proof (cases "r_pc l")
  case REntered
  then show ?thesis using assms redis_fresh_range[of l]
    by (cases e; clarsimp simp: redis_main_def split: if_splits option.splits prod.splits go.splits;
        simp add: redis_acct)
next
  case RPublish
  then show ?thesis using assms redis_range_send[of l] redis_range_done(1)[of l]
    by (cases e; clarsimp simp: redis_main_def split: if_splits option.splits; simp add: redis_acct)
next
  case RReceive
  then show ?thesis
  proof (cases e)
    case RvGo
    with RReceive assms redis_range_recv[of l] redis_range_done(2)[of l] show ?thesis
      by (auto simp: redis_main_def redis_logLatency_view split: if_splits list.splits)
        (auto simp: redis_acct)
  qed (use RReceive assms in \<open>clarsimp simp: redis_main_def split: if_splits; simp add: redis_acct\<close>)+
qed (use assms in \<open>cases e; clarsimp simp: redis_main_def split: if_splits; simp add: redis_acct\<close>)+

lemma redis_sub_counters:
  assumes "redis_sub dec s l e = Next s' l'" and "redis_inv l"
  shows "redis_view s' = redis_view s \<and> redis_weight l' = redis_weight l \<and> redis_inv l'"
proof -
  have v: "redis_view s' = redis_view s" and nf: "r_reader l \<noteq> RNotStarted"
    using assms(1) by (auto simp: redis_sub_def Let_def redis_view_def redis_logError_def
        split: redis_reader.splits redis_event.splits redis_received.splits if_splits sum.splits option.splits)
  have l': "(\<exists>rd. l' = l\<lparr>r_reader := rd\<rparr>) \<or> (\<exists>rd. l' = l\<lparr>r_started := True, r_reader := rd\<rparr>)
      \<or> (\<exists>q rd. l' = l\<lparr>r_recvChan := q, r_reader := rd\<rparr>)"
    using assms(1) by (auto simp: redis_sub_def Let_def
        split: redis_reader.splits redis_event.splits redis_received.splits if_splits sum.splits option.splits)
  have "\<not> redis_fresh l" using nf by (simp add: redis_fresh_def)
  with l' v assms(2) show ?thesis
    by (cases "r_pc l") (auto simp: redis_weight_def redis_inv_def redis_active_def redis_connected_def redis_ok_def)
qed

lemma redis_step_counters:
  assumes "redis_step dec s l e = Next s' l'" and "redis_inv l"
  shows "redis_view s' = map2 (+) (redis_view s) (map2 (-) (redis_weight l') (redis_weight l)) \<and> redis_inv l'"
proof -
  have zero: "map2 (+) (redis_view s) (map2 (-) (redis_weight l) (redis_weight l)) = redis_view s"
    by (simp add: redis_view_def redis_weight_def)
  show ?thesis
    using assms redis_main_counters[of s l e s' l'] redis_sub_counters[of dec s l e s' l'] zero
    by (cases e) (auto simp: redis_step_def)
qed

lemma redis_step_fields:
  assumes "redis_step dec s l e = Next s' l'" and "redis_inv l"
  shows "r_cntInProgress s' = r_cntInProgress s + (of_bool (redis_active l') - of_bool (redis_active l))"
    "r_cntConnected s' = r_cntConnected s + (of_bool (redis_connected l') - of_bool (redis_connected l))"
    "r_cntSuccess s' = r_cntSuccess s + (of_bool (redis_ok l') - of_bool (redis_ok l))"
    "r_cntMessagesSend s' = r_cntMessagesSend s + (r_sendIdx l' - r_sendIdx l)"
    "redis_latencies s' = redis_latencies s + (r_recvIdx l' - r_recvIdx l)"
  using redis_step_counters[OF assms] by (simp_all add: redis_view_def redis_weight_def)

lemma redis_start_facts [simp]:
  "\<not> redis_active (redis_start ctx)" "\<not> redis_connected (redis_start ctx)" "\<not> redis_ok (redis_start ctx)"
  "r_sendIdx (redis_start ctx) = 0" "r_recvIdx (redis_start ctx) = 0" "redis_inv (redis_start ctx)"
  by (simp_all add: session_defs redis_start_def redis_inv_def redis_fresh_def)

interpretation redis_invariant: session_local_inv "redis_step dec" redis_start redis_inv for dec
  by unfold_locales (simp_all add: redis_step_counters)

interpretation redis_progress: session_gauge "redis_step dec" redis_start redis_inv r_cntInProgress
  "\<lambda>l. of_bool (redis_active l)" redis_active for dec
  by unfold_locales (simp_all add: redis_step_fields)

interpretation redis_connection: session_gauge "redis_step dec" redis_start redis_inv r_cntConnected
  "\<lambda>l. of_bool (redis_connected l)" redis_connected for dec
  by unfold_locales (simp_all add: redis_step_fields)

interpretation redis_success: session_gauge "redis_step dec" redis_start redis_inv r_cntSuccess
  "\<lambda>l. of_bool (redis_ok l)" redis_ok for dec
  by unfold_locales (simp_all add: redis_step_fields)

interpretation redis_sent: session_counter "redis_step dec" redis_start redis_inv r_cntMessagesSend r_sendIdx for dec
  by unfold_locales (simp_all add: redis_step_fields)

interpretation redis_latency: session_counter "redis_step dec" redis_start redis_inv redis_latencies r_recvIdx for dec
  by unfold_locales (simp_all add: redis_step_fields)

interpretation redis_session: session_api redis_Setup "\<lambda>s. Return (redis_Counters s)"
  by unfold_locales (auto simp: redis_Setup_def redis_Counters_def)

subsection \<open>What is logged when\<close>

text \<open>The parameters ask for \<open>n\<close> messages.\<close>

definition redis_asked :: "params \<Rightarrow> goint \<Rightarrow> bool" where
  "redis_asked ps n \<longleftrightarrow>
     (\<exists>interval. atoi (str_get ps ParamPublishInterval) = (interval, None) \<and> redis_total ps interval = Return n)"

definition redis_bound :: "redis_user \<Rightarrow> bool" where
  "redis_bound l \<longleftrightarrow>
     (case r_pc l of
        RStart \<Rightarrow> True | REntered \<Rightarrow> True
      | RReturn r \<Rightarrow> r \<noteq> None \<or> redis_asked (ctx_Params (r_ctx l)) (r_msgs l)
      | RDone r \<Rightarrow> r \<noteq> None \<or> redis_asked (ctx_Params (r_ctx l)) (r_msgs l)
      | _ \<Rightarrow> redis_asked (ctx_Params (r_ctx l)) (r_msgs l))"

text \<open>The answers that count as errors: every failed call, and every failure that the user finds itself.\<close>

definition redis_error :: "(string \<Rightarrow> goerror + redis_message) \<Rightarrow> redis_user \<Rightarrow> redis_event \<Rightarrow> bool" where
  "redis_error dec l e =
     (case e of
        RvGo \<Rightarrow> r_pc l = REntered \<and> snd (atoi (str_get (ctx_Params (r_ctx l)) ParamPublishInterval)) \<noteq> None
      | RvPublish _ _ res \<Rightarrow> res \<noteq> None
      | RvSubscribe _ res \<Rightarrow> res \<noteq> None
      | RvReceive (RMessage d) _ \<Rightarrow> isl (dec d)
      | RvReceive (RErrorMsg err) _ \<Rightarrow> err \<noteq> ''redigo: connection closed''
      | _ \<Rightarrow> False)"

definition redis_received :: "redis_user \<Rightarrow> redis_event \<Rightarrow> bool" where
  "redis_received l e \<longleftrightarrow> (\<exists>d now. e = RvReceive (RMessage d) now)"

text \<open>The user takes a latency of \<open>ms\<close> milliseconds out of \<^verbatim>\<open>recvChan\<close>.\<close>

definition redis_latency_in :: "int set \<Rightarrow> redis_user \<Rightarrow> redis_event \<Rightarrow> bool" where
  "redis_latency_in ms l e \<longleftrightarrow>
     r_pc l = RReceive \<and> e = RvGo \<and> r_recvIdx l <s r_msgs l \<and> sint (hd (r_recvChan l)) \<in> ms"

definition redis_logs :: "(string \<Rightarrow> goerror + redis_message) \<Rightarrow> redis_user \<Rightarrow> redis_event \<Rightarrow> bool list" where
  "redis_logs dec l e = [r_pc l = RReceive \<and> e = RvTimeout, redis_error dec l e, redis_received l e,
     redis_latency_in {..<100} l e, redis_latency_in {100..<500} l e,
     redis_latency_in {500..<1000} l e, redis_latency_in {1000..} l e]"

definition redis_logged :: "redis_pubsub \<Rightarrow> int64 list" where
  "redis_logged s = [r_cntErrorNotRecvAll s, r_cntError s, r_cntMessagesRecv s, r_cntLatencyLessThan100ms s,
     r_cntLatencyLessThan500ms s, r_cntLatencyLessThan1000ms s, r_cntLatencyMoreThan1000ms s]"

lemmas redis_log_defs = redis_logs_def redis_logged_def redis_error_def redis_received_def redis_latency_in_def redis_logError_def

lemma redis_bound_frame [simp]:
  "redis_bound (l\<lparr>r_reader := rd\<rparr>) = redis_bound l"
  "redis_bound (l\<lparr>r_started := b\<rparr>) = redis_bound l"
  "redis_bound (l\<lparr>r_recvChan := q\<rparr>) = redis_bound l"
  by (cases "r_pc l"; simp add: redis_bound_def)+

lemma redis_logLatency_logged:
  "redis_logged (redis_logLatency x s) = map2 (+) (redis_logged s) ([0, 0, 0] @
     map of_bool [sint x < 100, 100 \<le> sint x \<and> sint x < 500, 500 \<le> sint x \<and> sint x < 1000, 1000 \<le> sint x])"
  by (auto simp: redis_logLatency_def redis_logged_def word_sless_alt)

lemma redis_main_logs:
  assumes "redis_main s l e = Next s' l'"
  shows "redis_logged s' = map2 (+) (redis_logged s) (map of_bool (redis_logs dec l e)) \<and> (redis_bound l \<longrightarrow> redis_bound l')"
proof (cases "r_pc l = RReceive \<and> e = RvGo")
  case True
  with assms show ?thesis
    by (auto simp: redis_main_def redis_logLatency_logged split: if_splits list.splits)
      (simp_all add: redis_log_defs redis_bound_def)
next
  case False
  with assms show ?thesis
    by (cases "r_pc l"; cases e; clarsimp simp: redis_main_def split: if_splits option.splits prod.splits go.splits;
        simp add: redis_log_defs redis_bound_def redis_asked_def)
qed

lemma redis_sub_logs:
  assumes "redis_sub dec s l e = Next s' l'"
  shows "redis_logged s' = map2 (+) (redis_logged s) (map of_bool (redis_logs dec l e)) \<and> redis_bound l' = redis_bound l"
  using assms
  by (cases "r_reader l"; cases e; clarsimp simp: redis_sub_def Let_def
        split: redis_received.splits if_splits sum.splits option.splits; simp add: redis_log_defs)

lemma redis_step_logs:
  assumes "redis_step dec s l e = Next s' l'"
  shows "redis_logged s' = map2 (+) (redis_logged s) (map of_bool (redis_logs dec l e)) \<and> (redis_bound l \<longrightarrow> redis_bound l')"
proof -
  have "redis_main s l e = Next s' l' \<or> redis_sub dec s l e = Next s' l'"
    using assms by (cases e) (simp_all add: redis_step_def)
  then show ?thesis using redis_main_logs redis_sub_logs by blast
qed

interpretation redis_bounds: session_local_inv "redis_step dec" redis_start redis_bound for dec
  by unfold_locales (simp add: redis_bound_def redis_start_def, simp add: redis_step_logs)

subsection \<open>Properties\<close>

text \<open>
  C15: the Redis session's success is complete. In every interleaving after \<^verbatim>\<open>Setup\<close>, with any
  history: \<^verbatim>\<open>inprogress\<close>, \<^verbatim>\<open>connected\<close> and \<^verbatim>\<open>success\<close> are the users inside
  \<^verbatim>\<open>Execute\<close>, those between the subscription and the deferred disconnect, and those that return
  without an error; \<^verbatim>\<open>error\<close> counts each bad interval, failed publish, failed subscription, error
  received and message that cannot be decoded, \<^verbatim>\<open>error:notrecvall\<close> the timeouts of the receive
  loop, \<^verbatim>\<open>messages:recv\<close> and \<^verbatim>\<open>messages:send\<close> the messages received and published, and each bucket
  the latencies in its range; and a user that returns without an error has published and received
  back exactly \<^verbatim>\<open>broadcastDurationSecs * 1000 * 1000 / publishInterval\<close> messages.
\<close>

theorem redis_complete_pubsub:
  assumes "redis_Setup () ps s = Return (s0, None)"
    and "sys_trace (redis_step dec) redis_start s0 tr (s', ls)"
  shows "r_cntInProgress s' = word_of_nat (length (filter redis_active ls))
    \<and> r_cntConnected s' = word_of_nat (length (filter redis_connected ls))
    \<and> r_cntSuccess s' = word_of_nat (length (filter redis_ok ls))
    \<and> r_cntError s' = happened (redis_error dec) tr
    \<and> r_cntErrorNotRecvAll s' = happened (\<lambda>l e. r_pc l = RReceive \<and> e = RvTimeout) tr
    \<and> r_cntMessagesRecv s' = happened redis_received tr
    \<and> r_cntMessagesSend s' = sum_list (map r_sendIdx ls)
    \<and> r_cntLatencyLessThan100ms s' = happened (redis_latency_in {..<100}) tr
    \<and> r_cntLatencyLessThan500ms s' = happened (redis_latency_in {100..<500}) tr
    \<and> r_cntLatencyLessThan1000ms s' = happened (redis_latency_in {500..<1000}) tr
    \<and> r_cntLatencyMoreThan1000ms s' = happened (redis_latency_in {1000..}) tr
    \<and> redis_latencies s' = sum_list (map r_recvIdx ls)
    \<and> (\<forall>l \<in> set ls. redis_result l = Some None \<longrightarrow>
         redis_asked (ctx_Params (r_ctx l)) (r_msgs l) \<and> r_sendIdx l = r_msgs l \<and> r_recvIdx l = r_msgs l)"
proof -
  note reach = sys_trace_reach[OF assms(2)]
  have s0: "redis_logged s0 = replicate 7 0" "r_cntInProgress s0 = 0" "r_cntConnected s0 = 0" "r_cntSuccess s0 = 0"
    "r_cntMessagesSend s0 = 0" "redis_latencies s0 = 0"
    using assms(1) by (auto simp: redis_Setup_def redis_logged_def redis_latencies_def numeral_eq_Suc)
  have "redis_asked (ctx_Params (r_ctx l)) (r_msgs l) \<and> r_sendIdx l = r_msgs l \<and> r_recvIdx l = r_msgs l"
    if "l \<in> set ls" "redis_result l = Some None" for l
    using redis_invariant.reach_inv[OF reach that(1)] redis_bounds.reach_inv[OF reach that(1)] that(2)
    by (auto simp: redis_inv_def redis_result_def redis_complete_def redis_bound_def split: redis_pc.splits)
  moreover have "redis_logged s' = map2 (+) (redis_logged s0) (map (\<lambda>k. happened (\<lambda>l e. redis_logs dec l e ! k) tr) [0..<7])"
    by (rule trace_counts_list[OF assms(2)]) (simp add: redis_step_logs, simp_all add: redis_logged_def redis_logs_def)
  ultimately show ?thesis
    using redis_progress.gauge_counts[OF reach] redis_connection.gauge_counts[OF reach] redis_success.gauge_counts[OF reach]
      redis_sent.counter_is_sum[OF reach] redis_latency.counter_is_sum[OF reach] s0
    by (simp add: redis_logged_def redis_logs_def upt_rec numeral_eq_Suc)
qed

definition demo_redis :: redis_pubsub where
  "demo_redis = \<lparr>r_pool = Some \<lparr>pool_host = '''', pool_password = None\<rparr>, r_cntInProgress = 0,
     r_cntConnected = 0, r_cntError = 0, r_cntErrorNotRecvAll = 0, r_cntSuccess = 0, r_cntMessagesRecv = 0,
     r_cntMessagesSend = 0, r_cntLatencyLessThan100ms = 0, r_cntLatencyLessThan500ms = 0,
     r_cntLatencyLessThan1000ms = 0, r_cntLatencyMoreThan1000ms = 0\<rparr>"

definition demo_redis_ctx :: user_context where
  "demo_redis_ctx = \<lparr>UserId = ''u1'', ctx_Phase = ''p'',
     ctx_Params = [''publishInterval'' \<mapsto> ''1000000'', ''broadcastDurationSecs'' \<mapsto> ''1'']\<rparr>"

definition demo_redis_dec :: "string \<Rightarrow> goerror + redis_message" where
  "demo_redis_dec d = Inr \<lparr>msg_Uid = d, msg_Timestamp = 5\<rparr>"

definition demo_redis_run :: "redis_event list" where
  "demo_redis_run = [RvGo, RvGo, RvSubscribe ''sigbench'' None, RvGo,
     RvPublish \<lparr>msg_Uid = ''u1'', msg_Timestamp = 5\<rparr> 5 None, RvPush, RvReceive (RMessage ''u1'') 250000005,
     RvPush, RvTimeout, RvGo, RvGo, RvGo, RvGo, RvGo, RvGo]"

definition demo_redis_final :: redis_pubsub where
  "demo_redis_final = demo_redis\<lparr>r_cntSuccess := 1, r_cntMessagesRecv := 1, r_cntMessagesSend := 1,
     r_cntLatencyLessThan500ms := 1\<rparr>"

definition demo_redis_done :: redis_user where
  "demo_redis_done = \<lparr>r_ctx = demo_redis_ctx, r_pc = RDone None, r_interval = 1000000, r_msgs = 1,
     r_sendIdx = 1, r_recvIdx = 1, r_started = True, r_recvChan = [], r_exit = True, r_reader = RCheckExit\<rparr>"

lemma demo_redis_params [simp]:
  "UserId demo_redis_ctx = ''u1''"
  "atoi (str_get (ctx_Params demo_redis_ctx) ParamPublishInterval) = (1000000, None)"
  "redis_total (ctx_Params demo_redis_ctx) 1000000 = Return 1"
  by (simp_all add: demo_redis_ctx_def str_get_def ParamPublishInterval_def ParamBroadcastDurationSecs_def
      atoi_def parse_int_def parse_uint_def digit_val_def redis_total_def broadcast_duration_secs_def go_div_def)

lemma demo_redis_run_result:
  "run_events (redis_step demo_redis_dec) demo_redis (redis_start demo_redis_ctx) demo_redis_run =
     Next demo_redis_final demo_redis_done"
  by (simp add: demo_redis_run_def redis_step_def redis_main_def redis_sub_def redis_start_def
      demo_redis_def demo_redis_dec_def demo_redis_final_def demo_redis_done_def alloc_fits_def
      redis_logLatency_def word_sless_alt Let_def)

lemma demo_redis_Setup: "redis_Setup () Map.empty (demo_redis\<lparr>r_cntError := 4\<rparr>) = Return (demo_redis, None)"
  by (simp add: redis_Setup_def redis_setupRedisPool_def demo_redis_def str_get_def)

theorem redis_complete_pubsub_witness:
  "\<exists>tr. sys_trace (redis_step demo_redis_dec) redis_start demo_redis tr (demo_redis_final, [demo_redis_done])
    \<and> happened (redis_latency_in {100..<500}) tr = 1 \<and> happened redis_received tr = 1
    \<and> redis_asked (ctx_Params demo_redis_ctx) 1 \<and> r_sendIdx demo_redis_done = 1"
proof -
  note tr = run_events_trace[where start = redis_start, OF demo_redis_run_result]
  have "r_cntLatencyLessThan500ms demo_redis_final = 1" "r_cntMessagesRecv demo_redis_final = 1"
    "redis_result demo_redis_done = Some None" "r_ctx demo_redis_done = demo_redis_ctx" "r_msgs demo_redis_done = 1"
    by (simp_all add: demo_redis_final_def demo_redis_done_def redis_result_def)
  with redis_complete_pubsub[OF demo_redis_Setup tr] tr show ?thesis by fastforce
qed

text \<open>
  C37: when \<^verbatim>\<open>Subscribe\<close> fails, the subscriber goroutine returns without closing
  \<^verbatim>\<open>startChan\<close>, and \<^verbatim>\<open>Execute\<close> waits for it forever: no event is a step
  of this user any more, in any state of the session, so the user stays counted as in progress.
\<close>

theorem redis_subscribe_hang:
  assumes "run_events (redis_step dec) s (l\<lparr>r_pc := RWaitStart, r_started := False, r_reader := RSubscribing\<rparr>)
      [RvSubscribe ''sigbench'' (Some err)] = Next s' l'"
  shows "(\<forall>s'' e. redis_step dec s'' l' e = Disabled) \<and> redis_result l' = None \<and> redis_active l'"
proof -
  have l': "l' = l\<lparr>r_pc := RWaitStart, r_started := False, r_reader := REnded\<rparr>"
    using assms by (auto simp: redis_step_def redis_sub_def split: if_splits)
  have "redis_step dec s'' l' e = Disabled" for s'' e
    by (cases e) (simp_all add: redis_step_def redis_sub_def redis_main_def l')
  then show ?thesis by (simp add: redis_result_def redis_active_def l')
qed

theorem redis_subscribe_hang_witness:
  "\<forall>e. redis_step demo_redis_dec demo_redis
     (demo_redis_done\<lparr>r_pc := RWaitStart, r_started := False, r_reader := REnded\<rparr>) e = Disabled"
  using redis_subscribe_hang[of demo_redis_dec demo_redis demo_redis_done "''refused''"
      "demo_redis\<lparr>r_cntError := 1\<rparr>" "demo_redis_done\<lparr>r_pc := RWaitStart, r_started := False, r_reader := REnded\<rparr>"]
  by (simp add: redis_step_def redis_sub_def demo_redis_def redis_logError_def)

end
