(* ===== verification/RabbitMQ_Queue.thy ===== *)
theory RabbitMQ_Queue
  imports Session_Machine
begin

text \<open>
  \<^verbatim>\<open>sessions/rabbitmq_massive_queue.go\<close>: the pool of connections and the session that
  declares queues, publishes to them and consumes from them. A user is the goroutine of
  \<^verbatim>\<open>Execute\<close>, which is inside \<^verbatim>\<open>doQueue\<close> for the queue \<open>q_idx\<close>, and
  the consumer goroutine of that queue, which hands its result over on the unbuffered
  \<^verbatim>\<open>exitChan\<close>. Calls of the AMQP client are events. Of an error made with
  \<^verbatim>\<open>fmt.Errorf\<close> the constant text and, where the format has one, the argument are kept.
\<close>

subsection \<open>The connection pool\<close>

record 'c rabbit_pool =
  rp_url :: string
  rp_conns :: "'c list"

definition NewRabbitMQChannelPool :: "string \<Rightarrow> 'c rabbit_pool" where
  "NewRabbitMQChannelPool url = \<lparr>rp_url = url, rp_conns = []\<rparr>"

text \<open>
  The answers of the library during one call of \<^verbatim>\<open>Channel\<close>: which connections can open
  a channel in the pass without and in the pass with the lock, the answer of
  \<^verbatim>\<open>amqp.Dial\<close> for the pool's url, and of \<^verbatim>\<open>Channel\<close> on the new connection. The
  call is one step, taken when it returns from the first pass or while it has the lock; what the
  pool was when a first pass failed earlier does not matter, since \<open>ce_first\<close> may then refuse
  every connection.
\<close>

record 'c channel_env =
  ce_first :: "'c \<Rightarrow> bool"
  ce_second :: "'c \<Rightarrow> bool"
  ce_dial :: "string \<Rightarrow> goerror + 'c"
  ce_new :: "'c \<Rightarrow> goerror option"

definition rabbit_Channel :: "'c channel_env \<Rightarrow> 'c rabbit_pool \<Rightarrow> 'c rabbit_pool \<times> (goerror + 'c)" where
  "rabbit_Channel env p =
     (case find (ce_first env) (rp_conns p) of
        Some c \<Rightarrow> (p, Inr c)
      | None \<Rightarrow>
          (case find (ce_second env) (rp_conns p) of
             Some c \<Rightarrow> (p, Inr c)
           | None \<Rightarrow>
               (case ce_dial env (rp_url p) of
                  Inl err \<Rightarrow> (p, Inl err)
                | Inr c \<Rightarrow>
                    (case ce_new env c of
                       Some err \<Rightarrow> (p, Inl err)
                     | None \<Rightarrow> (p\<lparr>rp_conns := rp_conns p @ [c]\<rparr>, Inr c)))))"

definition rabbit_pool_Close :: "'c rabbit_pool \<Rightarrow> 'c rabbit_pool" where
  "rabbit_pool_Close p = p\<lparr>rp_conns := []\<rparr>"

subsection \<open>Setup\<close>

type_synonym amqp_connection = nat

record rabbit_queue =
  q_cntInProgress :: int64
  q_cntError :: int64
  q_cntSuccess :: int64
  q_cntPublished :: int64
  q_cntReceived :: int64
  q_connPool :: "amqp_connection rabbit_pool option"
  q_payload :: "8 word list"
  q_queues :: goint
  q_queueMessages :: goint
  q_queueType :: string
  q_msgDeliveryMode :: "8 word"

definition rabbit_Name :: string where
  [simp]: "rabbit_Name = ''RabbitMQ:MassiveQueue''"

definition rabbit_reset :: "params \<Rightarrow> rabbit_queue \<Rightarrow> rabbit_queue" where
  "rabbit_reset ps s =
     s\<lparr>q_cntInProgress := 0, q_cntError := 0, q_cntSuccess := 0, q_cntPublished := 0, q_cntReceived := 0,
       q_connPool := Some (case q_connPool s of
                             None \<Rightarrow> NewRabbitMQChannelPool (str_get ps ''url'')
                           | Some p \<Rightarrow> rabbit_pool_Close p)\<rparr>"

definition rabbit_Setup ::
  "(nat \<Rightarrow> 8 word) \<Rightarrow> params \<Rightarrow> rabbit_queue \<Rightarrow> (rabbit_queue \<times> goerror option) go" where
  "rabbit_Setup rnd ps s =
     (let s0 = rabbit_reset ps s in
      case param_int ps ''messageSize'' 100 of
        (_, Some e) \<Rightarrow> Return (s0, Some (num_error_text e))
      | (payloadSize, None) \<Rightarrow>
          go_bind (make_payload rnd payloadSize) (\<lambda>payload.
            case param_int ps ''queues'' 1 of
              (queues, Some e) \<Rightarrow>
                Return (s0\<lparr>q_payload := payload, q_queues := queues\<rparr>, Some (num_error_text e))
            | (queues, None) \<Rightarrow>
                (case param_int ps ''queueMessages'' 1 of
                   (n, Some e) \<Rightarrow>
                     Return (s0\<lparr>q_payload := payload, q_queues := queues, q_queueMessages := n\<rparr>,
                             Some (num_error_text e))
                 | (n, None) \<Rightarrow>
                     (let s1 = s0\<lparr>q_payload := payload, q_queues := queues, q_queueMessages := n,
                                  q_queueType := str_get ps ''queueType'', q_msgDeliveryMode := 0\<rparr> in
                      case param_int ps ''deliveryMode'' 0 of
                        (_, Some e) \<Rightarrow> Return (s1, Some (num_error_text e))
                      | (deliveryMode, None) \<Rightarrow> Return (s1\<lparr>q_msgDeliveryMode := ucast deliveryMode\<rparr>, None)))))"

definition rabbit_logError :: "rabbit_queue \<Rightarrow> rabbit_queue" where
  [session_defs]: "rabbit_logError s = s\<lparr>q_cntError := q_cntError s + 1\<rparr>"

subsection \<open>Execute and doQueue\<close>

datatype rabbit_pc =
    QLoop
  | QOpenPub
  | QDeclare
  | QOpenSub
  | QConsume
  | QPublish goint
  | QWait
  | QDelete "goerror option"
  | QRet "goerror option"
  | QAfter "goerror option"
  | QDone "goerror option"

datatype rabbit_sub =
    SubNone
  | SubRecv goint
  | SubAck goint
  | SubSend "goerror option"
  | SubEnded

record rabbit_user =
  q_ctx :: user_context
  q_pc :: rabbit_pc
  q_idx :: goint
  q_sub :: rabbit_sub

datatype rabbit_event =
    QvGo
  | QvChannel "amqp_connection channel_env"
  | QvDeclare string string "goerror option"
  | QvConsume string string "goerror option"
  | QvPublish string "8 word list" "8 word" "goerror option"
  | QvExit
  | QvMsg bool
  | QvAck "goerror option"
  | QvSubEnd

definition rabbit_start :: "user_context \<Rightarrow> rabbit_user" where
  "rabbit_start ctx = \<lparr>q_ctx = ctx, q_pc = QLoop, q_idx = 0, q_sub = SubNone\<rparr>"

definition rabbit_name :: "string \<Rightarrow> rabbit_user \<Rightarrow> string" where
  "rabbit_name prefix l = prefix @ ''-'' @ UserId (q_ctx l) @ ''-'' @ format_int (q_idx l)"

text \<open>A call of \<^verbatim>\<open>s.connPool.Channel()\<close>; the pool is nil before the first \<^verbatim>\<open>Setup\<close>.\<close>

definition rabbit_open ::
  "amqp_connection channel_env \<Rightarrow> rabbit_queue \<Rightarrow> (rabbit_queue \<times> goerror option) go" where
  "rabbit_open env s =
     (case q_connPool s of
        None \<Rightarrow> Panic NilDereference
      | Some p \<Rightarrow>
          (case rabbit_Channel env p of
             (p', Inl err) \<Rightarrow> Return (s\<lparr>q_connPool := Some p'\<rparr>, Some err)
           | (p', Inr _) \<Rightarrow> Return (s\<lparr>q_connPool := Some p'\<rparr>, None)))"

text \<open>
  \<open>rabbit_after_open s l r ok err\<close>: go on with \<open>ok\<close> when the channel is open, with
  \<open>err\<close> after the error is logged.
\<close>

definition rabbit_after_open where
  "rabbit_after_open env s l ok err =
     (case rabbit_open env s of
        Return (s', None) \<Rightarrow> Next s' (l\<lparr>q_pc := ok\<rparr>)
      | Return (s', Some e) \<Rightarrow> Next (rabbit_logError s') (l\<lparr>q_pc := err e\<rparr>)
      | Panic p \<Rightarrow> Crash p
      | Fatal _ \<Rightarrow> Disabled)"

definition rabbit_main ::
  "rabbit_queue \<Rightarrow> rabbit_user \<Rightarrow> rabbit_event \<Rightarrow> (rabbit_queue, rabbit_user) step_result" where
  "rabbit_main s l e =
     (case (q_pc l, e) of
        (QLoop, QvGo) \<Rightarrow>
          if q_idx l <s q_queues s
          then Next (s\<lparr>q_cntInProgress := q_cntInProgress s + 1\<rparr>) (l\<lparr>q_pc := QOpenPub\<rparr>)
          else Next s (l\<lparr>q_pc := QDone None\<rparr>)
      | (QOpenPub, QvChannel env) \<Rightarrow> rabbit_after_open env s l QDeclare (\<lambda>err. QRet (Some err))
      | (QDeclare, QvDeclare name qtype res) \<Rightarrow>
          if name = rabbit_name ''q'' l \<and> qtype = q_queueType s
          then (case res of
                  Some err \<Rightarrow> Next s (l\<lparr>q_pc := QRet (Some (''Fail to declare a queue: '' @ err))\<rparr>)
                | None \<Rightarrow>
                    if 0 <s q_queueMessages s then Next s (l\<lparr>q_pc := QOpenSub\<rparr>)
                    else Next s (l\<lparr>q_pc := QPublish 0, q_sub := SubRecv 0\<rparr>))
          else Disabled
      | (QOpenSub, QvChannel env) \<Rightarrow> rabbit_after_open env s l QConsume (\<lambda>err. QDelete (Some err))
      | (QConsume, QvConsume name cid res) \<Rightarrow>
          if name = rabbit_name ''q'' l \<and> cid = rabbit_name ''c'' l
          then (case res of
                  Some err \<Rightarrow> Next (rabbit_logError s) (l\<lparr>q_pc := QDelete (Some err)\<rparr>)
                | None \<Rightarrow> Next s (l\<lparr>q_pc := QPublish 0, q_sub := SubRecv 0\<rparr>))
          else Disabled
      | (QPublish i, QvPublish name payload mode res) \<Rightarrow>
          if i <s q_queueMessages s \<and> name = rabbit_name ''q'' l \<and> payload = q_payload s \<and> mode = q_msgDeliveryMode s
          then (case res of
                  Some err \<Rightarrow> Next (rabbit_logError s) (l\<lparr>q_pc := QDelete (Some err)\<rparr>)
                | None \<Rightarrow> Next (s\<lparr>q_cntPublished := q_cntPublished s + 1\<rparr>) (l\<lparr>q_pc := QPublish (i + 1)\<rparr>))
          else Disabled
      | (QPublish i, QvGo) \<Rightarrow> if i <s q_queueMessages s then Disabled else Next s (l\<lparr>q_pc := QWait\<rparr>)
      | (QWait, QvExit) \<Rightarrow>
          (case q_sub l of
             SubSend r \<Rightarrow> Next s (l\<lparr>q_pc := QDelete r, q_sub := SubEnded\<rparr>)
           | _ \<Rightarrow> Disabled)
      | (QDelete r, QvChannel env) \<Rightarrow> rabbit_after_open env s l (QRet r) (\<lambda>err. QRet r)
      | (QRet r, QvGo) \<Rightarrow>
          Next (s\<lparr>q_cntInProgress := q_cntInProgress s - 1\<rparr>) (l\<lparr>q_pc := QAfter r\<rparr>)
      | (QAfter r, QvGo) \<Rightarrow>
          (case r of
             Some err \<Rightarrow> Next (rabbit_logError s) (l\<lparr>q_pc := QDone (Some err)\<rparr>)
           | None \<Rightarrow> Next (s\<lparr>q_cntSuccess := q_cntSuccess s + 1\<rparr>) (l\<lparr>q_pc := QLoop, q_idx := q_idx l + 1\<rparr>))
      | _ \<Rightarrow> Disabled)"

text \<open>The consumer goroutine.\<close>

definition rabbit_consume ::
  "rabbit_queue \<Rightarrow> rabbit_user \<Rightarrow> rabbit_event \<Rightarrow> (rabbit_queue, rabbit_user) step_result" where
  "rabbit_consume s l e =
     (case (q_sub l, e) of
        (SubRecv i, QvMsg ok) \<Rightarrow>
          if i <s q_queueMessages s
          then Next s (l\<lparr>q_sub := (if ok then SubAck i else SubSend (Some ''Queue closed too early''))\<rparr>)
          else Disabled
      | (SubRecv i, QvSubEnd) \<Rightarrow>
          if i <s q_queueMessages s then Disabled else Next s (l\<lparr>q_sub := SubSend None\<rparr>)
      | (SubAck i, QvAck res) \<Rightarrow>
          (case res of
             Some err \<Rightarrow> Next s (l\<lparr>q_sub := SubSend (Some ''Fail to ack'')\<rparr>)
           | None \<Rightarrow> Next (s\<lparr>q_cntReceived := q_cntReceived s + 1\<rparr>) (l\<lparr>q_sub := SubRecv (i + 1)\<rparr>))
      | _ \<Rightarrow> Disabled)"

definition rabbit_step ::
  "rabbit_queue \<Rightarrow> rabbit_user \<Rightarrow> rabbit_event \<Rightarrow> (rabbit_queue, rabbit_user) step_result" where
  "rabbit_step s l e =
     (case e of
        QvMsg _ \<Rightarrow> rabbit_consume s l e
      | QvAck _ \<Rightarrow> rabbit_consume s l e
      | QvSubEnd \<Rightarrow> rabbit_consume s l e
      | _ \<Rightarrow> rabbit_main s l e)"

definition rabbit_result :: "rabbit_user \<Rightarrow> goerror option option" where
  "rabbit_result l = (case q_pc l of QDone r \<Rightarrow> Some r | _ \<Rightarrow> None)"

definition rabbit_Counters :: "rabbit_queue \<Rightarrow> counters" where
  "rabbit_Counters s =
     [''rabbitmq:massive_queue:inprogress'' \<mapsto> q_cntInProgress s,
      ''rabbitmq:massive_queue:success'' \<mapsto> q_cntSuccess s,
      ''rabbitmq:massive_queue:error'' \<mapsto> q_cntError s,
      ''rabbitmq:massive_queue:msg_published'' \<mapsto> q_cntPublished s,
      ''rabbitmq:massive_queue:msg_received'' \<mapsto> q_cntReceived s]"

subsection \<open>The pool's contract\<close>

lemma find_Some_mem: "find P xs = Some c \<Longrightarrow> c \<in> set xs"
  by (auto simp: find_Some_iff)

text \<open>
  What the RabbitMQ connection pool promises. \<^verbatim>\<open>Channel\<close> never changes the url;
  a failure leaves the pool as it was; a success returns a channel on a connection that is in
  the pool afterwards; and the pool grows, by exactly one connection dialled at its url, only
  when no pooled connection could open a channel.
\<close>

theorem rabbit_Channel_contract:
  assumes "rabbit_Channel env p = (p', r)"
  shows "rp_url p' = rp_url p \<and> (\<forall>err. r = Inl err \<longrightarrow> p' = p) \<and> (\<forall>c. r = Inr c \<longrightarrow> c \<in> set (rp_conns p'))
    \<and> (p' = p \<or> (\<exists>c. ce_dial env (rp_url p) = Inr c \<and> rp_conns p' = rp_conns p @ [c]
         \<and> (\<forall>c' \<in> set (rp_conns p). \<not> ce_first env c' \<and> \<not> ce_second env c')))"
proof (cases "find (ce_first env) (rp_conns p)")
  case None
  then show ?thesis
  proof (cases "find (ce_second env) (rp_conns p)")
    case none2: None
    then have "\<forall>c' \<in> set (rp_conns p). \<not> ce_first env c' \<and> \<not> ce_second env c'"
      using None by (simp add: find_None_iff)
    with None none2 assms show ?thesis
      by (cases "ce_dial env (rp_url p)") (auto simp: rabbit_Channel_def split: option.splits)
  qed (use None assms in \<open>auto simp: rabbit_Channel_def dest: find_Some_mem\<close>)
qed (use assms in \<open>auto simp: rabbit_Channel_def dest: find_Some_mem\<close>)

definition demo_channel_env :: "nat channel_env" where
  "demo_channel_env = \<lparr>ce_first = (\<lambda>c. False), ce_second = (\<lambda>c. False), ce_dial = (\<lambda>url. Inr 7),
     ce_new = (\<lambda>c. None)\<rparr>"

theorem rabbit_Channel_contract_witness:
  "7 \<in> set (rp_conns (\<lparr>rp_url = ''amqp'', rp_conns = [3, 7 :: nat]\<rparr> :: nat rabbit_pool))
   \<and> rabbit_Channel demo_channel_env \<lparr>rp_url = ''amqp'', rp_conns = [3]\<rparr> =
       (\<lparr>rp_url = ''amqp'', rp_conns = [3, 7]\<rparr>, Inr 7)"
proof -
  have ch: "rabbit_Channel demo_channel_env \<lparr>rp_url = ''amqp'', rp_conns = [3]\<rparr> =
       (\<lparr>rp_url = ''amqp'', rp_conns = [3, 7]\<rparr>, Inr 7)"
    by (simp add: rabbit_Channel_def demo_channel_env_def)
  then show ?thesis using rabbit_Channel_contract[OF ch] by blast
qed

lemma rabbit_open_frame:
  assumes "rabbit_open env s = Return (s', err)"
  shows "\<exists>p. s' = s\<lparr>q_connPool := Some p\<rparr>"
  using assms by (auto simp: rabbit_open_def split: option.splits prod.splits sum.splits)

subsection \<open>Accounting\<close>

definition rabbit_active :: "rabbit_user \<Rightarrow> bool" where
  [session_defs]: "rabbit_active l \<longleftrightarrow>
     (case q_pc l of QLoop \<Rightarrow> False | QAfter _ \<Rightarrow> False | QDone _ \<Rightarrow> False | _ \<Rightarrow> True)"

lemma rabbit_after_open_Next:
  assumes "rabbit_after_open env s l ok err = Next s' l'"
  shows "\<exists>pool n p. s' = s\<lparr>q_connPool := pool, q_cntError := n\<rparr> \<and> l' = l\<lparr>q_pc := p\<rparr> \<and> (p = ok \<or> (\<exists>e. p = err e))"
  using assms
  by (fastforce simp: rabbit_after_open_def rabbit_logError_def split: go.splits prod.splits option.splits
      dest: rabbit_open_frame intro: exI[of _ "q_cntError s"])

lemma rabbit_main_counters:
  assumes "rabbit_main s l e = Next s' l'"
  shows "q_cntInProgress s' = q_cntInProgress s + (of_bool (rabbit_active l') - of_bool (rabbit_active l))
    \<and> q_cntSuccess s' = q_cntSuccess s + (q_idx l' - q_idx l)"
  using assms
  by (cases "q_pc l")
    (auto simp: rabbit_main_def session_defs split: if_splits option.splits rabbit_event.splits rabbit_sub.splits
      dest!: rabbit_after_open_Next)

lemma rabbit_step_counters:
  assumes "rabbit_step s l e = Next s' l'"
  shows "q_cntInProgress s' = q_cntInProgress s + (of_bool (rabbit_active l') - of_bool (rabbit_active l))"
    "q_cntSuccess s' = q_cntSuccess s + (q_idx l' - q_idx l)"
  using assms rabbit_main_counters[of s l e s' l']
  by (cases e; auto simp: rabbit_step_def rabbit_consume_def session_defs split: rabbit_sub.splits if_splits option.splits)+

lemma rabbit_start_facts [simp]: "\<not> rabbit_active (rabbit_start ctx)" "q_idx (rabbit_start ctx) = 0"
  by (simp_all add: rabbit_active_def rabbit_start_def)

interpretation rabbit_progress: session_gauge rabbit_step rabbit_start "\<lambda>_. True" q_cntInProgress
  "\<lambda>l. of_bool (rabbit_active l)" rabbit_active
  by unfold_locales (simp_all add: rabbit_step_counters)

interpretation rabbit_success: session_counter rabbit_step rabbit_start "\<lambda>_. True" q_cntSuccess q_idx
  by unfold_locales (simp_all add: rabbit_step_counters)

lemma rabbit_Setup_counters:
  assumes "rabbit_Setup rnd ps s = Return (s', err)"
  shows "q_cntInProgress s' = 0" "q_cntError s' = 0" "q_cntSuccess s' = 0" "q_cntPublished s' = 0"
    "q_cntReceived s' = 0" "q_connPool s' = q_connPool (rabbit_reset ps s)"
  using assms
  by (auto simp: rabbit_Setup_def rabbit_reset_def Let_def split_beta split: option.splits)

interpretation rabbit_session: session_api rabbit_Setup "\<lambda>s. Return (rabbit_Counters s)"
  by unfold_locales (simp add: rabbit_Counters_def rabbit_Setup_counters)

subsection \<open>Properties\<close>

text \<open>
  \<^verbatim>\<open>Setup\<close> of the RabbitMQ session creates the pool only once. A second
  \<^verbatim>\<open>Setup\<close> empties the pool and keeps the url of the first, whatever
  \<^verbatim>\<open>url\<close> the new parameters name.
\<close>

theorem rabbit_Setup_keeps_url:
  assumes "rabbit_Setup rnd ps s = Return (s', err)" and "q_connPool s = Some p"
  shows "q_connPool s' = Some \<lparr>rp_url = rp_url p, rp_conns = []\<rparr>"
  using rabbit_Setup_counters(6)[OF assms(1)] assms(2)
  by (simp add: rabbit_reset_def rabbit_pool_Close_def)

definition demo_rabbit :: rabbit_queue where
  "demo_rabbit = \<lparr>q_cntInProgress = 0, q_cntError = 0, q_cntSuccess = 0, q_cntPublished = 0, q_cntReceived = 0,
     q_connPool = Some \<lparr>rp_url = ''amqp://a'', rp_conns = []\<rparr>, q_payload = [7], q_queues = 1,
     q_queueMessages = 1, q_queueType = '''', q_msgDeliveryMode = 2\<rparr>"

lemma demo_rabbit_Setup:
  "rabbit_Setup (\<lambda>_. 7) [''url'' \<mapsto> ''amqp://b'', ''messageSize'' \<mapsto> ''1'', ''deliveryMode'' \<mapsto> ''258'']
     (demo_rabbit\<lparr>q_connPool := Some \<lparr>rp_url = ''amqp://a'', rp_conns = [3]\<rparr>\<rparr>) = Return (demo_rabbit, None)"
  by code_simp

theorem rabbit_Setup_keeps_url_witness:
  "q_connPool demo_rabbit = Some \<lparr>rp_url = ''amqp://a'', rp_conns = []\<rparr>"
  using rabbit_Setup_keeps_url[OF demo_rabbit_Setup] by simp

text \<open>
  C21: in every interleaving after \<^verbatim>\<open>Setup\<close>, \<^verbatim>\<open>inprogress\<close> of the RabbitMQ
  session is the number of users inside \<^verbatim>\<open>doQueue\<close>, and \<^verbatim>\<open>success\<close> is the
  sum over the users of the queues they have finished.
\<close>

theorem rabbit_accounting:
  assumes "rabbit_Setup rnd ps s = Return (s0, None)"
    and "sys_reach rabbit_step rabbit_start s0 (s', ls)"
  shows "cnt_get (rabbit_Counters s') ''rabbitmq:massive_queue:inprogress'' =
      word_of_nat (length (filter rabbit_active ls))
    \<and> cnt_get (rabbit_Counters s') ''rabbitmq:massive_queue:success'' = sum_list (map q_idx ls)"
  using rabbit_progress.gauge_counts[OF assms(2)] rabbit_success.counter_is_sum[OF assms(2)]
    rabbit_Setup_counters[OF assms(1)]
  by (simp add: rabbit_Counters_def)

definition demo_rabbit_ctx :: user_context where
  "demo_rabbit_ctx = \<lparr>UserId = ''u1'', ctx_Phase = ''p'', ctx_Params = Map.empty\<rparr>"

definition demo_rabbit_run :: "rabbit_event list" where
  "demo_rabbit_run = [QvGo, QvChannel demo_channel_env, QvDeclare ''q-u1-0'' '''' None,
     QvChannel demo_channel_env, QvConsume ''q-u1-0'' ''c-u1-0'' None, QvPublish ''q-u1-0'' [7] 2 None, QvGo,
     QvMsg True, QvAck None, QvSubEnd, QvExit, QvChannel demo_channel_env, QvGo, QvGo, QvGo]"

definition demo_rabbit_final :: rabbit_queue where
  "demo_rabbit_final = demo_rabbit\<lparr>q_cntSuccess := 1, q_cntPublished := 1, q_cntReceived := 1,
     q_connPool := Some \<lparr>rp_url = ''amqp://a'', rp_conns = [7, 7, 7]\<rparr>\<rparr>"

definition demo_rabbit_done :: rabbit_user where
  "demo_rabbit_done = \<lparr>q_ctx = demo_rabbit_ctx, q_pc = QDone None, q_idx = 1, q_sub = SubEnded\<rparr>"

lemma demo_format_0: "format_int 0 = ''0''"
  by code_simp

lemma demo_rabbit_run_result:
  "run_events rabbit_step demo_rabbit (rabbit_start demo_rabbit_ctx) demo_rabbit_run =
     Next demo_rabbit_final demo_rabbit_done"
  by (simp add: demo_rabbit_run_def rabbit_step_def rabbit_main_def rabbit_consume_def rabbit_start_def
      rabbit_after_open_def rabbit_open_def rabbit_Channel_def demo_channel_env_def demo_rabbit_def
      demo_rabbit_final_def demo_rabbit_done_def demo_rabbit_ctx_def rabbit_name_def demo_format_0 word_sless_alt)

theorem rabbit_accounting_witness:
  "cnt_get (rabbit_Counters demo_rabbit_final) ''rabbitmq:massive_queue:success'' =
     sum_list (map q_idx [demo_rabbit_done])"
  using rabbit_accounting[OF demo_rabbit_Setup run_events_one[where start = rabbit_start, OF demo_rabbit_run_result]]
  by blast

end
