(* ===== verification/Pulsar_Queue.thy ===== *)
theory Pulsar_Queue
  imports Session_Machine
begin

text \<open>
  \<^verbatim>\<open>sessions/pulsar_massive_queue.go\<close>. \<^verbatim>\<open>Execute\<close> starts one goroutine per
  queue and waits for all of them; each runs \<^verbatim>\<open>doQueue\<close>, which starts a consumer
  goroutine of its own. A user is therefore a list of queue goroutines, each with the state of
  its consumer. The consumer hands its results over on the unbuffered \<^verbatim>\<open>exitChan\<close>, and
  goes on after an error. Calls of the Pulsar client are events.
\<close>

record pulsar_queue =
  u_cntInProgress :: int64
  u_cntError :: int64
  u_cntSuccess :: int64
  u_cntPublished :: int64
  u_cntReceived :: int64
  u_client :: "string option"
  u_payload :: "8 word list"
  u_queues :: goint
  u_queueMessages :: goint

definition pulsar_Name :: string where
  [simp]: "pulsar_Name = ''Pulsar:MassiveQueue''"

text \<open>
  The environment of \<^verbatim>\<open>Setup\<close>: the random bytes and the answer of
  \<^verbatim>\<open>pulsar.NewClient\<close> for a url. A client is identified by its url; a failed call
  leaves the field nil.
\<close>

record pulsar_env =
  pe_rnd :: "nat \<Rightarrow> 8 word"
  pe_NewClient :: "string \<Rightarrow> goerror option"

definition pulsar_Setup ::
  "pulsar_env \<Rightarrow> params \<Rightarrow> pulsar_queue \<Rightarrow> (pulsar_queue \<times> goerror option) go" where
  "pulsar_Setup env ps s =
     (let s0 = s\<lparr>u_cntInProgress := 0, u_cntError := 0, u_cntSuccess := 0, u_cntPublished := 0,
                 u_cntReceived := 0\<rparr>;
          url = str_get ps ''url''
      in case pe_NewClient env url of
           Some err \<Rightarrow> Return (s0\<lparr>u_client := None\<rparr>, Some err)
         | None \<Rightarrow>
             (let s1 = s0\<lparr>u_client := Some url\<rparr> in
              case param_int ps ''messageSize'' 100 of
                (_, Some e) \<Rightarrow> Return (s1, Some (num_error_text e))
              | (payloadSize, None) \<Rightarrow>
                  go_bind (make_payload (pe_rnd env) payloadSize) (\<lambda>payload.
                    case param_int ps ''queues'' 1 of
                      (queues, Some e) \<Rightarrow>
                        Return (s1\<lparr>u_payload := payload, u_queues := queues\<rparr>, Some (num_error_text e))
                    | (queues, None) \<Rightarrow>
                        (case param_int ps ''queueMessages'' 1 of
                           (n, err) \<Rightarrow>
                             Return (s1\<lparr>u_payload := payload, u_queues := queues, u_queueMessages := n\<rparr>,
                                     map_option num_error_text err)))))"

definition pulsar_logError :: "pulsar_queue \<Rightarrow> pulsar_queue" where
  [session_defs]: "pulsar_logError s = s\<lparr>u_cntError := u_cntError s + 1\<rparr>"

subsection \<open>doQueue\<close>

datatype pulsar_pc =
    UEnter
  | UCreateProducer
  | USubscribe
  | UPublish goint
  | UWait
  | UUnsubscribe "goerror option"
  | URet "goerror option"
  | UAfter "goerror option"
  | UWgDone
  | UEnded

datatype pulsar_sub =
    USubNone
  | USubCheck goint
  | USubReceive goint
  | USubError goint
  | USubFinal "goerror option"
  | USubEnded

record pulsar_goroutine =
  g_idx :: goint
  g_pc :: pulsar_pc
  g_sub :: pulsar_sub

datatype pulsar_main = ULoop goint | UWaitAll | UDone

record pulsar_user =
  u_ctx :: user_context
  u_main :: pulsar_main
  u_wg :: int
  u_goroutines :: "pulsar_goroutine list"

datatype queue_event =
    UvGo
  | UvCreateProducer string "goerror option"
  | UvSubscribe string string "goerror option"
  | UvSend "8 word list" "goerror option"
  | UvExit
  | UvUnsubscribe "goerror option"
  | UvCheck int64
  | UvReceive "goerror option"

datatype pulsar_event = UvMain | UvQueue nat queue_event

definition pulsar_start :: "user_context \<Rightarrow> pulsar_user" where
  "pulsar_start ctx = \<lparr>u_ctx = ctx, u_main = ULoop 0, u_wg = 0, u_goroutines = []\<rparr>"

definition pulsar_name :: "string \<Rightarrow> user_context \<Rightarrow> goint \<Rightarrow> string" where
  "pulsar_name prefix ctx idx = prefix @ ''-'' @ UserId ctx @ ''-'' @ format_int idx"

text \<open>The calls of one queue goroutine up to its \<^verbatim>\<open>wg.Done()\<close>.\<close>

definition pulsar_do_queue ::
  "user_context \<Rightarrow> pulsar_queue \<Rightarrow> pulsar_goroutine \<Rightarrow> queue_event \<Rightarrow>
     (pulsar_queue, pulsar_goroutine) step_result" where
  "pulsar_do_queue ctx s g e =
     (case (g_pc g, e) of
        (UEnter, UvGo) \<Rightarrow>
          Next (s\<lparr>u_cntInProgress := u_cntInProgress s + 1\<rparr>) (g\<lparr>g_pc := UCreateProducer\<rparr>)
      | (UCreateProducer, UvCreateProducer topic res) \<Rightarrow>
          if u_client s = None then Crash NilDereference
          else if topic = pulsar_name ''q'' ctx (g_idx g)
          then (case res of
                  Some err \<Rightarrow> Next s (g\<lparr>g_pc := URet (Some err)\<rparr>)
                | None \<Rightarrow> Next s (g\<lparr>g_pc := USubscribe\<rparr>))
          else Disabled
      | (USubscribe, UvSubscribe topic sub res) \<Rightarrow>
          if topic = pulsar_name ''q'' ctx (g_idx g) \<and> sub = pulsar_name ''c'' ctx (g_idx g)
          then (case res of
                  Some err \<Rightarrow> Next s (g\<lparr>g_pc := URet (Some err)\<rparr>)
                | None \<Rightarrow> Next s (g\<lparr>g_pc := UPublish 0, g_sub := USubCheck 0\<rparr>))
          else Disabled
      | (UPublish i, UvSend payload res) \<Rightarrow>
          if i <s u_queueMessages s \<and> payload = u_payload s
          then (case res of
                  Some err \<Rightarrow> Next (pulsar_logError s) (g\<lparr>g_pc := UPublish (i + 1)\<rparr>)
                | None \<Rightarrow> Next (s\<lparr>u_cntPublished := u_cntPublished s + 1\<rparr>) (g\<lparr>g_pc := UPublish (i + 1)\<rparr>))
          else Disabled
      | (UPublish i, UvGo) \<Rightarrow> if i <s u_queueMessages s then Disabled else Next s (g\<lparr>g_pc := UWait\<rparr>)
      | (UWait, UvExit) \<Rightarrow>
          (case g_sub g of
             USubError i \<Rightarrow> Next s (g\<lparr>g_pc := UUnsubscribe (Some ''Fail to consume''), g_sub := USubCheck (i + 1)\<rparr>)
           | USubFinal r \<Rightarrow> Next s (g\<lparr>g_pc := UUnsubscribe r, g_sub := USubEnded\<rparr>)
           | _ \<Rightarrow> Disabled)
      | (UUnsubscribe r, UvUnsubscribe res) \<Rightarrow>
          Next (if res = None then s else pulsar_logError s) (g\<lparr>g_pc := URet r\<rparr>)
      | (URet r, UvGo) \<Rightarrow> Next (s\<lparr>u_cntInProgress := u_cntInProgress s - 1\<rparr>) (g\<lparr>g_pc := UAfter r\<rparr>)
      | (UAfter r, UvGo) \<Rightarrow>
          (case r of
             Some err \<Rightarrow> Next (pulsar_logError s) (g\<lparr>g_pc := UWgDone\<rparr>)
           | None \<Rightarrow> Next (s\<lparr>u_cntSuccess := u_cntSuccess s + 1\<rparr>) (g\<lparr>g_pc := UWgDone\<rparr>))
      | _ \<Rightarrow> Disabled)"

text \<open>
  The consumer goroutine. \<open>UvCheck d\<close> is the head of its loop with the time since its start;
  the product in the limit wraps around.
\<close>

definition pulsar_consume ::
  "pulsar_queue \<Rightarrow> pulsar_goroutine \<Rightarrow> queue_event \<Rightarrow> (pulsar_queue, pulsar_goroutine) step_result" where
  "pulsar_consume s g e =
     (case (g_sub g, e) of
        (USubCheck i, UvCheck d) \<Rightarrow>
          if i <s u_queueMessages s
          then Next s (g\<lparr>g_sub := (if 1000000000 * u_queueMessages s <s d
                                   then USubFinal (Some ''Subscriber timeout'') else USubReceive i)\<rparr>)
          else Next s (g\<lparr>g_sub := USubFinal None\<rparr>)
      | (USubReceive i, UvReceive res) \<Rightarrow>
          (case res of
             Some err \<Rightarrow> Next s (g\<lparr>g_sub := USubError i\<rparr>)
           | None \<Rightarrow> Next (s\<lparr>u_cntReceived := u_cntReceived s + 1\<rparr>) (g\<lparr>g_sub := USubCheck (i + 1)\<rparr>))
      | _ \<Rightarrow> Disabled)"

definition pulsar_queue_step ::
  "user_context \<Rightarrow> pulsar_queue \<Rightarrow> pulsar_goroutine \<Rightarrow> queue_event \<Rightarrow>
     (pulsar_queue, pulsar_goroutine) step_result" where
  "pulsar_queue_step ctx s g e =
     (case e of
        UvCheck _ \<Rightarrow> pulsar_consume s g e
      | UvReceive _ \<Rightarrow> pulsar_consume s g e
      | _ \<Rightarrow> pulsar_do_queue ctx s g e)"

subsection \<open>Execute\<close>

definition pulsar_step ::
  "pulsar_queue \<Rightarrow> pulsar_user \<Rightarrow> pulsar_event \<Rightarrow> (pulsar_queue, pulsar_user) step_result" where
  "pulsar_step s l e =
     (case e of
        UvMain \<Rightarrow>
          (case u_main l of
             ULoop i \<Rightarrow>
               if i <s u_queues s
               then Next s (l\<lparr>u_main := ULoop (i + 1), u_wg := u_wg l + 1,
                      u_goroutines := u_goroutines l @ [\<lparr>g_idx = i, g_pc = UEnter, g_sub = USubNone\<rparr>]\<rparr>)
               else Next s (l\<lparr>u_main := UWaitAll\<rparr>)
           | UWaitAll \<Rightarrow> if u_wg l = 0 then Next s (l\<lparr>u_main := UDone\<rparr>) else Disabled
           | UDone \<Rightarrow> Disabled)
      | UvQueue i qe \<Rightarrow>
          if i < length (u_goroutines l)
          then (let g = u_goroutines l ! i in
                if g_pc g = UWgDone \<and> qe = UvGo
                then (if u_wg l \<le> 0 then Crash NegativeWaitGroup
                      else Next s (l\<lparr>u_wg := u_wg l - 1, u_goroutines := (u_goroutines l)[i := g\<lparr>g_pc := UEnded\<rparr>]\<rparr>))
                else (case pulsar_queue_step (u_ctx l) s g qe of
                        Next s' g' \<Rightarrow> Next s' (l\<lparr>u_goroutines := (u_goroutines l)[i := g']\<rparr>)
                      | Crash p \<Rightarrow> Crash p
                      | Disabled \<Rightarrow> Disabled))
          else Disabled)"

text \<open>\<^verbatim>\<open>Execute\<close> always returns a nil error.\<close>

definition pulsar_result :: "pulsar_user \<Rightarrow> goerror option option" where
  "pulsar_result l = (case u_main l of UDone \<Rightarrow> Some None | _ \<Rightarrow> None)"

definition pulsar_Counters :: "pulsar_queue \<Rightarrow> counters" where
  "pulsar_Counters s =
     [''pulsar:massive_queue:inprogress'' \<mapsto> u_cntInProgress s,
      ''pulsar:massive_queue:success'' \<mapsto> u_cntSuccess s,
      ''pulsar:massive_queue:error'' \<mapsto> u_cntError s,
      ''pulsar:massive_queue:msg_published'' \<mapsto> u_cntPublished s,
      ''pulsar:massive_queue:msg_received'' \<mapsto> u_cntReceived s]"

subsection \<open>Accounting\<close>

definition queue_open :: "pulsar_goroutine \<Rightarrow> bool" where
  [session_defs]: "queue_open g \<longleftrightarrow>
     (case g_pc g of UEnter \<Rightarrow> False | UAfter _ \<Rightarrow> False | UWgDone \<Rightarrow> False | UEnded \<Rightarrow> False | _ \<Rightarrow> True)"

definition queue_pending :: "pulsar_goroutine \<Rightarrow> bool" where
  [session_defs]: "queue_pending g \<longleftrightarrow> g_pc g \<noteq> UEnded"

lemma pulsar_queue_step_counters:
  assumes "pulsar_queue_step ctx s g e = Next s' g'" and "\<not> (g_pc g = UWgDone \<and> e = UvGo)"
  shows "u_cntInProgress s' = u_cntInProgress s + (of_bool (queue_open g') - of_bool (queue_open g))
    \<and> queue_pending g' = queue_pending g"
proof (cases "g_pc g")
  case UWait
  then show ?thesis using assms
    by (auto simp: pulsar_queue_step_def pulsar_do_queue_def pulsar_consume_def session_defs
        split: queue_event.splits pulsar_sub.splits option.splits if_splits)
qed (use assms in \<open>auto simp: pulsar_queue_step_def pulsar_do_queue_def pulsar_consume_def session_defs
    split: queue_event.splits option.splits if_splits pulsar_sub.splits\<close>)

definition pulsar_weight :: "pulsar_user \<Rightarrow> int64" where
  "pulsar_weight l = sum_list (map (\<lambda>g. of_bool (queue_open g)) (u_goroutines l))"

text \<open>The wait group counts the goroutines that have not finished, all of them at the return.\<close>

definition pulsar_inv :: "pulsar_user \<Rightarrow> bool" where
  "pulsar_inv l \<longleftrightarrow> u_wg l = int (length (filter queue_pending (u_goroutines l)))
     \<and> (u_main l = UDone \<longrightarrow> u_wg l = 0)"

lemma pulsar_step_queue:
  assumes "pulsar_step s l (UvQueue i qe) = Next s' l'"
  shows "i < length (u_goroutines l) \<and> (\<exists>g' wg. l' = l\<lparr>u_wg := wg, u_goroutines := (u_goroutines l)[i := g']\<rparr>
    \<and> u_cntInProgress s' = u_cntInProgress s + (of_bool (queue_open g') - of_bool (queue_open (u_goroutines l ! i)))
    \<and> wg = u_wg l - of_bool (queue_pending (u_goroutines l ! i)) + of_bool (queue_pending g')
    \<and> (queue_pending g' \<longrightarrow> queue_pending (u_goroutines l ! i)))"
proof -
  define g where "g = u_goroutines l ! i"
  have i: "i < length (u_goroutines l)"
    using assms by (simp add: pulsar_step_def split: if_splits)
  show ?thesis
  proof (cases "g_pc g = UWgDone \<and> qe = UvGo")
    case True
    then have "s' = s" "l' = l\<lparr>u_wg := u_wg l - 1, u_goroutines := (u_goroutines l)[i := g\<lparr>g_pc := UEnded\<rparr>]\<rparr>"
      using assms i by (simp_all add: pulsar_step_def Let_def g_def split: if_splits)
    with True i show ?thesis
      by (intro conjI exI[of _ "g\<lparr>g_pc := UEnded\<rparr>"] exI[of _ "u_wg l - 1"])
        (simp_all add: queue_open_def queue_pending_def g_def)
  next
    case False
    then obtain g' where g': "pulsar_queue_step (u_ctx l) s g qe = Next s' g'"
      "l' = l\<lparr>u_goroutines := (u_goroutines l)[i := g']\<rparr>"
      using assms i by (cases "pulsar_queue_step (u_ctx l) s g qe") (auto simp: pulsar_step_def Let_def g_def)
    from pulsar_queue_step_counters[OF g'(1) False] i g'(2) show ?thesis
      by (intro conjI exI[of _ g'] exI[of _ "u_wg l"]) (simp_all add: g_def)
  qed
qed

lemma pulsar_step_counters:
  assumes "pulsar_step s l e = Next s' l'" and "pulsar_inv l"
  shows "pulsar_inv l' \<and> u_cntInProgress s' = u_cntInProgress s + (pulsar_weight l' - pulsar_weight l)"
proof (cases e)
  case UvMain
  then show ?thesis using assms
    by (auto simp: pulsar_step_def pulsar_inv_def pulsar_weight_def queue_open_def queue_pending_def
        split: pulsar_main.splits if_splits)
next
  case (UvQueue i qe)
  let ?gs = "u_goroutines l"
  from pulsar_step_queue[OF assms(1)[unfolded UvQueue]] obtain g' wg where i: "i < length ?gs"
    and l': "l' = l\<lparr>u_wg := wg, u_goroutines := ?gs[i := g']\<rparr>"
    and c: "u_cntInProgress s' = u_cntInProgress s + (of_bool (queue_open g') - of_bool (queue_open (?gs ! i)))"
    and w: "wg = u_wg l - of_bool (queue_pending (?gs ! i)) + of_bool (queue_pending g')"
    and p: "queue_pending g' \<longrightarrow> queue_pending (?gs ! i)" by blast
  have "\<not> queue_pending (?gs ! i)" if "u_wg l = 0"
    using that assms(2) i by (auto simp: pulsar_inv_def filter_empty_conv)
  with w p have "u_wg l = 0 \<longrightarrow> wg = 0" by auto
  moreover have "wg = int (length (filter queue_pending (?gs[i := g'])))"
    using assms(2) w length_filter_update_int[OF i, of queue_pending g'] by (simp add: pulsar_inv_def)
  moreover have "pulsar_weight l' - pulsar_weight l = of_bool (queue_open g') - of_bool (queue_open (?gs ! i))"
    using i by (simp add: l' pulsar_weight_def sum_list_map_update)
  ultimately show ?thesis
    using assms(2) c by (auto simp: pulsar_inv_def l')
qed

interpretation pulsar_progress: session_counter pulsar_step pulsar_start pulsar_inv u_cntInProgress pulsar_weight
  by unfold_locales (simp_all add: pulsar_step_counters, simp_all add: pulsar_inv_def pulsar_start_def pulsar_weight_def)

lemma pulsar_Setup_counters:
  assumes "pulsar_Setup env ps s = Return (s', err)"
  shows "u_cntInProgress s' = 0" "u_cntError s' = 0" "u_cntSuccess s' = 0" "u_cntPublished s' = 0"
    "u_cntReceived s' = 0"
  using assms by (auto simp: pulsar_Setup_def Let_def split_beta split: option.splits)

interpretation pulsar_session: session_api pulsar_Setup "\<lambda>s. Return (pulsar_Counters s)"
  by unfold_locales (simp add: pulsar_Counters_def pulsar_Setup_counters)

subsection \<open>Properties\<close>

text \<open>
  C22: in every interleaving after \<^verbatim>\<open>Setup\<close>, \<^verbatim>\<open>inprogress\<close> of the Pulsar session
  is the number of queues of all users that are inside \<^verbatim>\<open>doQueue\<close>, and a user whose
  \<^verbatim>\<open>Execute\<close> has returned has none: the wait group joins all its queues.
\<close>

theorem pulsar_accounting:
  assumes "pulsar_Setup env ps s = Return (s0, None)"
    and "sys_reach pulsar_step pulsar_start s0 (s', ls)"
  shows "cnt_get (pulsar_Counters s') ''pulsar:massive_queue:inprogress'' =
      word_of_nat (length (filter queue_open (concat (map u_goroutines ls))))
    \<and> (\<forall>l \<in> set ls. pulsar_result l = Some None \<longrightarrow> (\<forall>g \<in> set (u_goroutines l). g_pc g = UEnded))"
proof -
  have "g_pc g = UEnded" if "l \<in> set ls" "pulsar_result l = Some None" "g \<in> set (u_goroutines l)" for l g
  proof -
    have "length (filter queue_pending (u_goroutines l)) = 0"
      using pulsar_progress.reach_inv[OF assms(2) that(1)] that(2)
      by (auto simp: pulsar_inv_def pulsar_result_def split: pulsar_main.splits)
    then show ?thesis using that(3) by (auto simp: filter_empty_conv queue_pending_def)
  qed
  moreover have "sum_list (map pulsar_weight ls) =
      word_of_nat (length (filter queue_open (concat (map u_goroutines ls))))"
    by (induction ls) (simp_all add: pulsar_weight_def sum_list_of_bool)
  ultimately show ?thesis
    using pulsar_progress.counter_is_sum[OF assms(2)] pulsar_Setup_counters[OF assms(1)]
    by (simp add: pulsar_Counters_def)
qed

definition demo_pulsar :: pulsar_queue where
  "demo_pulsar = \<lparr>u_cntInProgress = 0, u_cntError = 0, u_cntSuccess = 0, u_cntPublished = 0, u_cntReceived = 0,
     u_client = Some ''pulsar://a'', u_payload = [7], u_queues = 1, u_queueMessages = 1\<rparr>"

definition demo_pulsar_env :: pulsar_env where
  "demo_pulsar_env = \<lparr>pe_rnd = (\<lambda>_. 7), pe_NewClient = (\<lambda>_. None)\<rparr>"

definition demo_pulsar_ctx :: user_context where
  "demo_pulsar_ctx = \<lparr>UserId = ''u1'', ctx_Phase = ''p'', ctx_Params = Map.empty\<rparr>"

definition demo_pulsar_run :: "pulsar_event list" where
  "demo_pulsar_run = [UvMain, UvMain, UvQueue 0 UvGo, UvQueue 0 (UvCreateProducer ''q-u1-0'' None),
     UvQueue 0 (UvSubscribe ''q-u1-0'' ''c-u1-0'' None), UvQueue 0 (UvSend [7] None), UvQueue 0 UvGo,
     UvQueue 0 (UvCheck 1000), UvQueue 0 (UvReceive (Some ''timeout'')), UvQueue 0 UvExit,
     UvQueue 0 (UvUnsubscribe None), UvQueue 0 UvGo, UvQueue 0 UvGo, UvQueue 0 UvGo,
     UvQueue 0 (UvCheck 2000), UvMain]"

definition demo_pulsar_final :: pulsar_queue where
  "demo_pulsar_final = demo_pulsar\<lparr>u_cntError := 1, u_cntPublished := 1\<rparr>"

definition demo_pulsar_done :: pulsar_user where
  "demo_pulsar_done = \<lparr>u_ctx = demo_pulsar_ctx, u_main = UDone, u_wg = 0,
     u_goroutines = [\<lparr>g_idx = 0, g_pc = UEnded, g_sub = USubFinal None\<rparr>]\<rparr>"

lemma demo_pulsar_names:
  "pulsar_name ''q'' demo_pulsar_ctx 0 = ''q-u1-0''" "pulsar_name ''c'' demo_pulsar_ctx 0 = ''c-u1-0''"
  by code_simp+

lemma demo_pulsar_Setup:
  "pulsar_Setup demo_pulsar_env [''url'' \<mapsto> ''pulsar://a'', ''messageSize'' \<mapsto> ''1''] (demo_pulsar\<lparr>u_cntError := 4\<rparr>)
     = Return (demo_pulsar, None)"
  by code_simp

lemma demo_pulsar_run_result:
  "run_events pulsar_step demo_pulsar (pulsar_start demo_pulsar_ctx) demo_pulsar_run =
     Next demo_pulsar_final demo_pulsar_done"
  by (simp add: demo_pulsar_run_def pulsar_step_def pulsar_queue_step_def pulsar_do_queue_def pulsar_consume_def
      pulsar_start_def demo_pulsar_names demo_pulsar_def demo_pulsar_final_def demo_pulsar_done_def
      pulsar_logError_def word_sless_alt Let_def)

theorem pulsar_accounting_witness:
  "cnt_get (pulsar_Counters demo_pulsar_final) ''pulsar:massive_queue:inprogress'' =
     word_of_nat (length (filter queue_open (concat (map u_goroutines [demo_pulsar_done]))))"
  using pulsar_accounting[OF demo_pulsar_Setup run_events_one[where start = pulsar_start, OF demo_pulsar_run_result]]
  by blast

text \<open>
  The Pulsar consumer goes on after it has reported an error, but nobody receives its last
  result then. When the queue's goroutine has finished and its consumer is sending on
  \<^verbatim>\<open>exitChan\<close>, no event is a step of this queue again: the consumer goroutine leaks.
\<close>

theorem pulsar_consumer_leak:
  assumes "g_pc g = UEnded" and "g_sub g = USubFinal r \<or> g_sub g = USubError i"
  shows "pulsar_queue_step ctx s g e = Disabled"
  using assms by (cases e) (auto simp: pulsar_queue_step_def pulsar_do_queue_def pulsar_consume_def)

theorem pulsar_consumer_leak_witness:
  "pulsar_queue_step demo_pulsar_ctx demo_pulsar_final (hd (u_goroutines demo_pulsar_done)) UvExit = Disabled
   \<and> run_events pulsar_step demo_pulsar (pulsar_start demo_pulsar_ctx) demo_pulsar_run =
       Next demo_pulsar_final demo_pulsar_done"
  using pulsar_consumer_leak[of "hd (u_goroutines demo_pulsar_done)" None 0 demo_pulsar_ctx demo_pulsar_final UvExit]
    demo_pulsar_run_result
  by (simp add: demo_pulsar_done_def)

end
