(* ===== verification/Agent_Users.thy ===== *)
theory Agent_Users
  imports Job
begin

text \<open>
  \<^verbatim>\<open>AgentController.getSessionUsers\<close> of \<^verbatim>\<open>agent/agent_controller.go\<close>: the share of
  a session's users that one agent of \<open>agentCount\<close> runs. The \<^verbatim>\<open>for\<close> loop that
  lowers \<^verbatim>\<open>lastIdx\<close> has no bound in the code, so it is a
  \<^theory_text>\<open>partial_function\<close> whose value \<open>None\<close> is "does not return". The reference
  the shares are compared with is greedy: agent \<open>i\<close> takes \<open>major\<close> users as long as
  users are left.
\<close>

partial_function (option) last_idx_loop :: "int64 \<Rightarrow> int64 \<Rightarrow> int64 \<Rightarrow> int64 option" where
  "last_idx_loop totalSessionUsers major lastIdx =
     (if totalSessionUsers - major * lastIdx <s 0
      then last_idx_loop totalSessionUsers major (lastIdx - 1)
      else Some lastIdx)"

definition total_session_users :: "job_phase \<Rightarrow> float64 \<Rightarrow> int64" where
  "total_session_users phase percentage =
     f64_to_int64 (f64_mul (f64_of_int (sint (UsersPerSecond phase))) percentage)"

definition get_session_users ::
  "job_phase \<Rightarrow> float64 \<Rightarrow> int64 \<Rightarrow> int64 \<Rightarrow> int64 go option" where
  "get_session_users phase percentage agentCount agentIdx =
     (let totalSessionUsers = total_session_users phase percentage in
      case go_div (totalSessionUsers + agentCount - 1) agentCount of
        Panic p \<Rightarrow> Some (Panic p)
      | Fatal m \<Rightarrow> Some (Fatal m)
      | Return major \<Rightarrow>
          (case last_idx_loop totalSessionUsers major (agentCount - 1) of
             None \<Rightarrow> None
           | Some lastIdx \<Rightarrow>
               let last = totalSessionUsers - lastIdx * major in
               Some (Return (if agentIdx <s lastIdx then major
                             else if agentIdx = lastIdx then last
                             else 0))))"

definition ceil_div :: "int \<Rightarrow> int \<Rightarrow> int" where
  "ceil_div t n = (t + n - 1) div n"

definition greedy_share :: "int \<Rightarrow> int \<Rightarrow> int \<Rightarrow> int" where
  "greedy_share t n i = max 0 (min (ceil_div t n) (t - i * ceil_div t n))"

subsection \<open>The reference allocation\<close>

lemma ceil_div_nonneg: "0 \<le> t \<Longrightarrow> 0 < n \<Longrightarrow> 0 \<le> ceil_div t n"
  by (simp add: ceil_div_def pos_imp_zdiv_nonneg_iff)

lemma ceil_div_covers: "0 < n \<Longrightarrow> t \<le> n * ceil_div t n"
proof -
  assume n: "0 < n"
  have "(t + n - 1) mod n < n" using n by simp
  moreover have "n * ceil_div t n + (t + n - 1) mod n = t + n - 1"
    unfolding ceil_div_def by (rule mult_div_mod_eq)
  ultimately show ?thesis by linarith
qed

lemma ceil_div_mult_le: "0 < n \<Longrightarrow> n * ceil_div t n \<le> t + n - 1"
proof -
  assume "0 < n"
  then have "0 \<le> (t + n - 1) mod n" by simp
  moreover have "n * ceil_div t n + (t + n - 1) mod n = t + n - 1"
    unfolding ceil_div_def by (rule mult_div_mod_eq)
  ultimately show ?thesis by linarith
qed

lemma sum_greedy_prefix:
  assumes "0 \<le> t" "0 < n"
  shows "(\<Sum>i<k. greedy_share t n (int i)) = min t (int k * ceil_div t n)"
proof (induction k)
  case 0
  then show ?case using assms by simp
next
  case (Suc k)
  have "int k * ceil_div t n \<le> int (Suc k) * ceil_div t n"
    using ceil_div_nonneg[OF assms] by (simp add: algebra_simps)
  with Suc show ?case
    using ceil_div_nonneg[OF assms]
    by (auto simp: greedy_share_def algebra_simps min_def max_def)
qed

lemma sum_greedy:
  assumes "0 \<le> t" "0 < n"
  shows "(\<Sum>i<nat n. greedy_share t n (int i)) = t"
  using sum_greedy_prefix[OF assms, of "nat n"] ceil_div_covers[of n t] assms by simp

subsection \<open>The loop\<close>

lemma last_idx_loop_stops:
  assumes "0 \<le> sint t" "0 \<le> sint m" "0 \<le> sint l" "sint m * sint l < 2 ^ 63"
  shows "\<exists>r. last_idx_loop t m l = Some r \<and> 0 \<le> sint r \<and> sint r \<le> sint l
           \<and> sint m * sint r \<le> sint t
           \<and> (r = l \<or> sint t < sint m * (sint r + 1))"
  using assms
proof (induction "nat (sint l)" arbitrary: l)
  case 0
  then have "l = 0" by (intro int64_eqI) simp
  with 0 show ?case by (simp add: last_idx_loop.simps[of t m 0] word_sless_alt)
next
  case (Suc k)
  have rt: "sint t < 2 ^ 63" using in_int64_sint[of t] by (simp add: in_int64_def)
  have ml: "0 \<le> sint m * sint l" using Suc.prems by simp
  have mul: "sint (m * l) = sint m * sint l"
    using Suc.prems(4) ml by (intro sint_mult_exact) (simp add: in_int64_def del: zero_le_mult_iff)
  have sub: "sint (t - m * l) = sint t - sint m * sint l"
    using Suc.prems(1,4) ml rt unfolding mul[symmetric]
    by (intro sint_sub_exact) (simp add: in_int64_def)
  show ?case
  proof (cases "sint t < sint m * sint l")
    case False
    then show ?thesis
      using Suc.prems by (auto simp: last_idx_loop.simps[of t m l] word_sless_alt sub)
  next
    case True
    have l1: "sint (l - 1) = sint l - 1"
      using Suc.hyps(2) in_int64_sint[of l] by (subst sint_sub_exact) (auto simp: in_int64_def)
    have "sint m * (sint l - 1) \<le> sint m * sint l"
      using Suc.prems(2) by (intro mult_left_mono) auto
    with Suc.prems(4) have b: "sint m * sint (l - 1) < 2 ^ 63" by (simp add: l1)
    have "k = nat (sint (l - 1))" "0 \<le> sint (l - 1)" using Suc.hyps(2) l1 by auto
    from Suc.hyps(1)[OF this(1) Suc.prems(1,2) this(2) b]
    obtain r where r: "last_idx_loop t m (l - 1) = Some r" "0 \<le> sint r" "sint r \<le> sint (l - 1)"
      "sint m * sint r \<le> sint t" "r = l - 1 \<or> sint t < sint m * (sint r + 1)" by blast
    have "last_idx_loop t m l = Some r"
      using True r(1) by (simp add: last_idx_loop.simps[of t m l] word_sless_alt sub)
    with r True l1 show ?thesis by auto
  qed
qed

lemma last_idx_loop_diverges: "t <s 0 \<Longrightarrow> last_idx_loop t 0 l = None"
proof (rule ccontr)
  assume neg: "t <s 0" and "last_idx_loop t 0 l \<noteq> None"
  then obtain r where ret: "last_idx_loop t 0 l = Some r" by blast
  have "\<not> (t <s 0 \<and> (0::int64) = 0)"
  proof (rule last_idx_loop.raw_induct[where P = "\<lambda>t m l r. \<not> (t <s 0 \<and> m = 0)", OF _ ret])
    fix f t m l r
    assume IH: "\<And>t m l r. f t m l = Some r \<Longrightarrow> \<not> (t <s 0 \<and> m = 0)"
      and eq: "(if t - m * l <s 0 then f t m (l - 1) else Some l) = Some (r :: int64)"
    show "\<not> (t <s 0 \<and> m = (0::int64))"
    proof (cases "t - m * l <s 0")
      case True
      with eq have "f t m (l - 1) = Some r" by simp
      then show ?thesis by (rule IH)
    qed auto
  qed
  with neg show False by simp
qed

subsection \<open>The shares\<close>

text \<open>The arithmetic the shares need: a positive agent count and no overflow in the ceiling.\<close>

definition shares_fit :: "int64 \<Rightarrow> int64 \<Rightarrow> bool" where
  "shares_fit t n \<longleftrightarrow> 0 < sint n \<and> 0 \<le> sint t \<and> sint t + sint n \<le> 2 ^ 63"

lemma major_value:
  assumes "shares_fit t n"
  shows "go_div (t + n - 1) n = Return (word_of_int (ceil_div (sint t) (sint n)))"
    and "sint (word_of_int (ceil_div (sint t) (sint n)) :: int64) = ceil_div (sint t) (sint n)"
    and "ceil_div (sint t) (sint n) * (sint n - 1) < 2 ^ 63"
proof -
  have n: "0 < sint n" and t: "0 \<le> sint t" and fit: "sint t + sint n \<le> 2 ^ 63"
    using assms by (auto simp: shares_fit_def)
  have rn: "sint n < 2 ^ 63" using in_int64_sint[of n] by (simp add: in_int64_def)
  have n1: "sint (n - 1) = sint n - 1"
    using n rn by (subst sint_sub_exact) (auto simp: in_int64_def)
  have "sint (t + (n - 1)) = sint t + (sint n - 1)"
    using t n fit by (subst sint_add_exact) (auto simp: n1 in_int64_def)
  then have sum: "sint (t + n - 1) = sint t + sint n - 1" by (simp add: algebra_simps)
  have "n \<noteq> 0" using n by auto
  then show "go_div (t + n - 1) n = Return (word_of_int (ceil_div (sint t) (sint n)))"
    using t n by (simp add: go_div_def sum ceil_div_def)
  have c0: "0 \<le> ceil_div (sint t) (sint n)" using t n by (rule ceil_div_nonneg)
  have c1: "sint n * ceil_div (sint t) (sint n) \<le> sint t + sint n - 1"
    using n by (rule ceil_div_mult_le)
  have "ceil_div (sint t) (sint n) * 1 \<le> ceil_div (sint t) (sint n) * sint n"
    using c0 n by (intro mult_left_mono) auto
  with c1 fit have "ceil_div (sint t) (sint n) < 2 ^ 63" by (simp add: mult.commute)
  with c0 show "sint (word_of_int (ceil_div (sint t) (sint n)) :: int64) = ceil_div (sint t) (sint n)"
    by (intro sint_of_int_exact) (simp add: in_int64_def)
  have "ceil_div (sint t) (sint n) * (sint n - 1) \<le> ceil_div (sint t) (sint n) * sint n"
    using c0 by (intro mult_left_mono) auto
  with c1 fit show "ceil_div (sint t) (sint n) * (sint n - 1) < 2 ^ 63" by (simp add: mult.commute)
qed

lemma greedy_share_last_idx:
  assumes t: "0 \<le> t" and c: "0 \<le> ceil_div t n" and cover: "t \<le> n * ceil_div t n"
    and r: "ceil_div t n * r \<le> t" "r = n - 1 \<or> t < ceil_div t n * (r + 1)"
    and i: "0 \<le> i" "i < n"
  shows "greedy_share t n i =
    (if i < r then ceil_div t n else if i = r then t - r * ceil_div t n else 0)"
proof -
  let ?M = "ceil_div t n"
  consider "i < r" | "i = r" | "r < i" by linarith
  then show ?thesis
  proof cases
    case 1
    then have "?M * (i + 1) \<le> ?M * r" using c by (intro mult_left_mono) auto
    with r(1) have "?M \<le> t - i * ?M" by (simp add: algebra_simps)
    with 1 c show ?thesis by (simp add: greedy_share_def)
  next
    case 2
    have "t - r * ?M \<le> ?M" using r(2) cover by (auto simp: algebra_simps)
    with 2 r(1) show ?thesis by (simp add: greedy_share_def mult.commute)
  next
    case 3
    with i have "t < ?M * (r + 1)" using r(2) by auto
    also have "\<dots> \<le> ?M * i" using 3 c by (intro mult_left_mono) auto
    finally show ?thesis using 3 c by (simp add: greedy_share_def mult.commute)
  qed
qed

lemma get_session_users_greedy:
  assumes fit: "shares_fit (total_session_users phase pct) n" and i: "0 \<le> sint i" "sint i < sint n"
  shows "\<exists>u. get_session_users phase pct n i = Some (Return u)
    \<and> sint u = greedy_share (sint (total_session_users phase pct)) (sint n) (sint i)"
proof -
  define t where "t = total_session_users phase pct"
  define m where "m = (word_of_int (ceil_div (sint t) (sint n)) :: int64)"
  note fit = fit[folded t_def]
  have n: "0 < sint n" and t: "0 \<le> sint t" using fit by (auto simp: shares_fit_def)
  note mv = major_value[OF fit, folded m_def]
  have m0: "0 \<le> sint m" using ceil_div_nonneg[OF t n] mv by simp
  have n1: "sint (n - 1) = sint n - 1"
    using n in_int64_sint[of n] by (subst sint_sub_exact) (auto simp: in_int64_def)
  obtain r where r: "last_idx_loop t m (n - 1) = Some r" "0 \<le> sint r" "sint r \<le> sint n - 1"
    "sint m * sint r \<le> sint t" "r = n - 1 \<or> sint t < sint m * (sint r + 1)"
    using last_idx_loop_stops[of t m "n - 1"] t m0 n mv(2,3) n1 by auto
  have rM: "sint r = sint n - 1 \<or> sint t < ceil_div (sint t) (sint n) * (sint r + 1)"
    using r(5) n1 mv(2) by auto
  have last: "sint (t - r * m) = sint t - sint r * sint m"
  proof -
    have rm: "0 \<le> sint r * sint m" "sint r * sint m \<le> sint t"
      using r m0 by (simp_all add: mult.commute)
    have rt: "sint t < 2 ^ 63" using in_int64_sint[of t] by (simp add: in_int64_def)
    have "sint (r * m) = sint r * sint m"
      using rm rt by (intro sint_mult_exact) (unfold in_int64_def, linarith)
    then show ?thesis
      using rm rt t by (subst sint_sub_exact) (unfold in_int64_def, linarith+)
  qed
  have eq: "sint i = sint r \<longleftrightarrow> i = r" using int64_eqI by blast
  have "greedy_share (sint t) (sint n) (sint i) =
    (if sint i < sint r then sint m else if i = r then sint t - sint r * sint m else 0)"
    using greedy_share_last_idx[OF t _ ceil_div_covers[OF n] _ rM i] ceil_div_nonneg[OF t n]
      r(4) mv(2) eq by simp
  then show ?thesis
    using last by (auto simp: get_session_users_def t_def[symmetric] mv(1) r(1) Let_def word_sless_alt)
qed

lemma sint_word_of_nat_lt: "i < nat (sint (n :: int64)) \<Longrightarrow> sint (word_of_nat i :: int64) = int i"
proof -
  assume "i < nat (sint n)"
  moreover have "sint n < 2 ^ 63" using in_int64_sint[of n] by (simp add: in_int64_def)
  ultimately have "in_int64 (int i)" unfolding in_int64_def by linarith
  from sint_of_int_exact[OF this] show ?thesis by simp
qed

lemma greedy_share_bounds:
  "0 \<le> greedy_share t n i \<and> (0 \<le> ceil_div t n \<longrightarrow> greedy_share t n i \<le> ceil_div t n)"
  by (auto simp: greedy_share_def)

lemma session_users_list:
  assumes fit: "shares_fit (total_session_users phase pct) n"
  obtains us where
    "map (\<lambda>i. get_session_users phase pct n (word_of_nat i)) [0..<nat (sint n)] =
       map (\<lambda>u. Some (Return u)) us"
    "map sint us =
       map (\<lambda>i. greedy_share (sint (total_session_users phase pct)) (sint n) (int i)) [0..<nat (sint n)]"
proof -
  define user where "user i = (case get_session_users phase pct n (word_of_nat i) of
      Some (Return u) \<Rightarrow> u | _ \<Rightarrow> 0)" for i
  have ok: "get_session_users phase pct n (word_of_nat i) = Some (Return (user i))
      \<and> sint (user i) = greedy_share (sint (total_session_users phase pct)) (sint n) (int i)"
    if "i < nat (sint n)" for i
    using get_session_users_greedy[OF fit, of "word_of_nat i"] that
    by (fastforce simp: user_def sint_word_of_nat_lt zless_nat_eq_int_zless)
  show thesis
    by (rule that[of "map user [0..<nat (sint n)]"]) (use ok in auto)
qed

lemma session_shares:
  assumes "shares_fit (total_session_users phase pct) n"
  shows "\<exists>us. map (\<lambda>i. get_session_users phase pct n (word_of_nat i)) [0..<nat (sint n)] =
             map (\<lambda>u. Some (Return u)) us
         \<and> sum_list (map sint us) = sint (total_session_users phase pct)
         \<and> list_all (\<lambda>u. 0 \<le> sint u
              \<and> sint u \<le> ceil_div (sint (total_session_users phase pct)) (sint n)) us"
proof -
  let ?t = "sint (total_session_users phase pct)"
  have n: "0 < sint n" and t: "0 \<le> ?t" using assms by (auto simp: shares_fit_def)
  obtain us where us: "map (\<lambda>i. get_session_users phase pct n (word_of_nat i)) [0..<nat (sint n)] =
       map (\<lambda>u. Some (Return u)) us"
    "map sint us = map (\<lambda>i. greedy_share ?t (sint n) (int i)) [0..<nat (sint n)]"
    by (rule session_users_list[OF assms])
  have "sum_list (map sint us) = ?t"
    using sum_greedy[OF t n] by (simp add: us(2) interv_sum_list_conv_sum_set_nat atLeast0LessThan)
  moreover have "list_all (\<lambda>v. 0 \<le> v \<and> v \<le> ceil_div ?t (sint n)) (map sint us)"
    unfolding us(2) using greedy_share_bounds ceil_div_nonneg[OF t n] by (simp add: list_all_iff)
  ultimately show ?thesis using us(1) by (intro exI[of _ us]) (simp add: list.pred_map comp_def)
qed

text \<open>
  C7: the shares that \<^verbatim>\<open>getSessionUsers\<close> gives to the agents \<open>0 \<dots> agentCount - 1\<close>
  partition the session's users: every call returns, no share is negative or above the
  ceiling of an even split, and together they are exactly
  \<^verbatim>\<open>int64(float64(UsersPerSecond) * percentage)\<close>. The hypothesis is that there is an
  agent, that this number is not negative, and that adding the agent count does not overflow.
\<close>

theorem session_users_partition:
  assumes "shares_fit (total_session_users phase pct) n"
  shows "\<exists>us. map (\<lambda>i. get_session_users phase pct n (word_of_nat i)) [0..<nat (sint n)] =
             map (\<lambda>u. Some (Return u)) us
         \<and> sum_list (map sint us) = sint (total_session_users phase pct)
         \<and> list_all (\<lambda>u. 0 \<le> sint u
              \<and> sint u \<le> ceil_div (sint (total_session_users phase pct)) (sint n)) us"
  using assms by (rule session_shares)

definition demo_phase :: "int64 \<Rightarrow> job_phase" where
  "demo_phase u = \<lparr>phase_Name = ''p'', UsersPerSecond = u, phase_Duration = ''10s''\<rparr>"

theorem session_users_partition_witness:
  "\<exists>us. map (\<lambda>i. get_session_users (demo_phase 29) (Fin 1 0) 5 (word_of_nat i)) [0..<5] =
          map (\<lambda>u. Some (Return u)) us
      \<and> sum_list (map sint us) = 29"
proof -
  have t: "total_session_users (demo_phase 29) (Fin 1 0) = 29" by code_simp
  have fit: "shares_fit (total_session_users (demo_phase 29) (Fin 1 0)) 5"
    unfolding t by (simp add: shares_fit_def)
  have "nat (sint (5 :: int64)) = 5" "sint (29 :: int64) = 29" by simp_all
  then show ?thesis using session_users_partition[OF fit] unfolding t by auto
qed

text \<open>
  C8: for every agent index in range, \<^verbatim>\<open>getSessionUsers\<close> returns the greedy share: the
  ceiling of an even split as long as that many users are left, then the rest, then 0.
\<close>

theorem session_users_equal_greedy:
  assumes "shares_fit (total_session_users phase pct) n" and "0 \<le> sint i" and "sint i < sint n"
  shows "\<exists>u. get_session_users phase pct n i = Some (Return u)
    \<and> sint u = greedy_share (sint (total_session_users phase pct)) (sint n) (sint i)"
  using assms by (rule get_session_users_greedy)

theorem session_users_equal_greedy_witness:
  "\<exists>u. get_session_users (demo_phase 20) (Fin 1 0) 8 6 = Some (Return u) \<and> sint u = 2"
proof -
  have t: "total_session_users (demo_phase 20) (Fin 1 0) = 20" by code_simp
  have fit: "shares_fit (total_session_users (demo_phase 20) (Fin 1 0)) 8"
    unfolding t by (simp add: shares_fit_def)
  have "greedy_share 20 8 6 = 2" by (simp add: greedy_share_def ceil_div_def)
  then show ?thesis using session_users_equal_greedy[OF fit, of 6] unfolding t by simp
qed

text \<open>
  C28: for a user count below \<open>2 ^ 53\<close> and a percentage between 0 and 1, the number of
  users a session gets is between 0 and \<^verbatim>\<open>UsersPerSecond\<close>: the two float64 roundings
  never give a session more users than the phase has.
\<close>

theorem session_total_bounds:
  assumes "0 \<le> sint (UsersPerSecond phase)" and "sint (UsersPerSecond phase) < 2 ^ 53"
    and "unit_interval pct"
  shows "0 \<le> sint (total_session_users phase pct)
    \<and> sint (total_session_users phase pct) \<le> sint (UsersPerSecond phase)"
proof -
  obtain v where v: "f64_trunc (f64_mul (f64_of_int (sint (UsersPerSecond phase))) pct) = Some v"
    "0 \<le> v" "v \<le> sint (UsersPerSecond phase)"
    using f64_scale_le[OF assms] by blast
  then have "in_int64 v" using assms(2) by (simp add: in_int64_def)
  with v show ?thesis by (simp add: total_session_users_def f64_to_int64_trunc)
qed

theorem session_total_bounds_witness:
  "0 \<le> sint (total_session_users (demo_phase 100) (Fin 1 (- 2)))
    \<and> sint (total_session_users (demo_phase 100) (Fin 1 (- 2))) \<le> 100"
  using session_total_bounds[of "demo_phase 100" "Fin 1 (- 2)"]
  by (simp add: demo_phase_def unit_interval_def)

text \<open>
  With percentage 1 nothing is lost: a session gets all the users of its phase, for
  every user count below \<open>2 ^ 53\<close>.
\<close>

theorem session_total_full:
  assumes "0 \<le> sint (UsersPerSecond phase)" and "sint (UsersPerSecond phase) < 2 ^ 53"
  shows "total_session_users phase (Fin 1 0) = UsersPerSecond phase"
  using f64_scale_one[OF assms] by (simp add: total_session_users_def f64_to_int64_def)

theorem session_total_full_witness: "total_session_users (demo_phase 29) (Fin 1 0) = 29"
  using session_total_full[of "demo_phase 29"] by (simp add: demo_phase_def)

text \<open>
  C29: a negative number of session users that is above \<open>- agentCount\<close> makes
  \<^verbatim>\<open>major\<close> zero, and then the loop that lowers \<^verbatim>\<open>lastIdx\<close> never ends: the agent
  hangs in \<^verbatim>\<open>getSessionUsers\<close>, whatever its index. \<^verbatim>\<open>Job.Validate\<close> accepts such
  a job.
\<close>

theorem session_users_diverge:
  assumes "sint (total_session_users phase pct) < 0"
    and "- sint n < sint (total_session_users phase pct)"
  shows "get_session_users phase pct n i = None"
proof -
  define t where "t = total_session_users phase pct"
  have t: "sint t < 0" "- sint n < sint t" using assms by (simp_all add: t_def)
  then have n: "0 < sint n" by simp
  have rn: "sint n < 2 ^ 63" "- (2 ^ 63) \<le> sint t"
    using in_int64_sint[of n] in_int64_sint[of t] by (simp_all add: in_int64_def)
  have "sint (n - 1) = sint n - 1"
    using n rn by (subst sint_sub_exact) (auto simp: in_int64_def)
  then have "sint (t + (n - 1)) = sint t + (sint n - 1)"
    using t rn by (subst sint_add_exact) (auto simp: in_int64_def)
  then have sum: "sint (t + n - 1) = sint t + sint n - 1" by (simp add: algebra_simps)
  have "n \<noteq> 0" using n by auto
  moreover have "(sint t + sint n - 1) sdiv sint n = 0" using t n by simp
  ultimately have "go_div (t + n - 1) n = Return 0" by (simp add: go_div_def sum)
  moreover have "last_idx_loop t 0 (n - 1) = None"
    using t(1) by (intro last_idx_loop_diverges) (simp add: word_sless_alt)
  ultimately show ?thesis by (simp add: get_session_users_def t_def[symmetric] Let_def)
qed

theorem session_users_diverge_witness:
  "get_session_users (demo_phase (- 1)) (Fin 1 0) 2 0 = None"
proof -
  have "total_session_users (demo_phase (- 1)) (Fin 1 0) = - 1" by code_simp
  then show ?thesis using session_users_diverge[of "demo_phase (- 1)" "Fin 1 0" 2 0] by simp
qed

end
