(* ===== verification/Agent_Phase.thy ===== *)
theory Agent_Phase
  imports Session_Machine Agent_Users
begin

text \<open>
  \<^verbatim>\<open>executeSession\<close> and the goroutine that \<^verbatim>\<open>runPhase\<close> starts for one
  session (\<^verbatim>\<open>agent/agent_controller.go\<close>). The buffered channel
  \<^verbatim>\<open>sessUserChan\<close> is a semaphore: the launcher sends before it starts a user, and the
  user receives when it is done. Its state is the number of values in the buffer; the two wait
  groups are their counters.

  The session is the argument \<open>step\<close>, \<open>start\<close>, \<open>result\<close>: the machine of
  \<^verbatim>\<open>Execute\<close> that an implementation of the interface \<^verbatim>\<open>Session\<close> provides.
  Goroutines that \<^verbatim>\<open>Execute\<close> leaves behind go on after it has returned, so a user
  keeps its local state to the end.
\<close>

subsection \<open>One user: executeSession\<close>

datatype user_pc = UExecute | USleep | URelease | UWgDone | UReturned

datatype 'l thread = TGenerate | TLeaked | TUser user_pc 'l

datatype 'e thread_event =
    TvUid "goerror + string"
  | TvSession 'e
  | TvReturn
  | TvWake
  | TvGo

definition execute_session ::
  "('s \<Rightarrow> 'l \<Rightarrow> 'e \<Rightarrow> ('s, 'l) step_result) \<Rightarrow> (user_context \<Rightarrow> 'l) \<Rightarrow> ('l \<Rightarrow> goerror option option) \<Rightarrow>
     job \<Rightarrow> job_phase \<Rightarrow> 's \<times> nat \<times> int \<Rightarrow> 'l thread \<Rightarrow> 'e thread_event \<Rightarrow>
     ('s \<times> nat \<times> int, 'l thread) step_result" where
  "execute_session step start result j p sh t e =
     (case sh of (s, chan, wg) \<Rightarrow>
      (case (t, e) of
        (TGenerate, TvUid (Inl err)) \<Rightarrow> Next (s, chan, wg) TLeaked
      | (TGenerate, TvUid (Inr uid)) \<Rightarrow>
          Next (s, chan, wg)
            (TUser UExecute (start \<lparr>UserId = uid, ctx_Phase = phase_Name p, ctx_Params = SessionParams j\<rparr>))
      | (TUser pc l, TvSession se) \<Rightarrow>
          (case step s l se of
             Next s' l' \<Rightarrow> Next (s', chan, wg) (TUser pc l')
           | Crash q \<Rightarrow> Crash q
           | Disabled \<Rightarrow> Disabled)
      | (TUser UExecute l, TvReturn) \<Rightarrow>
          (case result l of
             None \<Rightarrow> Disabled
           | Some None \<Rightarrow> Next (s, chan, wg) (TUser URelease l)
           | Some (Some err) \<Rightarrow> Next (s, chan, wg) (TUser USleep l))
      | (TUser USleep l, TvWake) \<Rightarrow> Next (s, chan, wg) (TUser URelease l)
      | (TUser URelease l, TvGo) \<Rightarrow>
          if chan = 0 then Disabled else Next (s, chan - 1, wg) (TUser UWgDone l)
      | (TUser UWgDone l, TvGo) \<Rightarrow>
          if wg \<le> 0 then Crash NegativeWaitGroup else Next (s, chan, wg - 1) (TUser UReturned l)
      | _ \<Rightarrow> Disabled))"

subsection \<open>The launcher of one session\<close>

datatype launcher = LSelect | LLaunch | LWait | LFinished

datatype after_chan = Pending | Fired | Received

record 'l session_run =
  run_users :: int64
  run_chan :: nat
  run_wg :: int
  run_after :: after_chan
  run_launcher :: launcher
  run_threads :: "'l thread list"

datatype 'e launch_event =
    LvSend
  | LvGo
  | LvTimer
  | LvAfter
  | LvWait
  | LvThread nat "'e thread_event"

definition launch_start :: "int64 \<Rightarrow> 'l session_run" where
  "launch_start sessionUsers = \<lparr>run_users = sessionUsers, run_chan = 0, run_wg = 0, run_after = Pending,
     run_launcher = LSelect, run_threads = []\<rparr>"

text \<open>
  The shared state of a launcher is the session object and the counter of \<^verbatim>\<open>swg\<close>. The
  event \<open>LvTimer\<close> is the expiry of the phase's timer, \<open>LvWait\<close> the return of
  \<^verbatim>\<open>wg.Wait()\<close> with the \<^verbatim>\<open>swg.Done()\<close> that follows it.
\<close>

definition launch_step ::
  "('s \<Rightarrow> 'l \<Rightarrow> 'e \<Rightarrow> ('s, 'l) step_result) \<Rightarrow> (user_context \<Rightarrow> 'l) \<Rightarrow> ('l \<Rightarrow> goerror option option) \<Rightarrow>
     job \<Rightarrow> job_phase \<Rightarrow> 's \<times> int \<Rightarrow> 'l session_run \<Rightarrow> 'e launch_event \<Rightarrow>
     ('s \<times> int, 'l session_run) step_result" where
  "launch_step step start result j p sh r e =
     (case sh of (s, swg) \<Rightarrow>
      (case e of
        LvSend \<Rightarrow>
          if run_launcher r = LSelect \<and> int (run_chan r) < sint (run_users r)
          then Next (s, swg) (r\<lparr>run_chan := run_chan r + 1, run_launcher := LLaunch\<rparr>)
          else Disabled
      | LvGo \<Rightarrow>
          if run_launcher r = LLaunch
          then Next (s, swg) (r\<lparr>run_wg := run_wg r + 1, run_launcher := LSelect,
                                run_threads := run_threads r @ [TGenerate]\<rparr>)
          else Disabled
      | LvTimer \<Rightarrow> if run_after r = Pending then Next (s, swg) (r\<lparr>run_after := Fired\<rparr>) else Disabled
      | LvAfter \<Rightarrow>
          if run_launcher r = LSelect \<and> run_after r = Fired
          then Next (s, swg) (r\<lparr>run_after := Received, run_launcher := LWait\<rparr>)
          else Disabled
      | LvWait \<Rightarrow>
          if run_launcher r = LWait \<and> run_wg r = 0
          then (if swg \<le> 0 then Crash NegativeWaitGroup
                else Next (s, swg - 1) (r\<lparr>run_launcher := LFinished\<rparr>))
          else Disabled
      | LvThread i te \<Rightarrow>
          if i < length (run_threads r)
          then (case execute_session step start result j p (s, run_chan r, run_wg r) (run_threads r ! i) te of
                  Next (s', chan, wg) t \<Rightarrow>
                    Next (s', swg) (r\<lparr>run_chan := chan, run_wg := wg, run_threads := (run_threads r)[i := t]\<rparr>)
                | Crash q \<Rightarrow> Crash q
                | Disabled \<Rightarrow> Disabled)
          else Disabled))"

lemma launch_step_users:
  "launch_step step start result j p sh r e = Next sh' r' \<Longrightarrow> run_users r' = run_users r"
  by (auto simp: launch_step_def split: step_result.splits launch_event.splits if_splits prod.splits)

lemma launch_run_users:
  "run_events (launch_step step start result j p) sh r es = Next sh' r' \<Longrightarrow> run_users r' = run_users r"
  by (induction es arbitrary: sh r) (auto split: step_result.splits dest: launch_step_users)

text \<open>A user whose id could not be generated stays where it is.\<close>

lemma launch_step_leaked:
  assumes "launch_step step start result j p sh r e = Next sh' r'" and "TLeaked \<in> set (run_threads r)"
  shows "TLeaked \<in> set (run_threads r')"
proof (cases e)
  case (LvThread i te)
  then obtain s chan wg t where "i < length (run_threads r)" "run_threads r' = (run_threads r)[i := t]"
    "execute_session step start result j p (s, run_chan r, run_wg r) (run_threads r ! i) te = Next (fst sh', chan, wg) t"
    using assms(1) by (auto simp: launch_step_def split: if_splits step_result.splits prod.splits)
  then have "run_threads r ! i \<noteq> TLeaked" by (auto simp: execute_session_def)
  with assms(2) \<open>run_threads r' = (run_threads r)[i := t]\<close> show ?thesis
    by (metis in_set_conv_nth length_list_update nth_list_update_neq)
qed (use assms in \<open>auto simp: launch_step_def split: if_splits prod.splits\<close>)

lemma launch_run_leaked:
  "run_events (launch_step step start result j p) sh r es = Next sh' r' \<Longrightarrow>
     TLeaked \<in> set (run_threads r) \<Longrightarrow> TLeaked \<in> set (run_threads r')"
  by (induction es arbitrary: sh r) (auto split: step_result.splits dest: launch_step_leaked)

subsection \<open>The semaphore invariant\<close>

fun holds_slot :: "'l thread \<Rightarrow> bool" where
  "holds_slot (TUser pc l) = (pc \<in> {UExecute, USleep, URelease})"
| "holds_slot _ = True"

fun awaited :: "'l thread \<Rightarrow> bool" where
  "awaited (TUser pc l) = (pc \<noteq> UReturned)"
| "awaited _ = True"

fun executing :: "'l thread \<Rightarrow> bool" where
  "executing (TUser UExecute l) = True"
| "executing _ = False"

fun returned_ok :: "('l \<Rightarrow> goerror option option) \<Rightarrow> 'l thread \<Rightarrow> bool" where
  "returned_ok result (TUser pc l) = (pc \<noteq> UExecute \<longrightarrow> result l \<noteq> None)"
| "returned_ok result _ = True"

definition launch_inv :: "('l \<Rightarrow> goerror option option) \<Rightarrow> 'l session_run \<Rightarrow> bool" where
  "launch_inv result r \<longleftrightarrow>
     int (run_chan r) \<le> sint (run_users r)
     \<and> run_chan r = length (filter holds_slot (run_threads r)) + of_bool (run_launcher r = LLaunch)
     \<and> run_wg r = int (length (filter awaited (run_threads r)))
     \<and> (\<forall>t \<in> set (run_threads r). returned_ok result t)
     \<and> (run_launcher r = LFinished \<longrightarrow> run_wg r = 0)"

lemma executing_holds: "executing t \<Longrightarrow> holds_slot t"
  by (cases t) (auto elim: executing.elims)

lemma length_filter_append_one: "length (filter P (xs @ [x])) = length (filter P xs) + of_bool (P x)"
  by simp

text \<open>
  What the launcher relies on in the interface \<^verbatim>\<open>Session\<close>: once \<^verbatim>\<open>Execute\<close>
  has returned, what its left-over goroutines do does not change the result.
\<close>

locale session_exec =
  fixes step :: "'s \<Rightarrow> 'l \<Rightarrow> 'e \<Rightarrow> ('s, 'l) step_result"
    and start :: "user_context \<Rightarrow> 'l"
    and result :: "'l \<Rightarrow> goerror option option"
  assumes result_stable: "step s l e = Next s' l' \<Longrightarrow> result l \<noteq> None \<Longrightarrow> result l' = result l"
begin

lemma execute_session_inv:
  assumes "execute_session step start result j p (s, chan, wg) t e = Next (s', chan', wg') t'"
    and "returned_ok result t"
  shows "returned_ok result t'"
    "int chan' = int chan - of_bool (holds_slot t) + of_bool (holds_slot t')"
    "wg' = wg - of_bool (awaited t) + of_bool (awaited t')"
    "holds_slot t' \<Longrightarrow> holds_slot t" "awaited t' \<Longrightarrow> awaited t"
  using assms result_stable
  by (auto simp: execute_session_def split: thread.splits thread_event.splits user_pc.splits
      sum.splits option.splits if_splits step_result.splits)

lemma launch_step_inv:
  assumes "launch_step step start result j p (s, swg) r e = Next (s', swg') r'" and "launch_inv result r"
  shows "launch_inv result r'"
proof (cases e)
  case (LvThread i te)
  let ?ts = "run_threads r"
  obtain chan wg t where i: "i < length ?ts"
    and ex: "execute_session step start result j p (s, run_chan r, run_wg r) (?ts ! i) te = Next (s', chan, wg) t"
    and r': "r' = r\<lparr>run_chan := chan, run_wg := wg, run_threads := ?ts[i := t]\<rparr>"
    using assms(1) LvThread by (auto simp: launch_step_def split: if_splits step_result.splits)
  have ok: "returned_ok result (?ts ! i)" using assms(2) i by (simp add: launch_inv_def)
  note x = execute_session_inv[OF ex ok]
  have "\<forall>t' \<in> set (?ts[i := t]). returned_ok result t'"
    using x(1) assms(2) set_update_subset_insert[of ?ts i t] by (auto simp: launch_inv_def)
  moreover have "wg = int (length (filter awaited (?ts[i := t])))"
    using x(3) assms(2) length_filter_update_int[OF i, of awaited t] by (simp add: launch_inv_def)
  moreover have "chan = length (filter holds_slot (?ts[i := t])) + of_bool (run_launcher r = LLaunch)"
    using x(2) assms(2) length_filter_update_int[OF i, of holds_slot t]
    by (cases "run_launcher r = LLaunch") (auto simp: launch_inv_def)
  moreover have "chan \<le> run_chan r"
    using x(2,4) by (cases "holds_slot t"; cases "holds_slot (?ts ! i)") auto
  moreover have "run_wg r = 0 \<longrightarrow> wg = 0"
    using x(3,5) i assms(2) by (auto simp: launch_inv_def filter_empty_conv)
  ultimately show ?thesis
    using assms(2) by (cases "run_launcher r = LLaunch") (auto simp: launch_inv_def r')
qed (use assms in \<open>auto simp: launch_step_def launch_inv_def split: if_splits\<close>)

lemma launch_run_inv:
  "run_events (launch_step step start result j p) (s, swg) r es = Next (s', swg') r' \<Longrightarrow>
     launch_inv result r \<Longrightarrow> launch_inv result r'"
proof (induction es arbitrary: s swg r)
  case Nil
  then show ?case by simp
next
  case (Cons e es)
  then obtain s1 swg1 r1 where "launch_step step start result j p (s, swg) r e = Next (s1, swg1) r1"
    "run_events (launch_step step start result j p) (s1, swg1) r1 es = Next (s', swg') r'"
    by (auto split: step_result.splits)
  with Cons.IH launch_step_inv Cons.prems(2) show ?case by blast
qed

end

text \<open>The wait group of the phase counts the launchers that have not finished.\<close>

lemma launch_step_swg:
  assumes "launch_step step start result j p (s, swg) r e = Next (s', swg') r'"
  shows "swg' = swg - of_bool (run_launcher r \<noteq> LFinished) + of_bool (run_launcher r' \<noteq> LFinished)"
    "run_launcher r = LFinished \<Longrightarrow> run_launcher r' = LFinished"
  using assms
  by (auto simp: launch_step_def split: step_result.splits launch_event.splits if_splits prod.splits)

lemma launch_start_inv: "0 \<le> sint n \<Longrightarrow> launch_inv result (launch_start n)"
  by (simp add: launch_inv_def launch_start_def)

lemma launch_inv_cap:
  "launch_inv result r \<Longrightarrow> int (length (filter executing (run_threads r))) \<le> sint (run_users r)"
  using filter_length_mono[of "run_threads r" executing holds_slot]
  by (force simp: launch_inv_def executing_holds)

lemma launch_inv_finished:
  assumes "launch_inv result r" and "run_launcher r = LFinished" and "t \<in> set (run_threads r)"
  shows "\<exists>l. t = TUser UReturned l \<and> result l \<noteq> None"
proof -
  have "length (filter awaited (run_threads r)) = 0" using assms(1,2) by (auto simp: launch_inv_def)
  then have "\<not> awaited t" using assms(3) by (simp add: filter_empty_conv)
  moreover have "returned_ok result t" using assms(1,3) by (simp add: launch_inv_def)
  ultimately show ?thesis by (cases t) auto
qed

subsection \<open>The gauge of a session under the launcher\<close>

fun thread_weight :: "('l \<Rightarrow> int64) \<Rightarrow> 'l thread \<Rightarrow> int64" where
  "thread_weight weight (TUser pc l) = weight l"
| "thread_weight weight _ = 0"

fun thread_all :: "('l \<Rightarrow> bool) \<Rightarrow> 'l thread \<Rightarrow> bool" where
  "thread_all P (TUser pc l) = P l"
| "thread_all P _ = True"

definition run_active :: "('l \<Rightarrow> bool) \<Rightarrow> 'l session_run \<Rightarrow> nat" where
  "run_active active r =
     length (filter (\<lambda>t. case t of TUser pc l \<Rightarrow> active l | _ \<Rightarrow> False) (run_threads r))"

text \<open>A counter of a session under the launcher: it changes by what the threads weigh.\<close>

context session_counter
begin

lemma execute_session_weight:
  assumes "execute_session step start result j p (s, chan, wg) t e = Next (s', chan', wg') t'"
    and "thread_all inv t"
  shows "thread_all inv t' \<and> read s' = read s + (thread_weight weight t' - thread_weight weight t)"
  using assms start_inv step_inv start_weight step_weight
  by (auto simp: execute_session_def split: thread.splits thread_event.splits user_pc.splits
      sum.splits option.splits if_splits step_result.splits)

lemma launch_step_weight:
  assumes "launch_step step start result j p (s, swg) r e = Next (s', swg') r'"
    and "\<forall>t \<in> set (run_threads r). thread_all inv t"
  shows "(\<forall>t \<in> set (run_threads r'). thread_all inv t) \<and>
    read s' = read s + (sum_list (map (thread_weight weight) (run_threads r'))
                        - sum_list (map (thread_weight weight) (run_threads r)))"
proof (cases e)
  case (LvThread i te)
  let ?ts = "run_threads r"
  obtain chan wg t where i: "i < length ?ts"
    and ex: "execute_session step start result j p (s, run_chan r, run_wg r) (?ts ! i) te = Next (s', chan, wg) t"
    and r': "run_threads r' = ?ts[i := t]"
    using assms(1) LvThread by (auto simp: launch_step_def split: if_splits step_result.splits)
  have "thread_all inv t" "read s' = read s + (thread_weight weight t - thread_weight weight (?ts ! i))"
    using execute_session_weight[OF ex] assms(2) i by auto
  with i assms(2) show ?thesis
    using set_update_subset_insert[of ?ts i t] by (auto simp: r' sum_list_map_update)
qed (use assms in \<open>auto simp: launch_step_def split: if_splits\<close>)

lemma launch_run_weight:
  "run_events (launch_step step start result j p) (s, swg) r es = Next (s', swg') r' \<Longrightarrow>
     \<forall>t \<in> set (run_threads r). thread_all inv t \<Longrightarrow>
     read s' = read s + (sum_list (map (thread_weight weight) (run_threads r'))
                        - sum_list (map (thread_weight weight) (run_threads r)))"
proof (induction es arbitrary: s swg r)
  case Nil
  then show ?case by simp
next
  case (Cons e es)
  then obtain s1 swg1 r1 where st: "launch_step step start result j p (s, swg) r e = Next (s1, swg1) r1"
    "run_events (launch_step step start result j p) (s1, swg1) r1 es = Next (s', swg') r'"
    by (auto split: step_result.splits)
  from Cons.IH[OF st(2)] launch_step_weight[OF st(1) Cons.prems(2)] show ?case by simp
qed

end

locale session_capped = session_gauge step start inv read weight active + session_exec step start result
  for step :: "'s \<Rightarrow> 'l \<Rightarrow> 'e \<Rightarrow> ('s, 'l) step_result"
    and start :: "user_context \<Rightarrow> 'l"
    and inv :: "'l \<Rightarrow> bool"
    and read :: "'s \<Rightarrow> int64"
    and weight :: "'l \<Rightarrow> int64"
    and active :: "'l \<Rightarrow> bool"
    and result :: "'l \<Rightarrow> goerror option option" +
  assumes active_running: "active l \<Longrightarrow> result l = None"
begin

lemma sum_thread_weight:
  "sum_list (map (thread_weight weight) (run_threads r)) = word_of_nat (run_active active r)"
  unfolding run_active_def
proof (induction "run_threads r" arbitrary: r)
  case Nil
  then show ?case by simp
next
  case (Cons t ts)
  have "sum_list (map (thread_weight weight) ts) =
    word_of_nat (length (filter (\<lambda>t. case t of TUser pc l \<Rightarrow> active l | _ \<Rightarrow> False) ts))"
    using Cons(1)[of "r\<lparr>run_threads := ts\<rparr>"] by simp
  then show ?case unfolding Cons(2)[symmetric] by (cases t) (auto simp: weight_active)
qed

lemma run_active_cap:
  assumes "launch_inv result r"
  shows "int (run_active active r) \<le> sint (run_users r)"
proof -
  have "run_active active r \<le> length (filter executing (run_threads r))"
    unfolding run_active_def
  proof (rule filter_length_mono)
    fix t assume t: "t \<in> set (run_threads r)" "case t of TUser pc l \<Rightarrow> active l | _ \<Rightarrow> False"
    from t(2) obtain pc l where l: "t = TUser pc l" "active l" by (auto split: thread.splits)
    have "returned_ok result t" using assms t(1) unfolding launch_inv_def by blast
    with l active_running[OF l(2)] show "executing t" by auto
  qed
  with launch_inv_cap[OF assms] show ?thesis by simp
qed

lemma run_active_finished:
  assumes "launch_inv result r" and "run_launcher r = LFinished"
  shows "run_active active r = 0"
  using launch_inv_finished[OF assms] active_running
  by (fastforce simp: run_active_def filter_empty_conv)

text \<open>
  The gauge is the number of active users of the run, which the launcher's semaphore keeps
  within the session's users.
\<close>

lemma launch_gauge:
  assumes run: "run_events (launch_step step start result j p) (s, swg) (launch_start n) es = Next (s', swg') r"
    and n: "0 \<le> sint n" and zero: "read s = 0"
  shows "sint (read s') = int (run_active active r) \<and> int (run_active active r) \<le> sint n"
proof -
  have n': "run_users r = n" using launch_run_users[OF run] by (simp add: launch_start_def)
  have inv: "launch_inv result r" by (rule launch_run_inv[OF run launch_start_inv[OF n]])
  have cap: "int (run_active active r) \<le> sint n" using run_active_cap[OF inv] n' by simp
  have "read s' = word_of_nat (run_active active r)"
    using launch_run_weight[OF run] zero by (simp add: launch_start_def sum_thread_weight)
  then have "sint (read s') = sint (word_of_int (int (run_active active r)) :: int64)" by simp
  also have "\<dots> = int (run_active active r)"
    by (rule sint_of_int_exact) (use cap in_int64_sint[of n] in \<open>auto simp: in_int64_def\<close>)
  finally show ?thesis using cap by simp
qed

end

end
