(* ===== verification/Session_Map.thy ===== *)
theory Session_Map
  imports Kafka_Producer Http_Get SignalR_Core_Broadcast SignalR_Fx_Broadcast WebPubSub_Echo Redis_PubSub
    RabbitMQ_Queue Pulsar_Queue Agent_Phase
begin

text \<open>
  \<^verbatim>\<open>sessions/session.go\<close>: the interface \<^verbatim>\<open>Session\<close>, the registry
  \<^verbatim>\<open>SessionMap\<close> and \<^verbatim>\<open>DummySession\<close>. An object of the interface is a tagged
  struct; a call of an interface method is a case distinction on the tag. The registry is a map
  from names to the objects it points to, so that changing an object is an update of the map.
\<close>

subsection \<open>DummySession\<close>

record dummy_session =
  d_counterA :: int64
  d_counterB :: int64

definition dummy_Name :: string where
  [simp]: "dummy_Name = ''Dummy''"

datatype dummy_pc = DStart | DCountB | DDone

definition dummy_Setup :: "unit \<Rightarrow> params \<Rightarrow> dummy_session \<Rightarrow> (dummy_session \<times> goerror option) go" where
  "dummy_Setup _ ps s = Return (\<lparr>d_counterA = 0, d_counterB = 0\<rparr>, None)"

definition dummy_step :: "dummy_session \<Rightarrow> dummy_pc \<Rightarrow> unit \<Rightarrow> (dummy_session, dummy_pc) step_result" where
  "dummy_step s pc e =
     (case pc of
        DStart \<Rightarrow> Next (s\<lparr>d_counterA := d_counterA s + 1\<rparr>) DCountB
      | DCountB \<Rightarrow> Next (s\<lparr>d_counterB := d_counterB s + 2\<rparr>) DDone
      | DDone \<Rightarrow> Disabled)"

definition dummy_result :: "dummy_pc \<Rightarrow> goerror option option" where
  "dummy_result pc = (case pc of DDone \<Rightarrow> Some None | _ \<Rightarrow> None)"

definition dummy_Counters :: "dummy_session \<Rightarrow> counters" where
  "dummy_Counters s = [''a'' \<mapsto> d_counterA s, ''b'' \<mapsto> d_counterB s]"

interpretation dummy_session: session_api dummy_Setup "\<lambda>s. Return (dummy_Counters s)"
  by unfold_locales (auto simp: dummy_Setup_def dummy_Counters_def)

subsection \<open>Objects of the interface\<close>

datatype session_obj =
    OEcho signalr_core_echo
  | OCore signalr_core_broadcast
  | OFx signalr_fx_broadcast
  | ORedis redis_pubsub
  | OHttp http_get_session
  | OWps webpubsub_echo
  | ORabbit rabbit_queue
  | OKafka kafka_producer
  | OPulsar pulsar_queue
  | ODummy dummy_session

datatype user_obj =
    UEcho echo_user
  | UCore cbs_user
  | UFx fx_user
  | URedis redis_user
  | UHttp http_user
  | UWps wps_user
  | URabbit rabbit_user
  | UKafka kafka_user
  | UPulsar pulsar_user
  | UDummy dummy_pc

datatype event_obj =
    EEcho echo_event
  | ECore cbs_event
  | EFx fx_event
  | ERedis redis_event
  | EHttp http_event
  | EWps wps_ev
  | ERabbit rabbit_event
  | EKafka kafka_event
  | EPulsar pulsar_event
  | EDummy

text \<open>What the sessions take from the libraries: random bytes, decoders, dialers.\<close>

record session_env =
  env_rnd :: "nat \<Rightarrow> 8 word"
  env_http :: http_env
  env_pulsar :: pulsar_env
  env_core :: "string \<Rightarrow> goerror + signalr_core_invocation"
  env_fx :: "string \<Rightarrow> goerror + fx_server_message"
  env_redis :: "string \<Rightarrow> goerror + redis_message"
  env_wps :: "string \<Rightarrow> goerror + webpubsub_event"

definition obj_Name :: "session_obj \<Rightarrow> string" where
  "obj_Name x =
     (case x of
        OEcho _ \<Rightarrow> echo_Name
      | OCore _ \<Rightarrow> cbs_Name
      | OFx _ \<Rightarrow> fx_Name
      | ORedis _ \<Rightarrow> redis_Name
      | OHttp _ \<Rightarrow> http_Name
      | OWps _ \<Rightarrow> wps_Name
      | ORabbit _ \<Rightarrow> rabbit_Name
      | OKafka _ \<Rightarrow> kafka_Name
      | OPulsar _ \<Rightarrow> pulsar_Name
      | ODummy _ \<Rightarrow> dummy_Name)"

definition wrap :: "('s \<Rightarrow> session_obj) \<Rightarrow> ('s \<times> goerror option) go \<Rightarrow> (session_obj \<times> goerror option) go" where
  "wrap C r = go_bind r (\<lambda>(s, err). Return (C s, err))"

definition obj_Setup ::
  "session_env \<Rightarrow> params \<Rightarrow> session_obj \<Rightarrow> (session_obj \<times> goerror option) go" where
  "obj_Setup env ps x =
     (case x of
        OEcho s \<Rightarrow> wrap OEcho (echo_Setup () ps s)
      | OCore s \<Rightarrow> wrap OCore (cbs_Setup () ps s)
      | OFx s \<Rightarrow> wrap OFx (fx_Setup () ps s)
      | ORedis s \<Rightarrow> wrap ORedis (redis_Setup () ps s)
      | OHttp s \<Rightarrow> wrap OHttp (http_Setup (env_http env) ps s)
      | OWps s \<Rightarrow> wrap OWps (wps_Setup () ps s)
      | ORabbit s \<Rightarrow> wrap ORabbit (rabbit_Setup (env_rnd env) ps s)
      | OKafka s \<Rightarrow> wrap OKafka (kafka_Setup (env_rnd env) ps s)
      | OPulsar s \<Rightarrow> wrap OPulsar (pulsar_Setup (env_pulsar env) ps s)
      | ODummy s \<Rightarrow> wrap ODummy (dummy_Setup () ps s))"

definition obj_Counters :: "session_obj \<Rightarrow> counters go" where
  "obj_Counters x =
     (case x of
        OEcho s \<Rightarrow> Return (echo_Counters s)
      | OCore s \<Rightarrow> cbs_Counters s
      | OFx s \<Rightarrow> Return (fx_Counters s)
      | ORedis s \<Rightarrow> Return (redis_Counters s)
      | OHttp s \<Rightarrow> Return (http_Counters s)
      | OWps s \<Rightarrow> Return (wps_Counters s)
      | ORabbit s \<Rightarrow> Return (rabbit_Counters s)
      | OKafka s \<Rightarrow> Return (kafka_Counters s)
      | OPulsar s \<Rightarrow> Return (pulsar_Counters s)
      | ODummy s \<Rightarrow> Return (dummy_Counters s))"

text \<open>The type switch on \<^verbatim>\<open>CounterAggregator\<close>: only the HTTP session implements it.\<close>

definition obj_AggregateCounters :: "session_obj option \<Rightarrow> job \<Rightarrow> gotime \<Rightarrow> counters \<Rightarrow> counters go" where
  "obj_AggregateCounters x j now cs =
     (case x of Some (OHttp s) \<Rightarrow> http_AggregateCounters j now cs | _ \<Rightarrow> Return cs)"

text \<open>\<^verbatim>\<open>Execute\<close> through the interface.\<close>

fun lift_step :: "('s \<Rightarrow> session_obj) \<Rightarrow> ('l \<Rightarrow> user_obj) \<Rightarrow> ('s, 'l) step_result \<Rightarrow> (session_obj, user_obj) step_result" where
  "lift_step C D (Next s l) = Next (C s) (D l)"
| "lift_step C D (Crash p) = Crash p"
| "lift_step C D Disabled = Disabled"

definition obj_start :: "session_obj \<Rightarrow> user_context \<Rightarrow> user_obj" where
  "obj_start x ctx =
     (case x of
        OEcho _ \<Rightarrow> UEcho (echo_start ctx)
      | OCore _ \<Rightarrow> UCore (cbs_start ctx)
      | OFx _ \<Rightarrow> UFx (fx_start ctx)
      | ORedis _ \<Rightarrow> URedis (redis_start ctx)
      | OHttp _ \<Rightarrow> UHttp (http_start ctx)
      | OWps _ \<Rightarrow> UWps (wps_start ctx)
      | ORabbit _ \<Rightarrow> URabbit (rabbit_start ctx)
      | OKafka _ \<Rightarrow> UKafka (kafka_start ctx)
      | OPulsar _ \<Rightarrow> UPulsar (pulsar_start ctx)
      | ODummy _ \<Rightarrow> UDummy DStart)"

definition obj_step ::
  "session_env \<Rightarrow> session_obj \<Rightarrow> user_obj \<Rightarrow> event_obj \<Rightarrow> (session_obj, user_obj) step_result" where
  "obj_step env x u ev =
     (case u of
        UEcho l \<Rightarrow> (case ev of EEcho e \<Rightarrow> (case x of OEcho s \<Rightarrow> lift_step OEcho UEcho (echo_step (env_core env) s l e) | _ \<Rightarrow> Disabled) | _ \<Rightarrow> Disabled)
      | UCore l \<Rightarrow> (case ev of ECore e \<Rightarrow> (case x of OCore s \<Rightarrow> lift_step OCore UCore (cbs_step (env_core env) s l e) | _ \<Rightarrow> Disabled) | _ \<Rightarrow> Disabled)
      | UFx l \<Rightarrow> (case ev of EFx e \<Rightarrow> (case x of OFx s \<Rightarrow> lift_step OFx UFx (fx_step (env_fx env) s l e) | _ \<Rightarrow> Disabled) | _ \<Rightarrow> Disabled)
      | URedis l \<Rightarrow> (case ev of ERedis e \<Rightarrow> (case x of ORedis s \<Rightarrow> lift_step ORedis URedis (redis_step (env_redis env) s l e) | _ \<Rightarrow> Disabled) | _ \<Rightarrow> Disabled)
      | UHttp l \<Rightarrow> (case ev of EHttp e \<Rightarrow> (case x of OHttp s \<Rightarrow> lift_step OHttp UHttp (http_step s l e) | _ \<Rightarrow> Disabled) | _ \<Rightarrow> Disabled)
      | UWps l \<Rightarrow> (case ev of EWps e \<Rightarrow> (case x of OWps s \<Rightarrow> lift_step OWps UWps (wps_step (env_wps env) s l e) | _ \<Rightarrow> Disabled) | _ \<Rightarrow> Disabled)
      | URabbit l \<Rightarrow> (case ev of ERabbit e \<Rightarrow> (case x of ORabbit s \<Rightarrow> lift_step ORabbit URabbit (rabbit_step s l e) | _ \<Rightarrow> Disabled) | _ \<Rightarrow> Disabled)
      | UKafka l \<Rightarrow> (case ev of EKafka e \<Rightarrow> (case x of OKafka s \<Rightarrow> lift_step OKafka UKafka (kafka_step s l e) | _ \<Rightarrow> Disabled) | _ \<Rightarrow> Disabled)
      | UPulsar l \<Rightarrow> (case ev of EPulsar e \<Rightarrow> (case x of OPulsar s \<Rightarrow> lift_step OPulsar UPulsar (pulsar_step s l e) | _ \<Rightarrow> Disabled) | _ \<Rightarrow> Disabled)
      | UDummy l \<Rightarrow> (case ev of EDummy \<Rightarrow> (case x of ODummy s \<Rightarrow> lift_step ODummy UDummy (dummy_step s l ()) | _ \<Rightarrow> Disabled) | _ \<Rightarrow> Disabled))"

definition obj_result :: "user_obj \<Rightarrow> goerror option option" where
  "obj_result u =
     (case u of
        UEcho l \<Rightarrow> echo_result l | UCore l \<Rightarrow> cbs_result l | UFx l \<Rightarrow> fx_result l | URedis l \<Rightarrow> redis_result l
      | UHttp l \<Rightarrow> http_result l | UWps l \<Rightarrow> wps_result l | URabbit l \<Rightarrow> rabbit_result l
      | UKafka l \<Rightarrow> kafka_result l | UPulsar l \<Rightarrow> pulsar_result l | UDummy l \<Rightarrow> dummy_result l)"

subsection \<open>The registry\<close>

definition SessionNamesList :: "string list" where
  "SessionNamesList = [''signalrcore:echo'', ''signalrcore:broadcast:sender'', ''signalrfx:broadcast:sender'',
     ''redis:pubsub'', ''http:get'', ''webpubsub:echo'', ''rabbitmq:massive_queue'', ''kafka:producer'',
     ''pulsar:massive_queue'']"

text \<open>Every object starts as the zero value of its struct.\<close>

definition SessionMap :: "string \<rightharpoonup> session_obj" where
  "SessionMap =
     [''signalrcore:echo'' \<mapsto> OEcho \<lparr>e_cntInProgress = 0, e_cntError = 0, e_cntSuccess = 0\<rparr>,
      ''signalrcore:broadcast:sender'' \<mapsto> OCore \<lparr>b_userIdx = 0, b_cntInProgress = 0, b_cntConnected = 0,
        b_cntError = 0, b_cntCloseError = 0, b_cntSuccess = 0, b_cntMessagesRecv = 0, b_cntMessagesSend = 0,
        b_cntLatencyLessThan100ms = 0, b_cntLatencyLessThan500ms = 0, b_cntLatencyLessThan1000ms = 0,
        b_cntLatencyMoreThan1000ms = 0, b_cntInstances = []\<rparr>,
      ''signalrfx:broadcast:sender'' \<mapsto> OFx \<lparr>f_cntInProgress = 0, f_cntConnected = 0, f_cntError = 0,
        f_cntCloseError = 0, f_cntSuccess = 0, f_cntMessagesRecv = 0, f_cntMessagesSend = 0,
        f_cntMessagesSendAck = 0, f_cntLatencyLessThan100ms = 0, f_cntLatencyLessThan500ms = 0,
        f_cntLatencyLessThan1000ms = 0, f_cntLatencyMoreThan1000ms = 0\<rparr>,
      ''redis:pubsub'' \<mapsto> ORedis \<lparr>r_pool = None, r_cntInProgress = 0, r_cntConnected = 0, r_cntError = 0,
        r_cntErrorNotRecvAll = 0, r_cntSuccess = 0, r_cntMessagesRecv = 0, r_cntMessagesSend = 0,
        r_cntLatencyLessThan100ms = 0, r_cntLatencyLessThan500ms = 0, r_cntLatencyLessThan1000ms = 0,
        r_cntLatencyMoreThan1000ms = 0\<rparr>,
      ''http:get'' \<mapsto> OHttp \<lparr>h_client = None, h_quicPool = None, h_counterInitiated = 0,
        h_counterCompleted = 0, h_counterError = 0, h_counterDial = 0, h_counterDurationLt1000 = 0,
        h_counterDurationLt10000 = 0, h_counterDurationGte10000 = 0\<rparr>,
      ''webpubsub:echo'' \<mapsto> OWps \<lparr>w_subprotocols = None, w_cntInProgress = 0, w_cntError = 0, w_cntSuccess = 0\<rparr>,
      ''rabbitmq:massive_queue'' \<mapsto> ORabbit \<lparr>q_cntInProgress = 0, q_cntError = 0, q_cntSuccess = 0,
        q_cntPublished = 0, q_cntReceived = 0, q_connPool = None, q_payload = [], q_queues = 0,
        q_queueMessages = 0, q_queueType = '''', q_msgDeliveryMode = 0\<rparr>,
      ''kafka:producer'' \<mapsto> OKafka \<lparr>k_cntInProgress = 0, k_cntError = 0, k_cntSuccess = 0, k_cntWritten = 0,
        k_payload = [], k_msgCnt = 0\<rparr>,
      ''pulsar:massive_queue'' \<mapsto> OPulsar \<lparr>u_cntInProgress = 0, u_cntError = 0, u_cntSuccess = 0,
        u_cntPublished = 0, u_cntReceived = 0, u_client = None, u_payload = [], u_queues = 0,
        u_queueMessages = 0\<rparr>]"

lemma dom_SessionMap: "dom SessionMap = set SessionNamesList"
  by (auto simp: SessionMap_def SessionNamesList_def)

subsection \<open>The interface's laws for every object\<close>

interpretation obj_session: session_api obj_Setup obj_Counters
proof
  fix env ps x x'
  assume "obj_Setup env ps x = Return (x', None)"
  then show "\<exists>m. obj_Counters x' = Return m \<and> (\<forall>k. cnt_get m k = 0)"
    by (cases x)
      (auto simp: obj_Setup_def wrap_def obj_Counters_def split_beta
        dest!: echo_session.Setup_zero cbs_session.Setup_zero fx_session.Setup_zero
          redis_session.Setup_zero http_session.Setup_zero wps_session.Setup_zero rabbit_session.Setup_zero
          kafka_session.Setup_zero pulsar_session.Setup_zero dummy_session.Setup_zero)
qed

text \<open>A step through the interface is a step of the session with the same tag.\<close>

lemma lift_step_Next:
  "lift_step C D r = Next x' u' \<longleftrightarrow> (\<exists>s' l'. r = Next s' l' \<and> x' = C s' \<and> u' = D l')"
  by (cases r) auto

lemma obj_step_cases:
  assumes "obj_step env x u e = Next x' u'"
  obtains (echo) s l ev s' l' where "x = OEcho s" "u = UEcho l" "echo_step (env_core env) s l ev = Next s' l'"
      "x' = OEcho s'" "u' = UEcho l'"
  | (core) s l ev s' l' where "x = OCore s" "u = UCore l" "cbs_step (env_core env) s l ev = Next s' l'"
      "x' = OCore s'" "u' = UCore l'"
  | (fx) s l ev s' l' where "x = OFx s" "u = UFx l" "fx_step (env_fx env) s l ev = Next s' l'"
      "x' = OFx s'" "u' = UFx l'"
  | (redis) s l ev s' l' where "x = ORedis s" "u = URedis l" "redis_step (env_redis env) s l ev = Next s' l'"
      "x' = ORedis s'" "u' = URedis l'"
  | (http) s l ev s' l' where "x = OHttp s" "u = UHttp l" "http_step s l ev = Next s' l'"
      "x' = OHttp s'" "u' = UHttp l'"
  | (wps) s l ev s' l' where "x = OWps s" "u = UWps l" "wps_step (env_wps env) s l ev = Next s' l'"
      "x' = OWps s'" "u' = UWps l'"
  | (rabbit) s l ev s' l' where "x = ORabbit s" "u = URabbit l" "rabbit_step s l ev = Next s' l'"
      "x' = ORabbit s'" "u' = URabbit l'"
  | (kafka) s l ev s' l' where "x = OKafka s" "u = UKafka l" "kafka_step s l ev = Next s' l'"
      "x' = OKafka s'" "u' = UKafka l'"
  | (pulsar) s l ev s' l' where "x = OPulsar s" "u = UPulsar l" "pulsar_step s l ev = Next s' l'"
      "x' = OPulsar s'" "u' = UPulsar l'"
  | (dummy) s l s' l' where "x = ODummy s" "u = UDummy l" "dummy_step s l () = Next s' l'"
      "x' = ODummy s'" "u' = UDummy l'"
proof (cases u)
  case (UEcho l)
  with assms echo[of _ l] show ?thesis
    by (auto simp: obj_step_def lift_step_Next split: event_obj.splits session_obj.splits)
next
  case (UCore l)
  with assms core[of _ l] show ?thesis
    by (auto simp: obj_step_def lift_step_Next split: event_obj.splits session_obj.splits)
next
  case (UFx l)
  with assms fx[of _ l] show ?thesis
    by (auto simp: obj_step_def lift_step_Next split: event_obj.splits session_obj.splits)
next
  case (URedis l)
  with assms redis[of _ l] show ?thesis
    by (auto simp: obj_step_def lift_step_Next split: event_obj.splits session_obj.splits)
next
  case (UHttp l)
  with assms http[of _ l] show ?thesis
    by (auto simp: obj_step_def lift_step_Next split: event_obj.splits session_obj.splits)
next
  case (UWps l)
  with assms wps[of _ l] show ?thesis
    by (auto simp: obj_step_def lift_step_Next split: event_obj.splits session_obj.splits)
next
  case (URabbit l)
  with assms rabbit[of _ l] show ?thesis
    by (auto simp: obj_step_def lift_step_Next split: event_obj.splits session_obj.splits)
next
  case (UKafka l)
  with assms kafka[of _ l] show ?thesis
    by (auto simp: obj_step_def lift_step_Next split: event_obj.splits session_obj.splits)
next
  case (UPulsar l)
  with assms pulsar[of _ l] show ?thesis
    by (auto simp: obj_step_def lift_step_Next split: event_obj.splits session_obj.splits)
next
  case (UDummy l)
  with assms dummy[of _ l] show ?thesis
    by (auto simp: obj_step_def lift_step_Next split: event_obj.splits session_obj.splits)
qed

text \<open>What \<^verbatim>\<open>Execute\<close> returned is final, whatever its goroutines still do.\<close>

interpretation echo_exec: session_exec "echo_step dec" echo_start echo_result for dec
proof
  show "echo_result l' = echo_result l" if "echo_step dec s l e = Next s' l'" "echo_result l \<noteq> None" for s l e s' l'
    using that by (cases "e_pc l"; cases e)
      (auto simp: echo_step_def echo_result_def echo_main_def echo_read_def split: if_splits sum.splits option.splits list.splits)
qed

interpretation cbs_exec: session_exec "cbs_step dec" cbs_start cbs_result for dec
proof
  show "cbs_result l' = cbs_result l" if "cbs_step dec s l e = Next s' l'" "cbs_result l \<noteq> None" for s l e s' l'
    using that by (cases "b_pc l"; cases e)
      (auto simp: cbs_step_def cbs_result_def cbs_connect_def cbs_broadcast_def cbs_read_def cbs_push_def Let_def
         split: cbs_reader.splits prod.splits if_splits sum.splits option.splits list.splits)
qed

interpretation fx_exec: session_exec "fx_step dec" fx_start fx_result for dec
proof
  show "fx_result l' = fx_result l" if "fx_step dec s l e = Next s' l'" "fx_result l \<noteq> None" for s l e s' l'
    using that by (cases "f_pc l"; cases e)
      (auto simp: fx_step_def fx_result_def fx_connect_def fx_broadcast_def fx_read_def fx_frame_step_def Let_def
         split: fx_reader.splits prod.splits if_splits sum.splits option.splits list.splits)
qed

interpretation redis_exec: session_exec "redis_step dec" redis_start redis_result for dec
proof
  show "redis_result l' = redis_result l" if "redis_step dec s l e = Next s' l'" "redis_result l \<noteq> None" for s l e s' l'
    using that by (cases "r_pc l"; cases e)
      (auto simp: redis_step_def redis_result_def redis_main_def redis_sub_def Let_def
         split: redis_reader.splits redis_received.splits prod.splits if_splits sum.splits option.splits list.splits)
qed

interpretation http_exec: session_exec http_step http_start http_result
proof
  show "http_result l' = http_result l" if "http_step s l e = Next s' l'" "http_result l \<noteq> None" for s l e s' l'
    using that by (cases "h_pc l"; cases e) (auto simp: http_step_def http_result_def)
qed

interpretation wps_exec: session_exec "wps_step dec" wps_start wps_result for dec
proof
  show "wps_result l' = wps_result l" if "wps_step dec s l e = Next s' l'" "wps_result l \<noteq> None" for s l e s' l'
    using that by (cases "w_pc l"; cases e)
      (auto simp: wps_step_def wps_result_def wps_main_def wps_read_def wps_receive_def
         split: wps_reader.splits wps_msg.splits if_splits sum.splits option.splits list.splits)
qed

interpretation rabbit_exec: session_exec rabbit_step rabbit_start rabbit_result
proof
  show "rabbit_result l' = rabbit_result l" if "rabbit_step s l e = Next s' l'" "rabbit_result l \<noteq> None" for s l e s' l'
    using that by (cases "q_pc l"; cases e)
      (auto simp: rabbit_step_def rabbit_result_def rabbit_main_def rabbit_consume_def
         split: rabbit_sub.splits if_splits sum.splits option.splits list.splits)
qed

interpretation kafka_exec: session_exec kafka_step kafka_start kafka_result
proof
  show "kafka_result l' = kafka_result l" if "kafka_step s l e = Next s' l'" "kafka_result l \<noteq> None" for s l e s' l'
    using that by (cases "k_pc l"; cases e) (auto simp: kafka_step_def kafka_result_def)
qed

interpretation pulsar_exec: session_exec pulsar_step pulsar_start pulsar_result
proof
  show "pulsar_result l' = pulsar_result l" if "pulsar_step s l e = Next s' l'" "pulsar_result l \<noteq> None" for s l e s' l'
    using that by (cases "u_main l"; cases e)
      (auto simp: pulsar_step_def pulsar_result_def Let_def split: if_splits step_result.splits)
qed

interpretation dummy_exec: session_exec "\<lambda>s l e. dummy_step s l ()" "\<lambda>_. DStart" dummy_result
  by unfold_locales (auto simp: dummy_step_def dummy_result_def split: dummy_pc.splits)

text \<open>
  The gauges that the sessions report. Most of them count users: those inside \<^verbatim>\<open>Execute\<close>, for
  RabbitMQ those inside \<^verbatim>\<open>doQueue\<close>, and for HTTP those whose request is under way. The gauge
  of the Pulsar session counts its queues instead, of which a user may have many;
  \<^verbatim>\<open>DummySession\<close> has no gauge.
\<close>

definition obj_inprogress :: "session_obj \<Rightarrow> int64" where
  "obj_inprogress x =
     (case x of
        OEcho s \<Rightarrow> e_cntInProgress s | OCore s \<Rightarrow> b_cntInProgress s | OFx s \<Rightarrow> f_cntInProgress s
      | ORedis s \<Rightarrow> r_cntInProgress s | OHttp s \<Rightarrow> h_counterInitiated s | OWps s \<Rightarrow> w_cntInProgress s
      | ORabbit s \<Rightarrow> q_cntInProgress s | OKafka s \<Rightarrow> k_cntInProgress s | OPulsar s \<Rightarrow> u_cntInProgress s | ODummy _ \<Rightarrow> 0)"

text \<open>The two kinds of gauges, and what a user contributes to each.\<close>

definition obj_user_gauge :: "session_obj \<Rightarrow> int64" where
  "obj_user_gauge x = (case x of OPulsar _ \<Rightarrow> 0 | _ \<Rightarrow> obj_inprogress x)"

definition obj_queue_gauge :: "session_obj \<Rightarrow> int64" where
  "obj_queue_gauge x = (case x of OPulsar _ \<Rightarrow> obj_inprogress x | _ \<Rightarrow> 0)"

definition obj_queues :: "user_obj \<Rightarrow> nat" where
  "obj_queues u = (case u of UPulsar l \<Rightarrow> length (filter queue_open (u_goroutines l)) | _ \<Rightarrow> 0)"

definition obj_active :: "user_obj \<Rightarrow> bool" where
  "obj_active u =
     (case u of
        UEcho l \<Rightarrow> echo_active l | UCore l \<Rightarrow> cbs_active l | UFx l \<Rightarrow> fx_active l | URedis l \<Rightarrow> redis_active l
      | UHttp l \<Rightarrow> http_active l | UWps l \<Rightarrow> wps_active l | URabbit l \<Rightarrow> rabbit_active l
      | UKafka l \<Rightarrow> kafka_active l | UPulsar _ \<Rightarrow> False | UDummy _ \<Rightarrow> False)"

definition obj_inv :: "user_obj \<Rightarrow> bool" where
  "obj_inv u =
     (case u of
        UEcho l \<Rightarrow> echo_sound l | UCore l \<Rightarrow> cbs_inv l | UFx l \<Rightarrow> fx_inv l | URedis l \<Rightarrow> redis_inv l
      | UWps l \<Rightarrow> wps_inv l | UPulsar l \<Rightarrow> pulsar_inv l | _ \<Rightarrow> True)"

lemma obj_start_facts:
  "obj_inv (obj_start x ctx)" "\<not> obj_active (obj_start x ctx)"
proof -
  show "obj_inv (obj_start x ctx)"
    by (cases x) (simp_all add: obj_inv_def obj_start_def echo_soundness.start_inv cbs_invariant.start_inv
        fx_loops.start_inv redis_invariant.start_inv wps_invariant.start_inv pulsar_progress.start_inv)
  have "of_bool (obj_active (obj_start x ctx)) = (0 :: int64)"
    by (cases x) (simp_all only: obj_active_def obj_start_def session_obj.case user_obj.case of_bool_eq
        echo_progress.start_weight cbs_progress.start_weight
        fx_progress.start_weight redis_progress.start_weight http_progress.start_weight
        wps_progress.start_weight rabbit_progress.start_weight kafka_progress.start_weight)
  then show "\<not> obj_active (obj_start x ctx)" by simp
qed

lemma obj_active_running: "obj_active u \<Longrightarrow> obj_result u = None"
  by (cases u) (auto simp: obj_active_def obj_result_def session_defs echo_result_def cbs_result_def fx_result_def
      redis_result_def http_result_def wps_result_def rabbit_result_def kafka_result_def
      split: echo_pc.splits cbs_pc.splits fx_pc.splits redis_pc.splits wps_pc.splits rabbit_pc.splits
        kafka_pc.splits)

lemma obj_result_stable:
  assumes "obj_step env x u e = Next x' u'" and "obj_result u \<noteq> None"
  shows "obj_result u' = obj_result u"
  using assms(1)
  by (cases rule: obj_step_cases)
    (use assms(2) in \<open>simp_all add: obj_result_def echo_exec.result_stable cbs_exec.result_stable
      fx_exec.result_stable redis_exec.result_stable http_exec.result_stable wps_exec.result_stable
      rabbit_exec.result_stable kafka_exec.result_stable pulsar_exec.result_stable dummy_exec.result_stable\<close>)

lemma obj_step_inv:
  assumes "obj_step env x u e = Next x' u'" and "obj_inv u"
  shows "obj_inv u'"
  using assms(1)
  by (cases rule: obj_step_cases)
    (use assms(2) in \<open>auto simp: obj_inv_def intro: echo_soundness.step_inv cbs_invariant.step_inv
      fx_loops.step_inv redis_invariant.step_inv wps_invariant.step_inv pulsar_progress.step_inv\<close>)

lemma obj_step_weight:
  assumes "obj_step env x u e = Next x' u'" and "obj_inv u"
  shows "obj_user_gauge x' = obj_user_gauge x + (of_bool (obj_active u') - of_bool (obj_active u))"
  using assms(1)
proof (cases rule: obj_step_cases)
  case echo
  with assms(2) echo_progress.step_weight[OF echo(3)] show ?thesis
    by (simp add: obj_user_gauge_def obj_inprogress_def obj_active_def obj_inv_def)
next
  case core
  with assms(2) cbs_progress.step_weight[OF core(3)] show ?thesis
    by (simp add: obj_user_gauge_def obj_inprogress_def obj_active_def obj_inv_def)
next
  case fx
  with assms(2) fx_progress.step_weight[OF fx(3)] show ?thesis
    by (simp add: obj_user_gauge_def obj_inprogress_def obj_active_def obj_inv_def)
next
  case redis
  with assms(2) redis_progress.step_weight[OF redis(3)] show ?thesis
    by (simp add: obj_user_gauge_def obj_inprogress_def obj_active_def obj_inv_def)
next
  case wps
  with assms(2) wps_progress.step_weight[OF wps(3)] show ?thesis
    by (simp add: obj_user_gauge_def obj_inprogress_def obj_active_def obj_inv_def)
next
  case http
  with http_progress.step_weight[OF http(3)] show ?thesis by (simp add: obj_user_gauge_def obj_inprogress_def obj_active_def)
next
  case rabbit
  with rabbit_progress.step_weight[OF rabbit(3)] show ?thesis by (simp add: obj_user_gauge_def obj_inprogress_def obj_active_def)
next
  case kafka
  with kafka_progress.step_weight[OF kafka(3)] show ?thesis by (simp add: obj_user_gauge_def obj_inprogress_def obj_active_def)
qed (simp_all add: obj_user_gauge_def obj_inprogress_def obj_active_def)

lemma obj_start_queues [simp]: "obj_queues (obj_start x ctx) = 0"
  by (cases x) (simp_all add: obj_queues_def obj_start_def pulsar_start_def)

lemma obj_step_queues:
  assumes "obj_step env x u e = Next x' u'" and "obj_inv u"
  shows "obj_queue_gauge x' = obj_queue_gauge x + (word_of_nat (obj_queues u') - word_of_nat (obj_queues u))"
  using assms(1)
proof (cases rule: obj_step_cases)
  case pulsar
  with assms(2) pulsar_progress.step_weight[OF pulsar(3)] show ?thesis
    by (simp add: obj_queue_gauge_def obj_inprogress_def obj_queues_def obj_inv_def pulsar_weight_def sum_list_of_bool)
qed (simp_all add: obj_queue_gauge_def obj_queues_def)

interpretation obj_capped: session_capped "obj_step env" "obj_start x" obj_inv obj_user_gauge
  "\<lambda>u. of_bool (obj_active u)" obj_active obj_result for env x
  by unfold_locales
    (simp_all add: obj_start_facts obj_step_inv obj_step_weight obj_result_stable obj_active_running)

end
