(* ===== verification/Agent_Controller.thy ===== *)
theory Agent_Controller
  imports Session_Map
begin

text \<open>
  \<^verbatim>\<open>agent/agent_controller.go\<close>: the methods \<^verbatim>\<open>Setup\<close>, \<^verbatim>\<open>Run\<close> (with
  \<^verbatim>\<open>runPhase\<close>) and \<^verbatim>\<open>ListCounters\<close> that an agent serves to its master, and
  \<^verbatim>\<open>agent/agent_delegate.go\<close>, the master's handle of an agent. The state of an agent is
  the registry of session objects; the order in which Go ranges over it is an argument of
  \<^verbatim>\<open>Setup\<close>. \<^verbatim>\<open>Run\<close> is a step function on the registry and the phases started so
  far, since the goroutines that a phase leaves behind still work on the registry in the next
  phases.
\<close>

type_synonym registry = "string \<rightharpoonup> session_obj"

subsection \<open>Adding up counters\<close>

text \<open>
  The loop \<^verbatim>\<open>for k, v := range c { r[k] = r[k] + v }\<close> of the agent and of the master.
  The order of the entries is the runtime's choice; \<open>counters_add\<close> is what every order
  computes.
\<close>

fun range_add :: "(string \<times> int64) list \<Rightarrow> counters \<Rightarrow> counters" where
  "range_add [] r = r"
| "range_add ((k, v) # kvs) r = range_add kvs (r(k \<mapsto> cnt_get r k + v))"

definition counters_add :: "counters \<Rightarrow> counters \<Rightarrow> counters" where
  "counters_add r c = (\<lambda>k. case c k of None \<Rightarrow> r k | Some v \<Rightarrow> Some (cnt_get r k + v))"

definition enumerates :: "(string \<times> int64) list \<Rightarrow> counters \<Rightarrow> bool" where
  "enumerates kvs c \<longleftrightarrow> distinct (map fst kvs) \<and> map_of kvs = c"

lemma range_add_eq: "distinct (map fst kvs) \<Longrightarrow> range_add kvs r = counters_add r (map_of kvs)"
proof (induction kvs r rule: range_add.induct)
  case (1 r)
  then show ?case by (simp add: counters_add_def)
next
  case (2 k v kvs r)
  then have "map_of kvs k = None" by (simp add: map_of_eq_None_iff)
  then have "counters_add (r(k \<mapsto> cnt_get r k + v)) (map_of kvs) = counters_add r (map_of ((k, v) # kvs))"
    by (auto simp: counters_add_def fun_eq_iff split: option.split)
  moreover have "range_add kvs (r(k \<mapsto> cnt_get r k + v)) = counters_add (r(k \<mapsto> cnt_get r k + v)) (map_of kvs)"
    by (rule 2(1)) (use 2(2) in simp)
  ultimately show ?case by (simp only: range_add.simps)
qed

lemma cnt_get_add [simp]: "cnt_get (counters_add r c) k = cnt_get r k + cnt_get c k"
  by (simp add: counters_add_def cnt_get_def split: option.splits)

lemma counters_add_empty [simp]: "counters_add r Map.empty = r"
  by (simp add: counters_add_def)

lemma dom_counters_add [simp]: "dom (counters_add r c) = dom r \<union> dom c"
  by (auto simp: counters_add_def split: option.splits)

subsection \<open>ListCounters\<close>

text \<open>The answer of \<^verbatim>\<open>proc.Times()\<close>, as the fields and the method that are read.\<close>

record cpu_times =
  ct_Total :: float64
  ct_User :: float64
  ct_System :: float64
  ct_Softirq :: float64
  ct_Iowait :: float64

definition millis :: "float64 \<Rightarrow> int64" where
  "millis f = f64_to_int64 (f64_mul (f64_of_int 1000) f)"

definition get_system_counters :: "cpu_times option \<Rightarrow> counters" where
  "get_system_counters cput =
     (case cput of
        None \<Rightarrow> Map.empty
      | Some c \<Rightarrow> [''agent:cpu:total'' \<mapsto> millis (ct_Total c),
                    ''agent:cpu:user'' \<mapsto> millis (ct_User c),
                    ''agent:cpu:system'' \<mapsto> millis (ct_System c),
                    ''agent:cpu:softirq'' \<mapsto> millis (ct_Softirq c),
                    ''agent:cpu:iowait'' \<mapsto> millis (ct_Iowait c)])"

fun list_session_counters :: "registry \<Rightarrow> string list \<Rightarrow> counters \<Rightarrow> counters go" where
  "list_session_counters st [] r = Return r"
| "list_session_counters st (n # ns) r =
     (case st n of
        None \<Rightarrow> list_session_counters st ns r
      | Some x \<Rightarrow> go_bind (obj_Counters x) (\<lambda>c. list_session_counters st ns (counters_add r c)))"

definition agent_ListCounters :: "cpu_times option \<Rightarrow> registry \<Rightarrow> string list \<Rightarrow> counters go" where
  "agent_ListCounters cput st names =
     go_bind (list_session_counters st names Map.empty) (\<lambda>r. Return (r ++ get_system_counters cput))"

subsection \<open>Setup\<close>

fun agent_setup_loop ::
  "session_env \<Rightarrow> params \<Rightarrow> string list \<Rightarrow> string list \<Rightarrow> registry \<Rightarrow> (registry \<times> goerror option) go" where
  "agent_setup_loop env ps names [] st = Return (st, None)"
| "agent_setup_loop env ps names (n # order) st =
     (if n \<notin> set names then agent_setup_loop env ps names order st
      else case st n of
        None \<Rightarrow> agent_setup_loop env ps names order st
      | Some x \<Rightarrow>
          go_bind (obj_Setup env ps x) (\<lambda>(x', err).
            case err of
              Some e \<Rightarrow> Return (st(n \<mapsto> x'), Some e)
            | None \<Rightarrow> agent_setup_loop env ps names order (st(n \<mapsto> x'))))"

definition agent_Setup ::
  "session_env \<Rightarrow> string list \<Rightarrow> string list \<Rightarrow> params \<Rightarrow> registry \<Rightarrow> (registry \<times> goerror option) go" where
  "agent_Setup env order names ps st = agent_setup_loop env ps names order st"

definition zeroed :: "session_obj \<Rightarrow> bool" where
  "zeroed x \<longleftrightarrow> (\<exists>m. obj_Counters x = Return m \<and> (\<forall>k. cnt_get m k = 0))"

lemma agent_setup_loop_zeroed:
  assumes "agent_setup_loop env ps names order st = Return (st', None)"
    and "\<And>n x. n \<in> set names \<Longrightarrow> n \<notin> set order \<Longrightarrow> st n = Some x \<Longrightarrow> zeroed x"
    and "n \<in> set names" and "st' n = Some x"
  shows "zeroed x"
  using assms
proof (induction env ps names order st arbitrary: st' rule: agent_setup_loop.induct)
  case (1 env ps names st)
  then show ?case by simp
next
  case (2 env ps names a order st)
  show ?case
  proof (cases "a \<in> set names \<and> st a \<noteq> None")
    case False
    then have "agent_setup_loop env ps names order st = Return (st', None)" using 2(4) by (auto split: if_splits)
    moreover have "zeroed y" if "m \<in> set names" "m \<notin> set order" "st m = Some y" for m y
      using that False 2(5)[of m y] by (cases "m = a") auto
    ultimately show ?thesis using False "2.IH"(1,2) 2(6,7) by blast
  next
    case True
    then obtain y where y: "st a = Some y" by auto
    with True 2(4) obtain y' where s: "obj_Setup env ps y = Return (y', None)"
      and r: "agent_setup_loop env ps names order (st(a \<mapsto> y')) = Return (st', None)"
      by (auto split: option.splits)
    have "zeroed y'" using obj_session.Setup_zero[OF s] by (simp add: zeroed_def)
    then have "zeroed z" if "m \<in> set names" "m \<notin> set order" "(st(a \<mapsto> y')) m = Some z" for m z
      using that 2(5)[of m z] by (cases "m = a") auto
    then show ?thesis using True "2.IH"(3)[OF _ y r] 2(6,7) by blast
  qed
qed

lemma zeroed_key: "zeroed x \<Longrightarrow> obj_Counters x = Return m \<Longrightarrow> cnt_get m k = 0"
  by (auto simp: zeroed_def)

lemma cbs_instance_counters_other:
  "\<forall>i. k \<noteq> cbs_instance_key i \<Longrightarrow> cnt_get (cbs_instance_counters i vs m) k = cnt_get m k"
  by (induction i vs m rule: cbs_instance_counters.induct) auto

lemma zeroed_inprogress:
  assumes "zeroed x"
  shows "obj_inprogress x = 0"
proof (cases x)
  case (OEcho s)
  with zeroed_key[OF assms, of _ "''signalrcore:echo:inprogress''"] show ?thesis
    by (simp add: obj_Counters_def obj_inprogress_def echo_Counters_def)
next
  case (OCore s)
  with assms obtain m where "cbs_Counters s = Return m" "cnt_get m ''signalrcore:broadcast:inprogress'' = 0"
    by (auto simp: zeroed_def obj_Counters_def)
  with OCore show ?thesis
    by (auto simp: obj_inprogress_def cbs_Counters_def Let_def cbs_instance_counters_other cbs_instance_key_def
        split: if_splits)
next
  case (OFx s)
  with zeroed_key[OF assms, of _ "''signalrfx:broadcast:inprogress''"] show ?thesis
    by (simp add: obj_Counters_def obj_inprogress_def fx_Counters_def)
next
  case (ORedis s)
  with zeroed_key[OF assms, of _ "''redis:pubsub:inprogress''"] show ?thesis
    by (simp add: obj_Counters_def obj_inprogress_def redis_Counters_def)
next
  case (OHttp s)
  with zeroed_key[OF assms, of _ "''initiated''"] show ?thesis
    by (simp add: obj_Counters_def obj_inprogress_def http_Counters_def)
next
  case (OWps s)
  with zeroed_key[OF assms, of _ "''webpubsub:echo:inprogress''"] show ?thesis
    by (simp add: obj_Counters_def obj_inprogress_def wps_Counters_def)
next
  case (ORabbit s)
  with zeroed_key[OF assms, of _ "''rabbitmq:massive_queue:inprogress''"] show ?thesis
    by (simp add: obj_Counters_def obj_inprogress_def rabbit_Counters_def)
next
  case (OKafka s)
  with zeroed_key[OF assms, of _ "''kafka:producer:inprogress''"] show ?thesis
    by (simp add: obj_Counters_def obj_inprogress_def kafka_Counters_def)
next
  case (OPulsar s)
  with zeroed_key[OF assms, of _ "''pulsar:massive_queue:inprogress''"] show ?thesis
    by (simp add: obj_Counters_def obj_inprogress_def pulsar_Counters_def)
qed (simp add: obj_inprogress_def)

lemma zeroed_gauges: "zeroed x \<Longrightarrow> obj_user_gauge x = 0" "zeroed x \<Longrightarrow> obj_queue_gauge x = 0"
  using zeroed_inprogress[of x] by (cases x; simp add: obj_user_gauge_def obj_queue_gauge_def)+

lemma list_session_counters_zeroed:
  assumes "\<And>n x. n \<in> set names \<Longrightarrow> st n = Some x \<Longrightarrow> zeroed x" and "\<And>k. cnt_get r k = 0"
  shows "\<exists>m. list_session_counters st names r = Return m \<and> (\<forall>k. cnt_get m k = 0)"
  using assms
proof (induction st names r rule: list_session_counters.induct)
  case (1 st r)
  then show ?case by simp
next
  case (2 st n ns r)
  show ?case
  proof (cases "st n")
    case None
    with 2(1)[OF None] 2(3,4) show ?thesis by auto
  next
    case (Some x)
    then obtain m where "obj_Counters x = Return m" "\<forall>k. cnt_get m k = 0"
      using 2(3)[of n x] by (auto simp: zeroed_def)
    with 2(2)[OF Some, of m] 2(3,4) Some show ?thesis by auto
  qed
qed

subsection \<open>Run and runPhase\<close>

datatype phase_pc = PLoop | PHang | PWaitAll | PReturned

record phase_run =
  ph_phase :: job_phase
  ph_swg :: int
  ph_main :: phase_pc
  ph_runs :: "(string \<times> user_obj session_run) list"

datatype phase_event = PvMain | PvRun nat "event_obj launch_event"

definition phase_start :: "job \<Rightarrow> job_phase \<Rightarrow> phase_run" where
  "phase_start j p = \<lparr>ph_phase = p, ph_swg = int (length (SessionNames j)), ph_main = PLoop, ph_runs = []\<rparr>"

text \<open>
  One iteration of the loop over the sessions. \<open>PHang\<close> is the state of an agent whose
  \<^verbatim>\<open>getSessionUsers\<close> does not return.
\<close>

definition phase_launch ::
  "job \<Rightarrow> goint \<Rightarrow> goint \<Rightarrow> registry \<Rightarrow> phase_run \<Rightarrow> (registry, phase_run) step_result" where
  "phase_launch j agentCount agentIdx st ph =
     (let i = length (ph_runs ph); name = SessionNames j ! i in
      if length (SessionPercentages j) \<le> i then Crash IndexOutOfRange
      else case get_session_users (ph_phase ph) (SessionPercentages j ! i) agentCount agentIdx of
        None \<Rightarrow> Next st (ph\<lparr>ph_main := PHang\<rparr>)
      | Some (Panic p) \<Rightarrow> Crash p
      | Some (Fatal m) \<Rightarrow> Crash (LogFatal m)
      | Some (Return sessionUsers) \<Rightarrow>
          (case st name of
             None \<Rightarrow> Crash (LogFatal (''Session not found: '' @ name))
           | Some x \<Rightarrow>
               if sint sessionUsers < 0 then Crash MakeChanSize
               else Next st (ph\<lparr>ph_runs := ph_runs ph @ [(name, launch_start sessionUsers)]\<rparr>)))"

definition phase_step ::
  "session_env \<Rightarrow> job \<Rightarrow> goint \<Rightarrow> goint \<Rightarrow> registry \<Rightarrow> phase_run \<Rightarrow> phase_event \<Rightarrow> (registry, phase_run) step_result" where
  "phase_step env j agentCount agentIdx st ph e =
     (case e of
        PvMain \<Rightarrow>
          (case ph_main ph of
             PLoop \<Rightarrow>
               if length (ph_runs ph) < length (SessionNames j) then phase_launch j agentCount agentIdx st ph
               else Next st (ph\<lparr>ph_main := PWaitAll\<rparr>)
           | PWaitAll \<Rightarrow> if ph_swg ph = 0 then Next st (ph\<lparr>ph_main := PReturned\<rparr>) else Disabled
           | _ \<Rightarrow> Disabled)
      | PvRun i le \<Rightarrow>
          if i < length (ph_runs ph)
          then (case ph_runs ph ! i of (name, r) \<Rightarrow>
                (case st name of
                   None \<Rightarrow> Disabled
                 | Some x \<Rightarrow>
                     (case launch_step (obj_step env) (obj_start x) obj_result j (ph_phase ph) (x, ph_swg ph) r le of
                        Next (x', swg) r' \<Rightarrow>
                          Next (st(name \<mapsto> x')) (ph\<lparr>ph_swg := swg, ph_runs := (ph_runs ph)[i := (name, r')]\<rparr>)
                      | Crash p \<Rightarrow> Crash p
                      | Disabled \<Rightarrow> Disabled)))
          else Disabled)"

record agent_run_args =
  ra_Job :: job
  ra_AgentCount :: goint
  ra_AgentIdx :: goint

record agent_run =
  ar_phases :: "phase_run list"
  ar_returned :: bool

datatype agent_event = AvMain | AvPhase nat phase_event

definition agent_start :: agent_run where
  "agent_start = \<lparr>ar_phases = [], ar_returned = False\<rparr>"

definition agent_step ::
  "session_env \<Rightarrow> agent_run_args \<Rightarrow> registry \<Rightarrow> agent_run \<Rightarrow> agent_event \<Rightarrow> (registry, agent_run) step_result" where
  "agent_step env args st a e =
     (let j = ra_Job args; phs = ar_phases a in
      case e of
        AvMain \<Rightarrow>
          if ar_returned a \<or> (phs \<noteq> [] \<and> ph_main (last phs) \<noteq> PReturned) then Disabled
          else if length phs < length (Phases j)
          then Next st (a\<lparr>ar_phases := phs @ [phase_start j (Phases j ! length phs)]\<rparr>)
          else Next st (a\<lparr>ar_returned := True\<rparr>)
      | AvPhase k pe \<Rightarrow>
          if k < length phs
          then (case phase_step env j (ra_AgentCount args) (ra_AgentIdx args) st (phs ! k) pe of
                  Next st' ph \<Rightarrow> Next st' (a\<lparr>ar_phases := phs[k := ph]\<rparr>)
                | Crash p \<Rightarrow> Crash p
                | Disabled \<Rightarrow> Disabled)
          else Disabled)"

subsection \<open>The invariant of a phase\<close>

definition store_users :: "registry \<Rightarrow> string \<Rightarrow> int64" where
  "store_users st k = (case st k of None \<Rightarrow> 0 | Some x \<Rightarrow> obj_user_gauge x)"

text \<open>Any counter of the session objects, and what the users of a phase contribute to it.\<close>

definition store_read :: "(session_obj \<Rightarrow> int64) \<Rightarrow> registry \<Rightarrow> string \<Rightarrow> int64" where
  "store_read read st k = (case st k of None \<Rightarrow> 0 | Some x \<Rightarrow> read x)"

definition run_tally :: "(user_obj \<Rightarrow> int64) \<Rightarrow> user_obj session_run \<Rightarrow> int64" where
  "run_tally weight r = sum_list (map (thread_weight weight) (run_threads r))"

definition phase_tally :: "(user_obj \<Rightarrow> int64) \<Rightarrow> string \<Rightarrow> phase_run \<Rightarrow> int64" where
  "phase_tally weight k ph = sum_list (map (\<lambda>(n, r). if n = k then run_tally weight r else 0) (ph_runs ph))"

definition agent_total :: "(user_obj \<Rightarrow> int64) \<Rightarrow> string \<Rightarrow> agent_run \<Rightarrow> int64" where
  "agent_total weight k a = sum_list (map (phase_tally weight k) (ar_phases a))"

definition run_inv :: "user_obj session_run \<Rightarrow> bool" where
  "run_inv r \<longleftrightarrow> launch_inv obj_result r \<and> (\<forall>t \<in> set (run_threads r). thread_all obj_inv t)"

definition unfinished :: "string \<times> user_obj session_run \<Rightarrow> bool" where
  "unfinished nr \<longleftrightarrow> run_launcher (snd nr) \<noteq> LFinished"

definition slot_ok ::
  "job \<Rightarrow> goint \<Rightarrow> goint \<Rightarrow> job_phase \<Rightarrow> nat \<Rightarrow> string \<times> user_obj session_run \<Rightarrow> bool" where
  "slot_ok j n i p k nr \<longleftrightarrow> fst nr = SessionNames j ! k
     \<and> get_session_users p (SessionPercentages j ! k) n i = Some (Return (run_users (snd nr)))
     \<and> run_inv (snd nr)"

definition phase_inv :: "job \<Rightarrow> goint \<Rightarrow> goint \<Rightarrow> phase_run \<Rightarrow> bool" where
  "phase_inv j n i ph \<longleftrightarrow>
     length (ph_runs ph) \<le> length (SessionNames j)
     \<and> (\<forall>k < length (ph_runs ph). slot_ok j n i (ph_phase ph) k (ph_runs ph ! k))
     \<and> ph_swg ph = int (length (SessionNames j) - length (ph_runs ph)) + int (length (filter unfinished (ph_runs ph)))
     \<and> (ph_main ph \<in> {PWaitAll, PReturned} \<longrightarrow> length (ph_runs ph) = length (SessionNames j))
     \<and> (ph_main ph = PReturned \<longrightarrow> ph_swg ph = 0)"

definition phase_active :: "string \<Rightarrow> phase_run \<Rightarrow> nat" where
  "phase_active k ph = sum_list (map (\<lambda>(n, r). if n = k then run_active obj_active r else 0) (ph_runs ph))"

definition phase_users :: "string \<Rightarrow> phase_run \<Rightarrow> int" where
  "phase_users k ph = sum_list (map (\<lambda>(n, r). if n = k then sint (run_users r) else 0) (ph_runs ph))"

lemma launch_start_simps [simp]:
  "run_users (launch_start n) = n" "run_threads (launch_start n) = []" "run_launcher (launch_start n) = LSelect"
  "run_active P (launch_start n) = 0"
  by (simp_all add: launch_start_def run_active_def)

lemma phase_start_inv: "phase_inv j n i (phase_start j p)"
  by (simp add: phase_inv_def phase_start_def)

lemma phase_start_active [simp]: "phase_active k (phase_start j p) = 0"
  by (simp add: phase_active_def phase_start_def)

text \<open>One step of one launcher, on the object its session name stands for.\<close>

lemma run_step:
  assumes "launch_step (obj_step env) (obj_start x) obj_result j p (x, swg) r le = Next (x', swg') r'"
    and "run_inv r"
  shows "run_inv r'" "run_users r' = run_users r"
    "swg' = swg - of_bool (unfinished (n, r)) + of_bool (unfinished (n, r'))"
    "unfinished (n, r') \<Longrightarrow> unfinished (n, r)"
proof -
  have li: "launch_inv obj_result r" and ta: "\<forall>t \<in> set (run_threads r). thread_all obj_inv t"
    using assms(2) by (auto simp: run_inv_def)
  note w = obj_capped.launch_step_weight[OF assms(1) ta]
  show "run_inv r'"
    using obj_capped.launch_step_inv[OF assms(1) li] w by (simp add: run_inv_def)
  show "run_users r' = run_users r" by (rule launch_step_users[OF assms(1)])
  show "swg' = swg - of_bool (unfinished (n, r)) + of_bool (unfinished (n, r'))"
    "unfinished (n, r') \<Longrightarrow> unfinished (n, r)"
    using launch_step_swg[OF assms(1)] by (auto simp: unfinished_def)
qed

lemma phase_step_run:
  assumes "phase_step env j n i st ph (PvRun m le) = Next st' ph'" and "phase_inv j n i ph"
  obtains name r x x' swg r' where "m < length (ph_runs ph)" "ph_runs ph ! m = (name, r)" "st name = Some x"
    "launch_step (obj_step env) (obj_start x) obj_result j (ph_phase ph) (x, ph_swg ph) r le = Next (x', swg) r'"
    "st' = st(name \<mapsto> x')" "ph' = ph\<lparr>ph_swg := swg, ph_runs := (ph_runs ph)[m := (name, r')]\<rparr>" "run_inv r"
proof -
  obtain name r where nr: "ph_runs ph ! m = (name, r)" by (cases "ph_runs ph ! m")
  have m: "m < length (ph_runs ph)" using assms(1) by (auto simp: phase_step_def split: if_splits)
  have "run_inv r" using assms(2) m nr by (auto simp: phase_inv_def slot_ok_def)
  with m nr assms(1) that show ?thesis
    by (auto simp: phase_step_def split: option.splits step_result.splits prod.splits)
qed

lemma phase_step_main:
  assumes "phase_step env j n i st ph PvMain = Next st' ph'" and "phase_inv j n i ph"
  shows "phase_inv j n i ph' \<and> st' = st \<and> ph_phase ph' = ph_phase ph \<and> phase_active k ph' = phase_active k ph"
  using assms
  by (auto simp: phase_step_def phase_launch_def Let_def phase_inv_def phase_active_def nth_append slot_ok_def
      run_inv_def launch_start_inv unfinished_def less_Suc_eq
      split: phase_pc.splits if_splits option.splits go.splits)

lemma of_nat_sum_list: "of_nat (sum_list (map f xs)) = sum_list (map (\<lambda>x. of_nat (f x)) xs)"
  by (induction xs) simp_all

lemma phase_run_inv:
  assumes "phase_step env j n i st ph (PvRun m le) = Next st' ph'" and "phase_inv j n i ph"
  shows "phase_inv j n i ph'"
proof (rule phase_step_run[OF assms])
  fix name r x x' swg r'
  assume m: "m < length (ph_runs ph)" and nr: "ph_runs ph ! m = (name, r)"
    and ls: "launch_step (obj_step env) (obj_start x) obj_result j (ph_phase ph) (x, ph_swg ph) r le = Next (x', swg) r'"
    and ph': "ph' = ph\<lparr>ph_swg := swg, ph_runs := (ph_runs ph)[m := (name, r')]\<rparr>" and r: "run_inv r"
  note rs = run_step[OF ls r]
  have swg: "swg = int (length (SessionNames j) - length (ph_runs ph))
      + int (length (filter unfinished ((ph_runs ph)[m := (name, r')])))"
    using rs(3)[of name] assms(2) nr length_filter_update_int[OF m, of unfinished "(name, r')"]
    by (simp add: phase_inv_def)
  have "ph_main ph = PReturned \<longrightarrow> swg = 0"
    using rs(3,4)[of name] assms(2) nr nth_mem[OF m] by (auto simp: phase_inv_def filter_empty_conv)
  then show ?thesis
    using assms(2) rs(1,2) swg nr m by (auto simp: ph' phase_inv_def slot_ok_def nth_list_update)
qed

text \<open>
  A counter that is the sum of a weight over the users of a session object is, in the registry
  of an agent, the sum over all users of all phases.
\<close>

locale agent_tally =
  fixes read :: "session_obj \<Rightarrow> int64"
    and weight :: "user_obj \<Rightarrow> int64"
  assumes start_weight: "weight (obj_start x ctx) = 0"
    and step_weight: "obj_step env x u e = Next x' u' \<Longrightarrow> obj_inv u \<Longrightarrow> read x' = read x + (weight u' - weight u)"

sublocale agent_tally \<subseteq> users: session_counter "obj_step env" "obj_start x" obj_inv read weight for env x
  by unfold_locales (simp_all add: obj_start_facts obj_step_inv start_weight step_weight)

context agent_tally
begin

lemma phase_run_tally:
  assumes "phase_step env j n i st ph (PvRun m le) = Next st' ph'" and "phase_inv j n i ph"
  shows "store_read read st' k = store_read read st k + (phase_tally weight k ph' - phase_tally weight k ph)"
proof (rule phase_step_run[OF assms])
  fix name r x x' swg r'
  assume m: "m < length (ph_runs ph)" and nr: "ph_runs ph ! m = (name, r)" and x: "st name = Some x"
    and ls: "launch_step (obj_step env) (obj_start x) obj_result j (ph_phase ph) (x, ph_swg ph) r le = Next (x', swg) r'"
    and ph': "ph' = ph\<lparr>ph_swg := swg, ph_runs := (ph_runs ph)[m := (name, r')]\<rparr>" and r: "run_inv r"
    and st': "st' = st(name \<mapsto> x')"
  have "phase_tally weight k ph' - phase_tally weight k ph = (if name = k then run_tally weight r' - run_tally weight r else 0)"
    using m nr by (simp add: phase_tally_def ph' sum_list_map_update)
  moreover have "read x' = read x + (run_tally weight r' - run_tally weight r)"
    using users.launch_step_weight[OF ls] r by (simp add: run_inv_def run_tally_def)
  ultimately show ?thesis using x by (cases "name = k") (auto simp: store_read_def st')
qed

lemma phase_main_tally:
  assumes "phase_step env j n i st ph PvMain = Next st' ph'"
  shows "st' = st" "phase_tally weight k ph' = phase_tally weight k ph"
  using assms
  by (auto simp: phase_step_def phase_launch_def Let_def phase_tally_def run_tally_def
      split: phase_pc.splits if_splits option.splits go.splits)

lemma phase_step_tally:
  assumes "phase_step env j n i st ph e = Next st' ph'" and "phase_inv j n i ph"
  shows "store_read read st' k = store_read read st k + (phase_tally weight k ph' - phase_tally weight k ph)"
  using assms phase_run_tally phase_main_tally[of env j n i st ph st' ph'] by (cases e) auto

end

text \<open>The users that a gauge counts are such a counter.\<close>

interpretation inside: agent_tally obj_user_gauge "\<lambda>u. of_bool (obj_active u)"
  by unfold_locales (simp_all add: obj_start_facts obj_step_weight)

text \<open>So are the queues of the Pulsar session.\<close>

interpretation queues: agent_tally obj_queue_gauge "\<lambda>u. word_of_nat (obj_queues u)"
  by unfold_locales (simp_all add: obj_step_queues)

lemma store_read_users: "store_read obj_user_gauge st k = store_users st k"
  by (simp add: store_read_def store_users_def)

lemma phase_tally_active: "phase_tally (\<lambda>u. of_bool (obj_active u)) k ph = word_of_nat (phase_active k ph)"
  by (simp add: phase_tally_def phase_active_def of_nat_sum_list case_prod_unfold run_tally_def obj_capped.sum_thread_weight
      if_distrib cong: if_cong)

lemma phase_step_main_returned:
  "phase_step env j n i st ph PvMain = Next st' ph' \<Longrightarrow> ph_main ph \<noteq> PReturned"
  by (auto simp: phase_step_def)

lemma phase_step_run_frame:
  assumes "phase_step env j n i st ph (PvRun m le) = Next st' ph'" and "phase_inv j n i ph"
  shows "ph_phase ph' = ph_phase ph" "ph_main ph' = ph_main ph"
  by (rule phase_step_run[OF assms]; simp)+

lemma phase_step_all:
  assumes "phase_step env j n i st ph e = Next st' ph'" and "phase_inv j n i ph"
  shows "phase_inv j n i ph' \<and>
    store_users st' k = store_users st k + (word_of_nat (phase_active k ph') - word_of_nat (phase_active k ph)) \<and>
    ph_phase ph' = ph_phase ph \<and> (ph_main ph = PReturned \<longrightarrow> ph_main ph' = PReturned)"
proof (cases e)
  case PvMain
  with assms have main: "phase_step env j n i st ph PvMain = Next st' ph'" by simp
  from phase_step_main[OF main assms(2), of k] phase_step_main_returned[OF main] show ?thesis by simp
next
  case (PvRun m le)
  with assms have run: "phase_step env j n i st ph (PvRun m le) = Next st' ph'" by simp
  from phase_run_inv[OF run assms(2)] inside.phase_step_tally[OF run assms(2), of k] phase_step_run_frame[OF run assms(2)]
  show ?thesis by (simp add: store_read_users phase_tally_active)
qed

lemmas phase_step_facts = phase_step_all[THEN conjunct1] phase_step_all[THEN conjunct2, THEN conjunct1]
  phase_step_all[THEN conjunct2, THEN conjunct2, THEN conjunct1]
  phase_step_all[THEN conjunct2, THEN conjunct2, THEN conjunct2, rule_format]

text \<open>A phase that has returned has finished all its launchers and users.\<close>

lemma phase_returned:
  assumes "phase_inv j n i ph" and "ph_main ph = PReturned" and "(name, r) \<in> set (ph_runs ph)"
  shows "run_launcher r = LFinished" "run_inv r"
proof -
  show "run_launcher r = LFinished"
    using assms by (force simp: phase_inv_def filter_empty_conv unfinished_def)
  show "run_inv r"
    using assms(1,3) by (auto simp: phase_inv_def slot_ok_def in_set_conv_nth dest!: spec)
qed

lemma phase_returned_active:
  assumes "phase_inv j n i ph" and "ph_main ph = PReturned"
  shows "phase_active k ph = 0"
  using phase_returned[OF assms] obj_capped.run_active_finished
  by (auto simp: phase_active_def run_inv_def)

lemma phase_active_cap:
  assumes "phase_inv j n i ph"
  shows "int (phase_active k ph) \<le> phase_users k ph"
proof -
  have "int (run_active obj_active r) \<le> sint (run_users r)" if "(name, r) \<in> set (ph_runs ph)" for name r
    using that assms obj_capped.run_active_cap
    by (auto simp: phase_inv_def slot_ok_def run_inv_def in_set_conv_nth dest!: spec)
  then show ?thesis
    unfolding phase_active_def phase_users_def of_nat_sum_list
    by (intro sum_list_mono) auto
qed

lemma sum_list_one_key:
  assumes "distinct (map fst xs)" and "i < length xs"
  shows "sum_list (map (\<lambda>(n, r). if n = fst (xs ! i) then f r else 0) xs) = f (snd (xs ! i))"
  using assms
proof (induction xs arbitrary: i)
  case Nil
  then show ?case by simp
next
  case (Cons y ys)
  obtain n r where y: "y = (n, r)" by (cases y)
  show ?case
  proof (cases i)
    case 0
    have "sum_list (map (\<lambda>(m, q). if m = n then f q else 0) ys) = 0"
      using Cons.prems(1) y by (induction ys) auto
    with 0 y show ?thesis by simp
  next
    case (Suc k)
    then have "fst (ys ! k) \<noteq> n" using Cons.prems y by (metis distinct.simps(2) fst_conv length_Cons length_map list.simps(9) not_less_eq nth_map nth_mem)
    with Suc y Cons.IH[of k] Cons.prems show ?thesis by simp
  qed
qed

lemma phase_users_distinct:
  assumes "phase_inv j n i ph" and "distinct (SessionNames j)" and "k < length (ph_runs ph)"
  shows "phase_users (SessionNames j ! k) ph = sint (run_users (snd (ph_runs ph ! k)))"
proof -
  have names: "map fst (ph_runs ph) = take (length (ph_runs ph)) (SessionNames j)"
    using assms(1) by (intro nth_equalityI) (auto simp: phase_inv_def slot_ok_def)
  have "fst (ph_runs ph ! k) = SessionNames j ! k" using assms(1,3) by (simp add: phase_inv_def slot_ok_def)
  moreover have "distinct (map fst (ph_runs ph))" using assms(2) by (simp add: names)
  ultimately show ?thesis
    using sum_list_one_key[of "ph_runs ph" k "\<lambda>r. sint (run_users r)"] assms(3) by (simp add: phase_users_def)
qed

subsection \<open>The invariant of a run\<close>

definition agent_inv :: "agent_run_args \<Rightarrow> agent_run \<Rightarrow> bool" where
  "agent_inv args a \<longleftrightarrow>
     length (ar_phases a) \<le> length (Phases (ra_Job args))
     \<and> (\<forall>k < length (ar_phases a). ph_phase (ar_phases a ! k) = Phases (ra_Job args) ! k
          \<and> phase_inv (ra_Job args) (ra_AgentCount args) (ra_AgentIdx args) (ar_phases a ! k)
          \<and> (Suc k < length (ar_phases a) \<or> ar_returned a \<longrightarrow> ph_main (ar_phases a ! k) = PReturned))
     \<and> (ar_returned a \<longrightarrow> length (ar_phases a) = length (Phases (ra_Job args)))"

definition agent_active :: "string \<Rightarrow> agent_run \<Rightarrow> nat" where
  "agent_active k a = sum_list (map (phase_active k) (ar_phases a))"

lemma agent_start_inv [simp]: "agent_inv args agent_start" "agent_active k agent_start = 0"
  by (simp_all add: agent_inv_def agent_start_def agent_active_def)

lemma agent_all_returned:
  assumes "agent_inv args a" and "k < length (ar_phases a)" and "ph_main (last (ar_phases a)) = PReturned"
  shows "ph_main (ar_phases a ! k) = PReturned"
proof (cases "Suc k < length (ar_phases a)")
  case True
  with assms show ?thesis by (simp add: agent_inv_def)
next
  case False
  then have "k = length (ar_phases a) - 1" using assms(2) by simp
  moreover have "ar_phases a \<noteq> []" using assms(2) by auto
  ultimately show ?thesis using assms(3) by (simp add: last_conv_nth)
qed

lemma agent_main_inv:
  assumes "agent_step env args st a AvMain = Next st' a'" and "agent_inv args a"
  shows "agent_inv args a' \<and> st' = st \<and> agent_active k a' = agent_active k a"
proof (cases "length (ar_phases a) < length (Phases (ra_Job args))")
  case True
  then have a': "st' = st" "\<not> ar_returned a" "ar_phases a \<noteq> [] \<Longrightarrow> ph_main (last (ar_phases a)) = PReturned"
    "a' = a\<lparr>ar_phases := ar_phases a @ [phase_start (ra_Job args) (Phases (ra_Job args) ! length (ar_phases a))]\<rparr>"
    using assms(1) by (auto simp: agent_step_def Let_def split: if_splits)
  have "ph_main (ar_phases a ! k) = PReturned" if "k < length (ar_phases a)" for k
    using that a'(3) agent_all_returned[OF assms(2) that] by (cases "ar_phases a = []") auto
  with True a' assms(2) show ?thesis
    by (auto simp: agent_inv_def agent_active_def nth_append less_Suc_eq phase_start_inv)
      (simp add: phase_start_def)
next
  case False
  then have a': "st' = st" "ar_phases a \<noteq> [] \<Longrightarrow> ph_main (last (ar_phases a)) = PReturned" "a' = a\<lparr>ar_returned := True\<rparr>"
    using assms(1) by (auto simp: agent_step_def Let_def split: if_splits)
  have "ph_main (ar_phases a ! k) = PReturned" if "k < length (ar_phases a)" for k
    using that a'(2) agent_all_returned[OF assms(2) that] by (cases "ar_phases a = []") auto
  with False a' assms(2) show ?thesis by (auto simp: agent_inv_def agent_active_def)
qed

lemma agent_phase_step:
  assumes "agent_step env args st a (AvPhase m pe) = Next st' a'"
  obtains ph where "m < length (ar_phases a)" "a' = a\<lparr>ar_phases := (ar_phases a)[m := ph]\<rparr>"
    "phase_step env (ra_Job args) (ra_AgentCount args) (ra_AgentIdx args) st (ar_phases a ! m) pe = Next st' ph"
  using assms by (auto simp: agent_step_def Let_def split: if_splits step_result.splits)

lemma agent_step_all:
  assumes "agent_step env args st a e = Next st' a'" and "agent_inv args a"
  shows "agent_inv args a' \<and> store_users st' k =
    store_users st k + (word_of_nat (agent_active k a') - word_of_nat (agent_active k a))"
proof (cases e)
  case AvMain
  with assms have main: "agent_step env args st a AvMain = Next st' a'" by simp
  from agent_main_inv[OF main assms(2), of k] show ?thesis by simp
next
  case (AvPhase m pe)
  with assms(1) have "agent_step env args st a (AvPhase m pe) = Next st' a'" by simp
  then show ?thesis
  proof (rule agent_phase_step)
    fix ph
    assume m: "m < length (ar_phases a)" and a': "a' = a\<lparr>ar_phases := (ar_phases a)[m := ph]\<rparr>"
      and ps: "phase_step env (ra_Job args) (ra_AgentCount args) (ra_AgentIdx args) st (ar_phases a ! m) pe = Next st' ph"
    have "phase_inv (ra_Job args) (ra_AgentCount args) (ra_AgentIdx args) (ar_phases a ! m)"
      using assms(2) m by (simp add: agent_inv_def)
    note f = phase_step_facts[OF ps this]
    have "(word_of_nat (agent_active k a') :: int64) =
        word_of_nat (agent_active k a) - word_of_nat (phase_active k (ar_phases a ! m)) + word_of_nat (phase_active k ph)"
      using m by (simp add: agent_active_def a' of_nat_sum_list sum_list_map_update)
    moreover have "agent_inv args a'"
      using assms(2) f(1,3,4) m by (auto simp: agent_inv_def a' nth_list_update)
    ultimately show ?thesis using f(2)[of k] by simp
  qed
qed

lemma agent_run_all:
  assumes "run_events (agent_step env args) st a es = Next st' a'" and "agent_inv args a"
  shows "agent_inv args a' \<and> store_users st' k =
    store_users st k + (word_of_nat (agent_active k a') - word_of_nat (agent_active k a))"
  using assms
proof (induction es arbitrary: st a)
  case Nil
  then show ?case by simp
next
  case (Cons e es)
  then obtain st1 a1 where s: "agent_step env args st a e = Next st1 a1"
    "run_events (agent_step env args) st1 a1 es = Next st' a'"
    by (auto split: step_result.splits)
  from agent_step_all[OF s(1) Cons.prems(2), of k] Cons.IH[OF s(2)] show ?case by simp
qed

lemma agent_reach_inv:
  "run_events (agent_step env args) st agent_start es = Next st' a \<Longrightarrow> agent_inv args a"
  using agent_run_all[of env args st agent_start es st' a] by simp

context agent_tally
begin

lemma agent_step_tally:
  assumes "agent_step env args st a e = Next st' a'" and "agent_inv args a"
  shows "store_read read st' k = store_read read st k + (agent_total weight k a' - agent_total weight k a)"
proof (cases e)
  case AvMain
  with assms(1) show ?thesis
    by (auto simp: agent_step_def Let_def agent_total_def phase_tally_def phase_start_def split: if_splits)
next
  case (AvPhase m pe)
  with assms(1) have "agent_step env args st a (AvPhase m pe) = Next st' a'" by simp
  then show ?thesis
  proof (rule agent_phase_step)
    fix ph
    assume m: "m < length (ar_phases a)" and a': "a' = a\<lparr>ar_phases := (ar_phases a)[m := ph]\<rparr>"
      and ps: "phase_step env (ra_Job args) (ra_AgentCount args) (ra_AgentIdx args) st (ar_phases a ! m) pe = Next st' ph"
    have "phase_inv (ra_Job args) (ra_AgentCount args) (ra_AgentIdx args) (ar_phases a ! m)"
      using assms(2) m by (simp add: agent_inv_def)
    from phase_step_tally[OF ps this] m show ?thesis by (simp add: agent_total_def a' sum_list_map_update)
  qed
qed

lemma agent_run_tally:
  assumes "run_events (agent_step env args) st a es = Next st' a'" and "agent_inv args a"
  shows "store_read read st' k = store_read read st k + (agent_total weight k a' - agent_total weight k a)"
  using assms
proof (induction es arbitrary: st a)
  case (Cons e es)
  then obtain st1 a1 where s: "agent_step env args st a e = Next st1 a1"
    "run_events (agent_step env args) st1 a1 es = Next st' a'"
    by (auto split: step_result.splits)
  from agent_step_tally[OF s(1) Cons.prems(2), of k] Cons.IH[OF s(2)] agent_step_all[OF s(1) Cons.prems(2)]
  show ?case by simp
qed simp

end

text \<open>All users in progress belong to the current phase.\<close>

lemma agent_active_last:
  assumes "agent_inv args a" and "ar_phases a \<noteq> []"
  shows "agent_active k a = phase_active k (last (ar_phases a))"
proof -
  have "phase_active k ph = 0" if ph: "ph \<in> set (butlast (ar_phases a))" for ph
  proof -
    obtain m where m: "m < length (ar_phases a) - 1" "ph = ar_phases a ! m"
      using ph by (force simp: in_set_conv_nth nth_butlast)
    then have "ph_main ph = PReturned"
      "phase_inv (ra_Job args) (ra_AgentCount args) (ra_AgentIdx args) ph"
      using assms(1) by (auto simp: agent_inv_def)
    then show ?thesis by (intro phase_returned_active)
  qed
  then have "sum_list (map (phase_active k) (butlast (ar_phases a))) = 0" by simp
  then show ?thesis
    using assms(2) unfolding agent_active_def
    by (subst append_butlast_last_id[OF assms(2), symmetric]) (simp only: map_append sum_list_append, simp)
qed

lemma agent_last_inv:
  assumes "agent_inv args a" and "ar_phases a \<noteq> []"
  shows "phase_inv (ra_Job args) (ra_AgentCount args) (ra_AgentIdx args) (last (ar_phases a))"
  using assms by (auto simp: agent_inv_def last_conv_nth)

subsection \<open>A user without an id\<close>

definition phase_leaks :: "phase_run \<Rightarrow> bool" where
  "phase_leaks ph \<longleftrightarrow> (\<exists>nr \<in> set (ph_runs ph). TLeaked \<in> set (run_threads (snd nr)))"

lemma phase_leaks_not_returned:
  assumes "phase_inv j n i ph" and "phase_leaks ph"
  shows "ph_main ph \<noteq> PReturned"
proof
  assume ret: "ph_main ph = PReturned"
  obtain name r where "(name, r) \<in> set (ph_runs ph)" "TLeaked \<in> set (run_threads r)"
    using assms(2) by (auto simp: phase_leaks_def)
  with phase_returned[OF assms(1) ret] launch_inv_finished[of obj_result r TLeaked] show False
    by (auto simp: run_inv_def)
qed

lemma phase_step_leaks:
  assumes "phase_step env j n i st ph e = Next st' ph'" and "phase_inv j n i ph" and "phase_leaks ph"
  shows "phase_leaks ph'"
proof (cases e)
  case PvMain
  with assms show ?thesis
    by (auto simp: phase_step_def phase_launch_def Let_def phase_leaks_def
        split: phase_pc.splits if_splits option.splits go.splits)
next
  case (PvRun m le)
  with assms(1) have "phase_step env j n i st ph (PvRun m le) = Next st' ph'" by simp
  then show ?thesis
  proof (rule phase_step_run[OF _ assms(2)])
    fix name r x x' swg r'
    assume m: "m < length (ph_runs ph)" "ph_runs ph ! m = (name, r)"
      and ls: "launch_step (obj_step env) (obj_start x) obj_result j (ph_phase ph) (x, ph_swg ph) r le = Next (x', swg) r'"
      and ph': "ph' = ph\<lparr>ph_swg := swg, ph_runs := (ph_runs ph)[m := (name, r')]\<rparr>"
    obtain q where q: "q < length (ph_runs ph)" "TLeaked \<in> set (run_threads (snd (ph_runs ph ! q)))"
      using assms(3) unfolding phase_leaks_def by (metis in_set_conv_nth)
    then have "TLeaked \<in> set (run_threads (snd (ph_runs ph' ! q)))"
      using launch_step_leaked[OF ls] m by (auto simp: ph' nth_list_update)
    with q(1) ph' show ?thesis by (auto simp: phase_leaks_def intro!: bexI[of _ "ph_runs ph' ! q"])
  qed
qed

lemma agent_run_leaks:
  assumes "run_events (agent_step env args) st a es = Next st' a'" and "agent_inv args a"
    and "m < length (ar_phases a)" and "phase_leaks (ar_phases a ! m)"
  shows "m < length (ar_phases a') \<and> phase_leaks (ar_phases a' ! m)"
  using assms
proof (induction es arbitrary: st a)
  case Nil
  then show ?case by simp
next
  case (Cons e es)
  then obtain st1 a1 where s: "agent_step env args st a e = Next st1 a1"
    "run_events (agent_step env args) st1 a1 es = Next st' a'"
    by (auto split: step_result.splits)
  have "m < length (ar_phases a1) \<and> phase_leaks (ar_phases a1 ! m)"
  proof (cases e)
    case AvMain
    with s(1) Cons.prems(3,4) show ?thesis
      by (auto simp: agent_step_def Let_def nth_append split: if_splits)
  next
    case (AvPhase k pe)
    with s(1) have "agent_step env args st a (AvPhase k pe) = Next st1 a1" by simp
    then show ?thesis
      by (rule agent_phase_step)
        (use Cons.prems in \<open>auto simp: agent_inv_def nth_list_update intro: phase_step_leaks\<close>)
  qed
  with agent_step_all[OF s(1) Cons.prems(2)] Cons.IH[OF s(2)] show ?case by blast
qed

subsection \<open>Properties\<close>

text \<open>
  After a successful \<^verbatim>\<open>Setup\<close>, the gauge of a session of the job is the number of its
  active users, all of them in the current phase and within the users of its launcher.
\<close>

lemma agent_gauge:
  assumes ready: "agent_Setup env order (SessionNames (ra_Job args)) ps st0 = Return (st, None)"
    and order: "set order = dom st0" and run: "run_events (agent_step env args) st agent_start es = Next st' a"
    and k: "k \<in> set (SessionNames (ra_Job args))"
  shows "store_users st' k = word_of_nat (agent_active k a)"
    "ar_phases a \<noteq> [] \<Longrightarrow> int (agent_active k a) \<le> phase_users k (last (ar_phases a))"
proof -
  note inv = agent_reach_inv[OF run]
  have z: "store_users st k = 0"
    using agent_setup_loop_zeroed[OF ready[unfolded agent_Setup_def] _ k] order zeroed_gauges(1)
    by (auto simp: store_users_def split: option.splits)
  show "store_users st' k = word_of_nat (agent_active k a)"
    using agent_run_all[OF run, of k] z by simp
  show "int (agent_active k a) \<le> phase_users k (last (ar_phases a))" if "ar_phases a \<noteq> []"
    using phase_active_cap[OF agent_last_inv[OF inv that], of k] agent_active_last[OF inv that, of k] by simp
qed

text \<open>What the gauge of the session at \<open>k\<close> shows.\<close>

definition store_inprogress :: "registry \<Rightarrow> string \<Rightarrow> int64" where
  "store_inprogress st k = store_read obj_inprogress st k"

lemma agent_queue_gauge:
  assumes ready: "agent_Setup env order (SessionNames (ra_Job args)) ps st0 = Return (st, None)"
    and order: "set order = dom st0" and run: "run_events (agent_step env args) st agent_start es = Next st' a"
    and k: "k \<in> set (SessionNames (ra_Job args))"
  shows "store_read obj_queue_gauge st' k = agent_total (\<lambda>u. word_of_nat (obj_queues u)) k a"
proof -
  have "store_read obj_queue_gauge st k = 0"
    using agent_setup_loop_zeroed[OF ready[unfolded agent_Setup_def] _ k] order zeroed_gauges(2)
    by (auto simp: store_read_def split: option.splits)
  moreover have "agent_total (\<lambda>u. word_of_nat (obj_queues u)) k agent_start = 0"
    by (simp add: agent_total_def agent_start_def)
  ultimately show ?thesis using queues.agent_run_tally[OF run, of k] by simp
qed

text \<open>
  C5: a session's gauge never exceeds the agent's share of the current phase. After a
  successful \<^verbatim>\<open>Setup\<close>, whatever the users, timers and libraries do and however the
  goroutines interleave, the gauge of the \<open>m\<close>-th session of the running phase is exactly the
  number of its users in the section of \<^verbatim>\<open>Execute\<close> that the session counts, users of
  earlier phases included, and lies between 0 and what \<^verbatim>\<open>getSessionUsers\<close> returned for
  this agent. The Pulsar session, whose gauge counts queues, is the exception: there it is the
  number of open queues of all its users.
\<close>

theorem agent_inprogress_capped:
  assumes ready: "agent_Setup env order (SessionNames (ra_Job args)) ps st0 = Return (st, None)"
    and order: "set order = dom st0" and names: "distinct (SessionNames (ra_Job args))"
    and run: "run_events (agent_step env args) st agent_start es = Next st' a"
    and cur: "ar_phases a \<noteq> []" and m: "m < length (ph_runs (last (ar_phases a)))"
  shows "\<exists>u. get_session_users (ph_phase (last (ar_phases a))) (SessionPercentages (ra_Job args) ! m)
             (ra_AgentCount args) (ra_AgentIdx args) = Some (Return u)
         \<and> (if \<exists>s. st' (SessionNames (ra_Job args) ! m) = Some (OPulsar s)
            then store_inprogress st' (SessionNames (ra_Job args) ! m) =
               agent_total (\<lambda>v. word_of_nat (obj_queues v)) (SessionNames (ra_Job args) ! m) a
            else sint (store_inprogress st' (SessionNames (ra_Job args) ! m)) =
               int (agent_active (SessionNames (ra_Job args) ! m) a)
             \<and> int (agent_active (SessionNames (ra_Job args) ! m) a) \<le> sint u)"
proof -
  let ?j = "ra_Job args" and ?ph = "last (ar_phases a)"
  let ?k = "SessionNames ?j ! m" and ?u = "run_users (snd (ph_runs ?ph ! m))"
  note inv = agent_reach_inv[OF run]
  note ph = agent_last_inv[OF inv cur]
  have k: "?k \<in> set (SessionNames ?j)" using ph m by (auto simp: phase_inv_def)
  note g = agent_gauge[OF ready order run k]
  have cap: "int (agent_active ?k a) \<le> sint ?u"
    using g(2)[OF cur] phase_users_distinct[OF ph names m] by simp
  have exact: "sint (word_of_int (int (agent_active ?k a)) :: int64) = int (agent_active ?k a)"
    by (rule sint_of_int_exact) (use cap in_int64_sint[of ?u] in \<open>auto simp: in_int64_def\<close>)
  have users: "store_inprogress st' ?k = store_users st' ?k" if "\<nexists>s. st' ?k = Some (OPulsar s)"
    using that by (auto simp: store_inprogress_def store_read_def store_users_def obj_user_gauge_def
        split: option.splits session_obj.splits)
  have queues: "store_inprogress st' ?k = store_read obj_queue_gauge st' ?k" if "\<exists>s. st' ?k = Some (OPulsar s)"
    using that by (auto simp: store_inprogress_def store_read_def obj_queue_gauge_def)
  have "get_session_users (ph_phase ?ph) (SessionPercentages ?j ! m) (ra_AgentCount args) (ra_AgentIdx args) = Some (Return ?u)"
    using ph m by (auto simp: phase_inv_def slot_ok_def)
  then show ?thesis
    using g(1) cap exact users queues agent_queue_gauge[OF ready order run k]
    by (cases "\<exists>s. st' ?k = Some (OPulsar s)") auto
qed

text \<open>A job of one Kafka session, its set-up, and a user of it that enters \<^verbatim>\<open>Execute\<close>.\<close>

definition demo_agent_args :: agent_run_args where
  "demo_agent_args = \<lparr>ra_Job = \<lparr>job_Name = ''demo'', StartTime = 0, Phases = [demo_phase 2], SessionNames = [''kafka:producer''],
     SessionPercentages = [Fin 1 0], SessionParams = [''messageSize'' \<mapsto> ''1'', ''partition'' \<mapsto> ''0'']\<rparr>, ra_AgentCount = 1, ra_AgentIdx = 0\<rparr>"

definition demo_session_env :: session_env where
  "demo_session_env = \<lparr>env_rnd = (\<lambda>_. 7), env_http = demo_http_env, env_pulsar = demo_pulsar_env,
     env_core = (\<lambda>_. Inl ''''), env_fx = (\<lambda>_. Inl ''''), env_redis = (\<lambda>_. Inl ''''), env_wps = (\<lambda>_. Inl '''')\<rparr>"

definition demo_registry :: registry where
  "demo_registry = [''kafka:producer'' \<mapsto> OKafka (demo_kafka\<lparr>k_cntError := 5\<rparr>)]"

definition demo_ready :: registry where
  "demo_ready = [''kafka:producer'' \<mapsto> OKafka demo_kafka]"

lemma demo_agent_Setup:
  "agent_Setup demo_session_env [''kafka:producer''] (SessionNames (ra_Job demo_agent_args))
     (SessionParams (ra_Job demo_agent_args)) demo_registry = Return (demo_ready, None)"
  by (simp add: agent_Setup_def demo_agent_args_def demo_registry_def demo_ready_def obj_Setup_def wrap_def
      demo_session_env_def demo_kafka_Setup)

definition demo_enter :: "goerror + string \<Rightarrow> agent_event list" where
  "demo_enter uid = [AvMain, AvPhase 0 PvMain, AvPhase 0 (PvRun 0 LvSend), AvPhase 0 (PvRun 0 LvGo),
     AvPhase 0 (PvRun 0 (LvThread 0 (TvUid uid)))]"

definition demo_user_run :: "user_obj thread list \<Rightarrow> agent_run" where
  "demo_user_run ts = \<lparr>ar_phases = [\<lparr>ph_phase = demo_phase 2, ph_swg = 1, ph_main = PLoop,
     ph_runs = [(''kafka:producer'', \<lparr>run_users = 2, run_chan = 1, run_wg = 1, run_after = Pending,
       run_launcher = LSelect, run_threads = ts\<rparr>)]\<rparr>], ar_returned = False\<rparr>"

lemma demo_users: "get_session_users (demo_phase 2) (Fin 1 0) 1 0 = Some (Return 2)"
proof -
  have "total_session_users (demo_phase 2) (Fin 1 0) = 2" by code_simp
  moreover have "last_idx_loop 2 2 0 = Some 0" by (subst last_idx_loop.simps) (simp add: word_sless_alt)
  ultimately show ?thesis by (simp add: get_session_users_def go_div_def)
qed

lemma demo_phase_Name: "phase_Name (demo_phase u) = ''p''"
  by (simp add: demo_phase_def)

lemmas demo_agent_defs = demo_enter_def demo_user_run_def demo_agent_args_def demo_ready_def agent_start_def
  agent_step_def phase_step_def phase_launch_def phase_start_def launch_start_def launch_step_def
  execute_session_def demo_users Let_def

lemma demo_agent_entered:
  "run_events (agent_step demo_session_env demo_agent_args) demo_ready agent_start
     (demo_enter (Inr ''u'') @ [AvPhase 0 (PvRun 0 (LvThread 0 (TvSession (EKafka KGo))))]) =
   Next (demo_ready(''kafka:producer'' \<mapsto> OKafka (demo_kafka\<lparr>k_cntInProgress := 1\<rparr>)))
     (demo_user_run [TUser UExecute (UKafka \<lparr>k_ctx = \<lparr>UserId = ''u'', ctx_Phase = ''p'',
        ctx_Params = [''messageSize'' \<mapsto> ''1'', ''partition'' \<mapsto> ''0'']\<rparr>, k_pc = KEntered\<rparr>)])"
  by (simp add: demo_agent_defs obj_step_def obj_start_def kafka_start_def kafka_step_def demo_phase_Name demo_kafka_def)

lemma demo_agent_leaked:
  "run_events (agent_step demo_session_env demo_agent_args) demo_ready agent_start (demo_enter (Inl ''no id'')) =
   Next demo_ready (demo_user_run [TLeaked])"
  by (simp add: demo_agent_defs fun_upd_idem)

theorem agent_inprogress_capped_witness:
  "\<exists>st' a u. run_events (agent_step demo_session_env demo_agent_args) demo_ready agent_start
      (demo_enter (Inr ''u'') @ [AvPhase 0 (PvRun 0 (LvThread 0 (TvSession (EKafka KGo))))]) = Next st' a
    \<and> get_session_users (demo_phase 2) (Fin 1 0) 1 0 = Some (Return u)
    \<and> sint (store_inprogress st' ''kafka:producer'') = 1
    \<and> sint (store_inprogress st' ''kafka:producer'') \<le> sint u"
proof -
  have order: "set [''kafka:producer''] = dom demo_registry" by (simp add: demo_registry_def)
  have names: "distinct (SessionNames (ra_Job demo_agent_args))" by (simp add: demo_agent_args_def)
  have cur: "ar_phases (demo_user_run ts) \<noteq> []" "0 < length (ph_runs (last (ar_phases (demo_user_run ts))))"
    "ph_phase (last (ar_phases (demo_user_run ts))) = demo_phase 2" for ts
    by (simp_all add: demo_user_run_def)
  from agent_inprogress_capped[OF demo_agent_Setup order names demo_agent_entered cur(1,2)] demo_users
  show ?thesis unfolding demo_agent_entered cur(3)
    by (auto simp: demo_agent_args_def agent_active_def phase_active_def run_active_def demo_user_run_def
        obj_active_def kafka_active_def)
qed

text \<open>
  C6: phases do not overlap. In every reachable state of \<^verbatim>\<open>Run\<close> the phases started so far
  are the first ones of the job, in order. Every phase but the last one has returned, and when
  \<^verbatim>\<open>Run\<close> has returned all phases of the job have; in a phase that has returned, each user
  has left \<^verbatim>\<open>executeSession\<close> with the result of its \<^verbatim>\<open>Execute\<close>.
\<close>

theorem agent_phases_sequential:
  assumes "run_events (agent_step env args) st agent_start es = Next st' a" and "k < length (ar_phases a)"
  shows "ph_phase (ar_phases a ! k) = Phases (ra_Job args) ! k
    \<and> (Suc k < length (ar_phases a) \<longrightarrow> ph_main (ar_phases a ! k) = PReturned)
    \<and> (ar_returned a \<longrightarrow> length (ar_phases a) = length (Phases (ra_Job args)) \<and> ph_main (ar_phases a ! k) = PReturned)
    \<and> (ph_main (ar_phases a ! k) = PReturned \<longrightarrow>
         (\<forall>(name, r) \<in> set (ph_runs (ar_phases a ! k)). \<forall>t \<in> set (run_threads r).
            \<exists>l err. t = TUser UReturned l \<and> obj_result l = Some err))"
proof -
  note inv = agent_reach_inv[OF assms(1)]
  have ph: "phase_inv (ra_Job args) (ra_AgentCount args) (ra_AgentIdx args) (ar_phases a ! k)"
    using inv assms(2) by (simp add: agent_inv_def)
  have "\<exists>l err. t = TUser UReturned l \<and> obj_result l = Some err"
    if "ph_main (ar_phases a ! k) = PReturned" "(name, r) \<in> set (ph_runs (ar_phases a ! k))" "t \<in> set (run_threads r)"
    for name r t
    using phase_returned[OF ph that(1,2)] launch_inv_finished[of obj_result r t] that(3)
    by (auto simp: run_inv_def)
  with inv assms(2) show ?thesis by (auto simp: agent_inv_def)
qed

theorem agent_phases_sequential_witness:
  "\<exists>st' a. run_events (agent_step demo_session_env demo_agent_args) demo_ready agent_start
      [AvMain, AvPhase 0 PvMain, AvPhase 0 PvMain, AvPhase 0 (PvRun 0 LvTimer), AvPhase 0 (PvRun 0 LvAfter),
       AvPhase 0 (PvRun 0 LvWait), AvPhase 0 PvMain, AvMain] = Next st' a
    \<and> ar_returned a \<and> ph_phase (ar_phases a ! 0) = demo_phase 2 \<and> ph_main (ar_phases a ! 0) = PReturned"
proof -
  let ?es = "[AvMain, AvPhase 0 PvMain, AvPhase 0 PvMain, AvPhase 0 (PvRun 0 LvTimer), AvPhase 0 (PvRun 0 LvAfter),
       AvPhase 0 (PvRun 0 LvWait), AvPhase 0 PvMain, AvMain]"
  have "\<exists>st' a. run_events (agent_step demo_session_env demo_agent_args) demo_ready agent_start ?es = Next st' a
      \<and> ar_returned a \<and> 0 < length (ar_phases a)"
    by (simp add: demo_agent_defs)
  then obtain st' a where run: "run_events (agent_step demo_session_env demo_agent_args) demo_ready agent_start ?es = Next st' a"
    and a: "ar_returned a" "0 < length (ar_phases a)" by blast
  have "Phases (ra_Job demo_agent_args) ! 0 = demo_phase 2" by (simp add: demo_agent_args_def)
  with agent_phases_sequential[OF run a(2)] a run show ?thesis by auto
qed

text \<open>
  C35: a user whose id cannot be generated hangs the agent. \<^verbatim>\<open>executeSession\<close> returns early
  without receiving from the semaphore and without \<^verbatim>\<open>wg.Done()\<close>, so from a state with such
  a user no continuation ends \<^verbatim>\<open>Run\<close> or starts the next phase.
\<close>

theorem agent_uid_hang:
  assumes "run_events (agent_step env args) st agent_start es = Next st1 a1"
    and "k < length (ar_phases a1)" and "(name, r) \<in> set (ph_runs (ar_phases a1 ! k))"
    and "TLeaked \<in> set (run_threads r)"
    and "run_events (agent_step env args) st1 a1 es' = Next st2 a2"
  shows "\<not> ar_returned a2 \<and> length (ar_phases a2) = Suc k"
proof -
  note inv1 = agent_reach_inv[OF assms(1)]
  have inv2: "agent_inv args a2" using agent_run_all[OF assms(5) inv1] by blast
  have "phase_leaks (ar_phases a1 ! k)" using assms(3,4) by (force simp: phase_leaks_def)
  with agent_run_leaks[OF assms(5) inv1 assms(2)]
  have k: "k < length (ar_phases a2)" "phase_leaks (ar_phases a2 ! k)" by auto
  then have "ph_main (ar_phases a2 ! k) \<noteq> PReturned"
    using inv2 by (intro phase_leaks_not_returned) (auto simp: agent_inv_def)
  with inv2 k(1) show ?thesis by (auto simp: agent_inv_def dest: spec[of _ k])
qed

theorem agent_uid_hang_witness:
  "\<exists>st1 a1. run_events (agent_step demo_session_env demo_agent_args) demo_ready agent_start (demo_enter (Inl ''no id'')) = Next st1 a1
    \<and> (\<forall>es' st2 a2. run_events (agent_step demo_session_env demo_agent_args) st1 a1 es' = Next st2 a2 \<longrightarrow>
         \<not> ar_returned a2 \<and> length (ar_phases a2) = 1)"
proof -
  obtain r where "0 < length (ar_phases (demo_user_run [TLeaked]))"
    "(''kafka:producer'', r) \<in> set (ph_runs (ar_phases (demo_user_run [TLeaked]) ! 0))" "TLeaked \<in> set (run_threads r)"
    by (auto simp: demo_user_run_def)
  from agent_uid_hang[OF demo_agent_leaked this] demo_agent_leaked show ?thesis by auto
qed

text \<open>
  C23: \<^verbatim>\<open>Setup\<close> gives every job a clean start. When it returns without an error, whatever
  order it visited the registry in and whatever the sessions had counted before,
  \<^verbatim>\<open>ListCounters\<close> for the job's sessions succeeds, and every counter in its answer that is
  not one of the agent's own CPU counters is 0.
\<close>

theorem agent_Setup_clean:
  assumes "agent_Setup env order names ps st = Return (st', None)" and "set order = dom st"
  shows "\<exists>m. agent_ListCounters cput st' names = Return m
    \<and> (\<forall>k. k \<notin> dom (get_system_counters cput) \<longrightarrow> cnt_get m k = 0)"
proof -
  have "zeroed x" if "n \<in> set names" "st' n = Some x" for n x
    using agent_setup_loop_zeroed[OF assms(1)[unfolded agent_Setup_def] _ that] assms(2) by auto
  then obtain m where "list_session_counters st' names Map.empty = Return m" "\<forall>k. cnt_get m k = 0"
    using list_session_counters_zeroed[of names st' Map.empty] by auto
  then show ?thesis
    by (auto simp: agent_ListCounters_def cnt_get_def map_add_def split: option.splits)
qed

theorem agent_Setup_clean_witness:
  "\<exists>m. agent_ListCounters None demo_ready [''kafka:producer''] = Return m \<and> (\<forall>k. cnt_get m k = 0)"
proof -
  have order: "set [''kafka:producer''] = dom demo_registry" by (simp add: demo_registry_def)
  have names: "SessionNames (ra_Job demo_agent_args) = [''kafka:producer'']" by (simp add: demo_agent_args_def)
  show ?thesis
    using agent_Setup_clean[OF demo_agent_Setup order, of None] by (simp add: names get_system_counters_def)
qed

end
