(* ===== verification/Snapshot.thy ===== *)
theory Snapshot
  imports Go_Strings Go_Time
begin

text \<open>
  The package \<^verbatim>\<open>snapshot/\<close>: the interface \<^verbatim>\<open>SnapshotWriter\<close> and its four
  implementations. The memory writer is shared by pointer between the service and the job it
  started, so memory writers live in a store and a writer refers to one by its address. Files
  and the points sent to InfluxDB are the other parts of the world the writers change.
\<close>

record memory_writer =
  mw_counters :: counters
  mw_updatedAt :: gotime

record json_row =
  row_Time :: int64
  row_Counters :: counters

record influx_target =
  it_serverURL :: string
  it_authToken :: string
  it_org :: string
  it_bucket :: string

record influx_point =
  pt_target :: influx_target
  pt_measurement :: string
  pt_tags :: "string \<rightharpoonup> string"
  pt_fields :: counters
  pt_time :: gotime

datatype snapshot_writer =
    MemoryWriter nat
  | JsonWriter string
  | InfluxWriter influx_target "string \<rightharpoonup> string"
  | AggregatedWriter "snapshot_writer list"

record world =
  w_mem :: "nat \<rightharpoonup> memory_writer"
  w_files :: "string \<rightharpoonup> string"
  w_points :: "influx_point list"

text \<open>
  What the writers call: \<^verbatim>\<open>json.Marshal\<close>, \<^verbatim>\<open>os.OpenFile\<close>, \<^verbatim>\<open>f.Write\<close>
  and \<^verbatim>\<open>WritePoint\<close>. The result of \<^verbatim>\<open>f.Write\<close> is ignored by the code, so
  \<open>se_write\<close> is what of the data reaches the file.
\<close>

record snapshot_env =
  se_marshal :: "json_row \<Rightarrow> goerror + string"
  se_open :: "string \<Rightarrow> goerror option"
  se_write :: "string \<Rightarrow> string \<Rightarrow> string"
  se_write_point :: "influx_point \<Rightarrow> goerror option"

text \<open>The constructors.\<close>

definition empty_memory_writer :: memory_writer where
  "empty_memory_writer = \<lparr>mw_counters = Map.empty, mw_updatedAt = 0\<rparr>"

definition NewMemorySnapshotWriter :: "nat \<Rightarrow> world \<Rightarrow> world" where
  "NewMemorySnapshotWriter a w = w\<lparr>w_mem := (w_mem w)(a \<mapsto> empty_memory_writer)\<rparr>"

definition NewJsonSnapshotWriter :: "string \<Rightarrow> snapshot_writer" where
  "NewJsonSnapshotWriter filename = JsonWriter filename"

definition NewInfluxDBSnapshotWriter ::
  "string \<Rightarrow> string \<Rightarrow> string \<Rightarrow> string \<Rightarrow> (string \<rightharpoonup> string) \<Rightarrow> snapshot_writer" where
  "NewInfluxDBSnapshotWriter serverURL authToken org bucket tags =
     InfluxWriter \<lparr>it_serverURL = serverURL, it_authToken = authToken, it_org = org, it_bucket = bucket\<rparr> tags"

definition NewAggregatedSnapshotWriter :: "snapshot_writer list \<Rightarrow> snapshot_writer" where
  "NewAggregatedSnapshotWriter ws = AggregatedWriter ws"

subsection \<open>WriteCounters\<close>

text \<open>Seconds since the epoch of the development's time, which counts nanoseconds.\<close>

definition time_unix :: "gotime \<Rightarrow> int64" where
  "time_unix t = word_of_int (t div second_ns)"

definition newline :: char where
  "newline = CHR 0x0A"

definition memory_WriteCounters :: "nat \<Rightarrow> gotime \<Rightarrow> counters \<Rightarrow> world \<Rightarrow> world \<times> goerror option" where
  "memory_WriteCounters a now cs w =
     (w\<lparr>w_mem := (w_mem w)(a \<mapsto> \<lparr>mw_counters = cs, mw_updatedAt = now\<rparr>)\<rparr>, None)"

definition json_WriteCounters ::
  "snapshot_env \<Rightarrow> string \<Rightarrow> gotime \<Rightarrow> counters \<Rightarrow> world \<Rightarrow> world \<times> goerror option" where
  "json_WriteCounters env filename now cs w =
     (case se_marshal env \<lparr>row_Time = time_unix now, row_Counters = cs\<rparr> of
        Inl err \<Rightarrow> (w, Some err)
      | Inr data \<Rightarrow>
          (case se_open env filename of
             Some err \<Rightarrow> (w, Some err)
           | None \<Rightarrow>
               (let old = (case w_files w filename of None \<Rightarrow> '''' | Some c \<Rightarrow> c) in
                (w\<lparr>w_files := (w_files w)(filename \<mapsto> old @ se_write env filename (data @ [newline]))\<rparr>, None))))"

definition influx_WriteCounters ::
  "snapshot_env \<Rightarrow> influx_target \<Rightarrow> (string \<rightharpoonup> string) \<Rightarrow> gotime \<Rightarrow> counters \<Rightarrow> world \<Rightarrow> world \<times> goerror option" where
  "influx_WriteCounters env target tags now cs w =
     (let p = \<lparr>pt_target = target, pt_measurement = ''job_stat'', pt_tags = tags, pt_fields = cs, pt_time = now\<rparr> in
      case se_write_point env p of
        Some err \<Rightarrow> (w, Some err)
      | None \<Rightarrow> (w\<lparr>w_points := w_points w @ [p]\<rparr>, None))"

text \<open>The error text of the aggregated writer: the errors of all its writers, joined by semicolons.\<close>

definition aggregated_error :: "goerror list \<Rightarrow> goerror option" where
  "aggregated_error errs =
     (if errs = [] then None
      else Some (''AggregatedSnapshotWriter.WriteCounters:'' @ join_with CHR '';'' errs))"

fun WriteCounters ::
  "snapshot_env \<Rightarrow> snapshot_writer \<Rightarrow> gotime \<Rightarrow> counters \<Rightarrow> world \<Rightarrow> world \<times> goerror option"
and write_all ::
  "snapshot_env \<Rightarrow> snapshot_writer list \<Rightarrow> gotime \<Rightarrow> counters \<Rightarrow> world \<Rightarrow> goerror list \<Rightarrow> world \<times> goerror list" where
  "WriteCounters env (MemoryWriter a) now cs w = memory_WriteCounters a now cs w"
| "WriteCounters env (JsonWriter f) now cs w = json_WriteCounters env f now cs w"
| "WriteCounters env (InfluxWriter tg tags) now cs w = influx_WriteCounters env tg tags now cs w"
| "WriteCounters env (AggregatedWriter ws) now cs w =
     (case write_all env ws now cs w [] of (w', errs) \<Rightarrow> (w', aggregated_error errs))"
| "write_all env [] now cs w errs = (w, errs)"
| "write_all env (x # xs) now cs w errs =
     (case WriteCounters env x now cs w of
        (w', Some err) \<Rightarrow> write_all env xs now cs w' (errs @ [err])
      | (w', None) \<Rightarrow> write_all env xs now cs w' errs)"

text \<open>\<^verbatim>\<open>MemorySnapshotWriter.Dump\<close>: the payload that is marshalled.\<close>

definition memory_Dump :: "(memory_writer \<Rightarrow> goerror + string) \<Rightarrow> nat \<Rightarrow> world \<Rightarrow> (goerror + string) go" where
  "memory_Dump marshal a w =
     (case w_mem w a of None \<Rightarrow> Panic NilDereference | Some m \<Rightarrow> Return (marshal m))"

subsection \<open>The interface\<close>

definition file_content :: "world \<Rightarrow> string \<Rightarrow> string" where
  "file_content w f = (case w_files w f of None \<Rightarrow> [] | Some c \<Rightarrow> c)"

text \<open>
  What \<^verbatim>\<open>SnapshotWriter\<close> promises. \<open>holds\<close> says that the snapshot is what a reader of
  the writer's target sees: the fields of the memory writer, the last complete row of the file, a
  point of the database. A successful write establishes it, and a write of the same snapshot by
  any writer keeps it, provided that files take all the bytes they are given: the JSON writer
  ignores what \<^verbatim>\<open>f.Write\<close> answers, so that its success alone says nothing about the file.
\<close>

fun holds :: "snapshot_env \<Rightarrow> snapshot_writer \<Rightarrow> gotime \<Rightarrow> counters \<Rightarrow> world \<Rightarrow> bool" where
  "holds env (MemoryWriter a) now cs w \<longleftrightarrow> w_mem w a = Some \<lparr>mw_counters = cs, mw_updatedAt = now\<rparr>"
| "holds env (JsonWriter f) now cs w \<longleftrightarrow>
     (\<exists>old data. w_files w f = Some (old @ data @ [newline])
        \<and> se_marshal env \<lparr>row_Time = time_unix now, row_Counters = cs\<rparr> = Inr data)"
| "holds env (InfluxWriter tg tags) now cs w \<longleftrightarrow>
     \<lparr>pt_target = tg, pt_measurement = ''job_stat'', pt_tags = tags, pt_fields = cs, pt_time = now\<rparr> \<in> set (w_points w)"
| "holds env (AggregatedWriter ws) now cs w \<longleftrightarrow> (\<forall>x \<in> set ws. holds env x now cs w)"

definition complete_writes :: "snapshot_env \<Rightarrow> bool" where
  "complete_writes env \<longleftrightarrow> (\<forall>f d. se_write env f d = d)"

locale snapshot_interface =
  fixes reliable :: bool
    and put :: "'w \<Rightarrow> gotime \<Rightarrow> counters \<Rightarrow> 'st \<Rightarrow> 'st \<times> goerror option"
    and visible :: "'w \<Rightarrow> gotime \<Rightarrow> counters \<Rightarrow> 'st \<Rightarrow> bool"
  assumes put_visible: "reliable \<Longrightarrow> put x now cs w = (w', None) \<Longrightarrow> visible x now cs w'"
    and put_keeps: "reliable \<Longrightarrow> visible y now cs w \<Longrightarrow> put x now cs w = (w', err) \<Longrightarrow> visible y now cs w'"
begin

lemma put_then_put:
  assumes "reliable" and "put x now cs w = (w1, None)" and "put y now cs w1 = (w2, err)"
  shows "visible x now cs w2"
  using put_keeps[OF assms(1) put_visible[OF assms(1,2)] assms(3)] .

end

text \<open>How a write of the snapshot \<open>(now, cs)\<close> may change the world: files and the database only grow.\<close>

definition snapshot_change :: "snapshot_env \<Rightarrow> gotime \<Rightarrow> counters \<Rightarrow> world \<Rightarrow> world \<Rightarrow> bool" where
  "snapshot_change env now cs w w' \<longleftrightarrow>
     (\<forall>a. w_mem w' a = w_mem w a \<or> w_mem w' a = Some \<lparr>mw_counters = cs, mw_updatedAt = now\<rparr>)
     \<and> (\<forall>f. w_files w' f = w_files w f
          \<or> (\<exists>more data. w_files w' f = Some (file_content w f @ more @ se_write env f (data @ [newline]))
               \<and> se_marshal env \<lparr>row_Time = time_unix now, row_Counters = cs\<rparr> = Inr data))
     \<and> (\<exists>more. w_points w' = w_points w @ more)"

lemma snapshot_change_refl [simp]: "snapshot_change env now cs w w"
  by (simp add: snapshot_change_def)

lemma snapshot_change_files:
  assumes "snapshot_change env now cs w w'"
  obtains "w_files w' f = w_files w f"
  | more data where "w_files w' f = Some (file_content w f @ more @ se_write env f (data @ [newline]))"
    "se_marshal env \<lparr>row_Time = time_unix now, row_Counters = cs\<rparr> = Inr data"
  using assms unfolding snapshot_change_def by blast

lemma snapshot_change_trans:
  assumes "snapshot_change env now cs w w'" and "snapshot_change env now cs w' w''"
  shows "snapshot_change env now cs w w''"
proof -
  have "w_files w'' f = w_files w f
      \<or> (\<exists>more data. w_files w'' f = Some (file_content w f @ more @ se_write env f (data @ [newline]))
           \<and> se_marshal env \<lparr>row_Time = time_unix now, row_Counters = cs\<rparr> = Inr data)" for f
  proof (rule snapshot_change_files[OF assms(2), of f])
    assume same: "w_files w'' f = w_files w' f"
    show ?thesis by (rule snapshot_change_files[OF assms(1), of f]) (use same in auto)
  next
    fix more data
    assume last: "w_files w'' f = Some (file_content w' f @ more @ se_write env f (data @ [newline]))"
      "se_marshal env \<lparr>row_Time = time_unix now, row_Counters = cs\<rparr> = Inr data"
    obtain more' where "file_content w' f = file_content w f @ more'"
      by (rule snapshot_change_files[OF assms(1), of f]) (auto simp: file_content_def)
    with last have "w_files w'' f = Some (file_content w f @ (more' @ more) @ se_write env f (data @ [newline]))" by simp
    with last(2) show ?thesis by blast
  qed
  moreover have "w_mem w'' a = w_mem w a \<or> w_mem w'' a = Some \<lparr>mw_counters = cs, mw_updatedAt = now\<rparr>" for a
    using assms unfolding snapshot_change_def by metis
  moreover have "\<exists>more. w_points w'' = w_points w @ more"
    using assms unfolding snapshot_change_def by (metis append.assoc)
  ultimately show ?thesis by (simp add: snapshot_change_def)
qed

lemma snapshot_change_grows:
  assumes "snapshot_change env now cs w w'"
  shows "\<exists>more. file_content w' f = file_content w f @ more" "\<exists>more. w_points w' = w_points w @ more"
proof -
  show "\<exists>more. file_content w' f = file_content w f @ more"
    by (rule snapshot_change_files[OF assms, of f]) (auto simp: file_content_def)
  show "\<exists>more. w_points w' = w_points w @ more" using assms by (simp add: snapshot_change_def)
qed

lemma base_writers_change:
  "memory_WriteCounters a now cs w = (w', err) \<Longrightarrow> snapshot_change env now cs w w'"
  "json_WriteCounters env f now cs w = (w', err) \<Longrightarrow> snapshot_change env now cs w w'"
  "influx_WriteCounters env tg tags now cs w = (w', err) \<Longrightarrow> snapshot_change env now cs w w'"
  by (auto simp: memory_WriteCounters_def json_WriteCounters_def influx_WriteCounters_def Let_def
      snapshot_change_def file_content_def split: sum.splits option.splits)

lemma WriteCounters_change:
  "WriteCounters env x now cs w = (w', err) \<Longrightarrow> snapshot_change env now cs w w'"
  "write_all env xs now cs w errs = (w', errs') \<Longrightarrow> snapshot_change env now cs w w'"
proof (induction env x now cs w and env xs now cs w errs arbitrary: w' err and w' errs'
    rule: WriteCounters_write_all.induct)
  case (6 env x xs now cs w errs)
  then show ?case by (auto split: prod.splits option.splits intro: snapshot_change_trans)
qed (auto simp: base_writers_change split: prod.splits)

lemma holds_change:
  assumes "complete_writes env"
  shows "snapshot_change env now cs w w' \<Longrightarrow> holds env y now cs w \<Longrightarrow> holds env y now cs w'"
  using assms
proof (induction env y now cs w arbitrary: w' rule: holds.induct)
  case (1 env a now cs w)
  then show ?case unfolding snapshot_change_def holds.simps by metis
next
  case (2 env f now cs w)
  show ?case
  proof (rule snapshot_change_files[OF 2(1), of f])
    fix more data
    assume "w_files w' f = Some (file_content w f @ more @ se_write env f (data @ [newline]))"
      and data: "se_marshal env \<lparr>row_Time = time_unix now, row_Counters = cs\<rparr> = Inr data"
    then have "w_files w' f = Some ((file_content w f @ more) @ data @ [newline])"
      using 2(3) by (simp add: complete_writes_def)
    with data show ?thesis unfolding holds.simps by blast
  qed (use 2(2) in auto)
next
  case (3 env tg tags now cs w)
  then show ?case unfolding snapshot_change_def by auto
qed auto

lemma WriteCounters_keeps:
  "complete_writes env \<Longrightarrow> holds env y now cs w \<Longrightarrow> WriteCounters env x now cs w = (w', err) \<Longrightarrow> holds env y now cs w'"
  using WriteCounters_change(1) holds_change by blast

lemma json_WriteCounters_holds:
  assumes "complete_writes env" and "json_WriteCounters env f now cs w = (w', None)"
  shows "holds env (JsonWriter f) now cs w'"
  using assms by (auto simp: json_WriteCounters_def complete_writes_def Let_def split: sum.splits option.splits)

lemma WriteCounters_holds:
  "WriteCounters env x now cs w = (w', None) \<Longrightarrow> complete_writes env \<Longrightarrow> holds env x now cs w'"
  "write_all env xs now cs w errs = (w', errs') \<Longrightarrow> complete_writes env \<Longrightarrow>
     (\<exists>more. errs' = errs @ more) \<and> (errs' = errs \<longrightarrow> (\<forall>x \<in> set xs. holds env x now cs w'))"
proof (induction env x now cs w and env xs now cs w errs arbitrary: w' and w' errs'
    rule: WriteCounters_write_all.induct)
  case (2 env f now cs w)
  then show ?case using json_WriteCounters_holds by simp
next
  case (4 env ws now cs w)
  then show ?case by (force simp: aggregated_error_def split: prod.splits if_splits)
next
  case (6 env x xs now cs w errs)
  obtain w1 err where wx: "WriteCounters env x now cs w = (w1, err)" by (cases "WriteCounters env x now cs w")
  show ?case
  proof (cases err)
    case None
    with 6 wx have "holds env x now cs w1" "write_all env xs now cs w1 errs = (w', errs')" by auto
    moreover have "holds env x now cs w'"
      using calculation WriteCounters_change(2) holds_change[OF 6(5)] by blast
    ultimately show ?thesis using 6 wx None by auto
  next
    case (Some e)
    with 6 wx show ?thesis by fastforce
  qed
qed (auto simp: memory_WriteCounters_def influx_WriteCounters_def Let_def split: option.splits)

interpretation snapshot: snapshot_interface "complete_writes env" "WriteCounters env" "holds env" for env
  by unfold_locales (use WriteCounters_holds(1) in blast, use WriteCounters_keeps in blast)

subsection \<open>Properties\<close>

text \<open>
  C25: a successful \<^verbatim>\<open>WriteCounters\<close> of any snapshot writer, an aggregated one
  included, leaves the snapshot where a reader of the writer finds it (the memory writer's
  fields, a complete row at the end of the file, a point of the database), and no later write of
  the same snapshot by another writer, successful or not, takes it away, provided that files take
  all the bytes they are given; and whether the writes succeed or not, no row of a file and no point
  written before is lost.
\<close>

theorem snapshot_written:
  assumes "complete_writes env"
    and "WriteCounters env x now cs w = (w1, None)" and "WriteCounters env y now cs w1 = (w2, err)"
  shows "holds env x now cs w1 \<and> holds env x now cs w2
    \<and> (\<exists>more. file_content w2 f = file_content w f @ more) \<and> (\<exists>more. w_points w2 = w_points w @ more)"
proof -
  have "snapshot_change env now cs w w2"
    using WriteCounters_change(1)[OF assms(2)] WriteCounters_change(1)[OF assms(3)] by (rule snapshot_change_trans)
  from snapshot_change_grows[OF this] show ?thesis
    using snapshot.put_visible[OF assms(1,2)] snapshot.put_then_put[OF assms] by simp
qed

text \<open>
  Without the condition on the file a successful write of the JSON writer may leave no trace: the
  error of \<^verbatim>\<open>f.Write\<close> is ignored.
\<close>

lemma json_write_error_ignored:
  assumes "se_marshal env \<lparr>row_Time = time_unix now, row_Counters = cs\<rparr> = Inr data" and "se_open env f = None"
    and "se_write env f (data @ [newline]) = []"
  shows "\<exists>w1. WriteCounters env (JsonWriter f) now cs w = (w1, None) \<and> file_content w1 f = file_content w f"
  using assms by (simp add: json_WriteCounters_def Let_def file_content_def split: option.splits)

definition demo_snapshot_env :: snapshot_env where
  "demo_snapshot_env = \<lparr>se_marshal = (\<lambda>r. Inr (format_int (row_Time r))), se_open = (\<lambda>f. None), se_write = (\<lambda>f d. d),
     se_write_point = (\<lambda>p. Some ''unavailable'')\<rparr>"

definition demo_world :: world where
  "demo_world = \<lparr>w_mem = Map.empty, w_files = Map.empty, w_points = []\<rparr>"

definition demo_influx :: snapshot_writer where
  "demo_influx = NewInfluxDBSnapshotWriter ''http'' ''t'' ''o'' ''b'' [''job'' \<mapsto> ''j'']"

theorem snapshot_written_witness:
  "\<exists>w2. holds demo_snapshot_env (AggregatedWriter [MemoryWriter 3, JsonWriter ''f'']) 5 [''a'' \<mapsto> 1] w2
    \<and> (\<exists>more. file_content w2 ''f'' = file_content demo_world ''f'' @ more)"
proof -
  let ?x = "AggregatedWriter [MemoryWriter 3, JsonWriter ''f'']"
  let ?w1 = "fst (WriteCounters demo_snapshot_env ?x 5 [''a'' \<mapsto> 1] demo_world)"
  have "complete_writes demo_snapshot_env" by (simp add: complete_writes_def demo_snapshot_env_def)
  moreover have "WriteCounters demo_snapshot_env ?x 5 [''a'' \<mapsto> 1] demo_world = (?w1, None)"
    by (simp add: memory_WriteCounters_def json_WriteCounters_def demo_snapshot_env_def Let_def aggregated_error_def)
  ultimately show ?thesis
    using snapshot_written[OF _ _ prod.collapse[symmetric], of demo_snapshot_env ?x 5 "[''a'' \<mapsto> 1]" demo_world ?w1 demo_influx "''f''"] by blast
qed

text \<open>The errors of the writers, each run in the world the ones before it left.\<close>

fun write_errors ::
  "snapshot_env \<Rightarrow> snapshot_writer list \<Rightarrow> gotime \<Rightarrow> counters \<Rightarrow> world \<Rightarrow> goerror list" where
  "write_errors env [] now cs w = []"
| "write_errors env (x # xs) now cs w =
     (case WriteCounters env x now cs w of
        (w', err) \<Rightarrow> (case err of None \<Rightarrow> [] | Some e \<Rightarrow> [e]) @ write_errors env xs now cs w')"

lemma write_all_errors:
  "write_all env xs now cs w errs =
     (fold (\<lambda>x w. fst (WriteCounters env x now cs w)) xs w, errs @ write_errors env xs now cs w)"
  by (induction xs arbitrary: w errs) (auto split: prod.splits option.splits)

text \<open>
  The aggregated writer tries every writer, in order, whatever the others answer: its error
  is nil exactly when all of them succeeded one after the other, and otherwise it names the
  errors of all writers that failed.
\<close>

theorem aggregated_writes_all:
  "WriteCounters env (NewAggregatedSnapshotWriter ws) now cs w =
     (fold (\<lambda>x w. fst (WriteCounters env x now cs w)) ws w, aggregated_error (write_errors env ws now cs w))"
  by (simp add: NewAggregatedSnapshotWriter_def write_all_errors)

subsection \<open>The file of the JSON writer\<close>

text \<open>Repeated writes of the JSON writer, as \<^verbatim>\<open>watchCounters\<close> makes them.\<close>

fun json_writes :: "snapshot_env \<Rightarrow> string \<Rightarrow> (gotime \<times> counters) list \<Rightarrow> world \<Rightarrow> world" where
  "json_writes env f [] w = w"
| "json_writes env f ((now, cs) # xs) w = json_writes env f xs (fst (WriteCounters env (JsonWriter f) now cs w))"

definition json_rows :: "(gotime \<times> counters) list \<Rightarrow> json_row list" where
  "json_rows xs = map (\<lambda>(now, cs). \<lparr>row_Time = time_unix now, row_Counters = cs\<rparr>) xs"

lemma split_on_lines:
  "\<forall>s \<in> set ss. c \<notin> set s \<Longrightarrow> split_on c (concat (map (\<lambda>s. s @ [c]) ss)) = ss @ [[]]"
  by (induction ss) (auto simp: split_on_append)

lemma json_writes_file:
  assumes "\<And>r. r \<in> set (json_rows xs) \<Longrightarrow> se_marshal env r = Inr (enc r)" and "se_open env f = None"
    and "\<And>d. se_write env f d = d"
  shows "w_files (json_writes env f xs w) f =
     (if xs = [] then w_files w f
      else Some ((case w_files w f of None \<Rightarrow> '''' | Some c \<Rightarrow> c)
             @ concat (map (\<lambda>r. enc r @ [newline]) (json_rows xs))))"
  using assms(1)
proof (induction xs arbitrary: w)
  case (Cons x xs)
  obtain now cs where x: "x = (now, cs)" by (cases x)
  have "w_files (json_writes env f (x # xs) w) f =
    (if xs = [] then w_files (fst (json_WriteCounters env f now cs w)) f
      else Some ((case w_files (fst (json_WriteCounters env f now cs w)) f of None \<Rightarrow> '''' | Some c \<Rightarrow> c)
             @ concat (map (\<lambda>r. enc r @ [newline]) (json_rows xs))))"
    using Cons by (simp add: x json_rows_def)
  then show ?case
    using Cons.prems assms(2,3) by (simp add: x json_rows_def json_WriteCounters_def Let_def)
qed simp

text \<open>
  C26: the JSON writer's file reads back. When \<^verbatim>\<open>json.Marshal\<close> encodes rows without a
  newline (its compact form never contains one) and a decoder inverts it, and the file takes all the bytes
  it is given, a file written from scratch by any number of \<^verbatim>\<open>WriteCounters\<close>, split into lines and decoded, gives
  exactly the snapshots in the order they were written, followed by the empty last line.
\<close>

theorem json_file_roundtrip:
  assumes "\<And>r. r \<in> set (json_rows xs) \<Longrightarrow> se_marshal env r = Inr (enc r) \<and> newline \<notin> set (enc r) \<and> dec (enc r) = Some r"
    and "se_open env f = None" and "\<And>d. se_write env f d = d" and "w_files w f = None" and "xs \<noteq> []"
  shows "\<exists>c. w_files (json_writes env f xs w) f = Some c
    \<and> last (split_on newline c) = '''' \<and> map dec (butlast (split_on newline c)) = map Some (json_rows xs)"
proof -
  let ?lines = "map enc (json_rows xs)"
  have "w_files (json_writes env f xs w) f = Some (concat (map (\<lambda>s. s @ [newline]) ?lines))"
    using json_writes_file[of xs env enc f w] assms by (simp add: comp_def)
  moreover have "split_on newline (concat (map (\<lambda>s. s @ [newline]) ?lines)) = ?lines @ [[]]"
    using split_on_lines[of ?lines newline] assms(1) by auto
  moreover have "map dec ?lines = map Some (json_rows xs)" using assms(1) by simp
  ultimately show ?thesis by simp
qed

definition demo_snapshots :: "(gotime \<times> counters) list" where
  "demo_snapshots = [(1000000000, Map.empty), (2500000000, Map.empty)]"

definition demo_row_dec :: "string \<Rightarrow> json_row option" where
  "demo_row_dec s = Some \<lparr>row_Time = fst (atoi s), row_Counters = Map.empty\<rparr>"

lemma demo_rows: "json_rows demo_snapshots =
    [\<lparr>row_Time = 1, row_Counters = Map.empty\<rparr>, \<lparr>row_Time = 2, row_Counters = Map.empty\<rparr>]"
  by (simp add: json_rows_def demo_snapshots_def time_unix_def second_ns_def)

lemma demo_format: "format_int 1 = ''1''" "format_int 2 = ''2''"
  by code_simp+

theorem json_file_roundtrip_witness:
  "\<exists>c. w_files (json_writes demo_snapshot_env ''f'' demo_snapshots demo_world) ''f'' = Some c
    \<and> last (split_on newline c) = ''''
    \<and> map demo_row_dec (butlast (split_on newline c)) = map Some (json_rows demo_snapshots)"
proof (rule json_file_roundtrip[where enc = "\<lambda>r. format_int (row_Time r)"])
  fix r assume "r \<in> set (json_rows demo_snapshots)"
  then have r: "r = \<lparr>row_Time = 1, row_Counters = Map.empty\<rparr> \<or> r = \<lparr>row_Time = 2, row_Counters = Map.empty\<rparr>"
    by (simp add: demo_rows)
  then show "se_marshal demo_snapshot_env r = Inr (format_int (row_Time r)) \<and> newline \<notin> set (format_int (row_Time r))
    \<and> demo_row_dec (format_int (row_Time r)) = Some r"
    by (elim disjE) (simp_all add: demo_snapshot_env_def demo_row_dec_def atoi_format_int,
      simp_all add: demo_format newline_def)
qed (simp_all add: demo_snapshot_env_def demo_world_def demo_snapshots_def)

end
