(* ===== verification/Master_Controller.thy ===== *)
theory Master_Controller
  imports Agent_Controller Snapshot "HOL-Library.List_Lexorder" "HOL-Library.Char_ord"
    "HOL-Library.Multiset"
begin

text \<open>
  \<^verbatim>\<open>master/master_controller.go\<close> with \<^verbatim>\<open>agent/agent_delegate.go\<close>: the master dials
  its agents, sets them up, runs a job on all of them and, once per second and at the end,
  writes the sum of their counters to a snapshot writer. The remote calls are events with their
  answers. \<^verbatim>\<open>Run\<close> is a step function on the world of the snapshot writers and the state of
  its goroutines: the calls of the agents, the watcher and the main line.
\<close>

subsection \<open>Agents\<close>

type_synonym rpc_client = nat

record agent_delegate =
  ad_Address :: string
  ad_Client :: rpc_client

definition NewAgentDelegate :: "(string \<Rightarrow> goerror + rpc_client) \<Rightarrow> string \<Rightarrow> goerror + agent_delegate" where
  "NewAgentDelegate dial address =
     (case dial address of
        Inl err \<Rightarrow> Inl err
      | Inr client \<Rightarrow> Inr \<lparr>ad_Address = address, ad_Client = client\<rparr>)"

record master_controller =
  mc_Agents :: "agent_delegate list"
  mc_SnapshotWriter :: snapshot_writer

definition RegisterAgent ::
  "(string \<Rightarrow> goerror + rpc_client) \<Rightarrow> string \<Rightarrow> master_controller \<Rightarrow> master_controller \<times> goerror option" where
  "RegisterAgent dial address c =
     (case NewAgentDelegate dial address of
        Inr d \<Rightarrow> (c\<lparr>mc_Agents := mc_Agents c @ [d]\<rparr>, None)
      | Inl err \<Rightarrow> (c, Some err))"

subsection \<open>Collecting and printing the counters\<close>

text \<open>A call that fails leaves the result's map nil, and ranging over it does nothing.\<close>

fun collect_agents :: "(goerror + counters) list \<Rightarrow> counters \<Rightarrow> counters" where
  "collect_agents [] r = r"
| "collect_agents (Inl err # as) r = collect_agents as r"
| "collect_agents (Inr c # as) r = collect_agents as (counters_add r c)"

text \<open>The master's registry is only asked for the type of a session; \<open>clock\<close> gives the time of each call.\<close>

fun aggregate_sessions :: "job \<Rightarrow> (nat \<Rightarrow> gotime) \<Rightarrow> string list \<Rightarrow> counters \<Rightarrow> counters go" where
  "aggregate_sessions j clock [] cs = Return cs"
| "aggregate_sessions j clock (n # ns) cs =
     go_bind (obj_AggregateCounters (SessionMap n) j (clock (length ns)) cs) (aggregate_sessions j clock ns)"

definition collectCounters :: "job \<Rightarrow> (nat \<Rightarrow> gotime) \<Rightarrow> (goerror + counters) list \<Rightarrow> counters go" where
  "collectCounters j clock answers =
     aggregate_sessions j clock (SessionNames j) (collect_agents answers Map.empty)"

definition print_row :: "string \<times> string \<Rightarrow> string" where
  "print_row row = ''     '' @ fst row @ '' :  '' @ snd row"

text \<open>The lines that are logged, for the entries of the map in the order the runtime ranges over them.\<close>

definition printCounters :: "(string \<times> int64) list \<Rightarrow> string list" where
  "printCounters kvs =
     (let table = map (\<lambda>(k, v). (k, format_int v)) kvs in
      ''Counters:'' # map print_row (sort_key fst table))"

subsection \<open>Run\<close>

datatype watch_pc = WatchOff | WatchSelect | WatchWrite counters | WatchReturned

datatype master_pc = MStart | MSetup | MRunning | MCollect | MWrite counters | MPrint counters | MReturned

record master_run =
  mr_job :: job
  mr_pc :: master_pc
  mr_setup :: "bool list"
  mr_setup_done :: "bool list"
  mr_setup_wg :: int
  mr_calls :: "bool list"
  mr_calls_done :: "bool list"
  mr_wg :: int
  mr_stop :: bool
  mr_watch :: watch_pc

datatype master_event =
    MvStart gotime
  | MvSetup nat "goerror option"
  | MvSetupWg nat
  | MvSetupDone
  | MvRun nat "goerror option"
  | MvRunWg nat
  | MvRunDone
  | MvCollect "(goerror + counters) list" "nat \<Rightarrow> gotime"
  | MvWrite gotime
  | MvPrint
  | WvTick "(goerror + counters) list" "nat \<Rightarrow> gotime"
  | WvWrite gotime
  | WvStop

definition master_start :: "job \<Rightarrow> master_run" where
  "master_start j = \<lparr>mr_job = j, mr_pc = MStart, mr_setup = [], mr_setup_done = [], mr_setup_wg = 0,
     mr_calls = [], mr_calls_done = [], mr_wg = 0, mr_stop = False, mr_watch = WatchOff\<rparr>"

text \<open>
  The goroutines that a loop over the agents starts are started together: nothing waits for them
  before the loop has ended. \<open>mr_setup\<close> and \<open>mr_calls\<close> say which of the calls have
  returned, \<open>mr_setup_done\<close> and \<open>mr_calls_done\<close> which of the goroutines have gone on to
  \<^verbatim>\<open>wg.Done()\<close>, and \<open>mr_setup_wg\<close> and \<open>mr_wg\<close> are the counters of the wait groups of
  \<^verbatim>\<open>setupAllAgents\<close> and of \<^verbatim>\<open>Run\<close>. A tick that is collected ends in \<open>WatchWrite\<close>, so that the main line may go on
  between the watcher's collection and its write.
\<close>

definition watch_step ::
  "snapshot_env \<Rightarrow> master_controller \<Rightarrow> world \<Rightarrow> master_run \<Rightarrow> master_event \<Rightarrow> (world, master_run) step_result" where
  "watch_step env c w m e =
     (case (mr_watch m, e) of
        (WatchSelect, WvTick answers clock) \<Rightarrow>
          if length answers = length (mc_Agents c)
          then (case collectCounters (mr_job m) clock answers of
                  Return cs \<Rightarrow> Next w (m\<lparr>mr_watch := WatchWrite cs\<rparr>)
                | Panic p \<Rightarrow> Crash p
                | Fatal msg \<Rightarrow> Crash (LogFatal msg))
          else Disabled
      | (WatchWrite cs, WvWrite now) \<Rightarrow>
          Next (fst (WriteCounters env (mc_SnapshotWriter c) now cs w)) (m\<lparr>mr_watch := WatchSelect\<rparr>)
      | (WatchSelect, WvStop) \<Rightarrow> if mr_stop m then Next w (m\<lparr>mr_watch := WatchReturned\<rparr>) else Disabled
      | _ \<Rightarrow> Disabled)"

definition call_step :: "world \<Rightarrow> master_run \<Rightarrow> master_event \<Rightarrow> (world, master_run) step_result" where
  "call_step w m e =
     (case e of
        MvSetup i res \<Rightarrow>
          if i < length (mr_setup m) \<and> \<not> mr_setup m ! i
          then (case res of
                  Some err \<Rightarrow> Crash (LogFatal err)
                | None \<Rightarrow> Next w (m\<lparr>mr_setup := (mr_setup m)[i := True]\<rparr>))
          else Disabled
      | MvSetupWg i \<Rightarrow>
          if i < length (mr_setup m) \<and> mr_setup m ! i \<and> \<not> mr_setup_done m ! i
          then (if mr_setup_wg m \<le> 0 then Crash NegativeWaitGroup
                else Next w (m\<lparr>mr_setup_done := (mr_setup_done m)[i := True], mr_setup_wg := mr_setup_wg m - 1\<rparr>))
          else Disabled
      | MvRun i res \<Rightarrow>
          if i < length (mr_calls m) \<and> \<not> mr_calls m ! i
          then Next w (m\<lparr>mr_calls := (mr_calls m)[i := True]\<rparr>)
          else Disabled
      | MvRunWg i \<Rightarrow>
          if i < length (mr_calls m) \<and> mr_calls m ! i \<and> \<not> mr_calls_done m ! i
          then (if mr_wg m \<le> 0 then Crash NegativeWaitGroup
                else Next w (m\<lparr>mr_calls_done := (mr_calls_done m)[i := True], mr_wg := mr_wg m - 1\<rparr>))
          else Disabled
      | _ \<Rightarrow> Disabled)"

definition main_step ::
  "snapshot_env \<Rightarrow> master_controller \<Rightarrow> world \<Rightarrow> master_run \<Rightarrow> master_event \<Rightarrow> (world, master_run) step_result" where
  "main_step env c w m e =
     (case (mr_pc m, e) of
        (MStart, MvStart now) \<Rightarrow>
          Next w (m\<lparr>mr_job := (mr_job m)\<lparr>StartTime := now\<rparr>,
            mr_setup := replicate (length (mc_Agents c)) False, mr_setup_done := replicate (length (mc_Agents c)) False,
            mr_setup_wg := int (length (mc_Agents c)), mr_pc := MSetup\<rparr>)
      | (MSetup, MvSetupDone) \<Rightarrow>
          if mr_setup_wg m = 0
          then Next w (m\<lparr>mr_calls := replicate (length (mc_Agents c)) False, mr_calls_done := replicate (length (mc_Agents c)) False,
            mr_wg := int (length (mc_Agents c)), mr_watch := WatchSelect, mr_pc := MRunning\<rparr>)
          else Disabled
      | (MRunning, MvRunDone) \<Rightarrow>
          if mr_wg m = 0 then Next w (m\<lparr>mr_stop := True, mr_pc := MCollect\<rparr>) else Disabled
      | (MCollect, MvCollect answers clock) \<Rightarrow>
          if length answers = length (mc_Agents c)
          then (case collectCounters (mr_job m) clock answers of
                  Return cs \<Rightarrow> Next w (m\<lparr>mr_pc := MWrite cs\<rparr>)
                | Panic p \<Rightarrow> Crash p
                | Fatal msg \<Rightarrow> Crash (LogFatal msg))
          else Disabled
      | (MWrite cs, MvWrite now) \<Rightarrow>
          Next (fst (WriteCounters env (mc_SnapshotWriter c) now cs w)) (m\<lparr>mr_pc := MPrint cs\<rparr>)
      | (MPrint cs, MvPrint) \<Rightarrow> Next w (m\<lparr>mr_pc := MReturned\<rparr>)
      | _ \<Rightarrow> Disabled)"

definition master_step ::
  "snapshot_env \<Rightarrow> master_controller \<Rightarrow> world \<Rightarrow> master_run \<Rightarrow> master_event \<Rightarrow> (world, master_run) step_result" where
  "master_step env c w m e =
     (case e of
        MvSetup _ _ \<Rightarrow> call_step w m e
      | MvSetupWg _ \<Rightarrow> call_step w m e
      | MvRun _ _ \<Rightarrow> call_step w m e
      | MvRunWg _ \<Rightarrow> call_step w m e
      | WvTick _ _ \<Rightarrow> watch_step env c w m e
      | WvWrite _ \<Rightarrow> watch_step env c w m e
      | WvStop \<Rightarrow> watch_step env c w m e
      | _ \<Rightarrow> main_step env c w m e)"

lemmas master_step_defs = master_step_def main_step_def call_step_def watch_step_def

definition test_duration_secs :: "job \<Rightarrow> gotime \<Rightarrow> int64" where
  "test_duration_secs j now = word_of_int (sint (time_sub now (StartTime j)) sdiv second_ns)"

subsection \<open>The sum of the agents\<close>

definition answered :: "goerror + counters \<Rightarrow> string \<Rightarrow> int64" where
  "answered a k = (case a of Inl _ \<Rightarrow> 0 | Inr c \<Rightarrow> cnt_get c k)"

lemma collect_agents_get: "cnt_get (collect_agents as r) k = cnt_get r k + sum_list (map (\<lambda>a. answered a k) as)"
  by (induction as r rule: collect_agents.induct) (simp_all add: answered_def)

lemma collect_agents_dom: "dom (collect_agents as r) = dom r \<union> (\<Union>c \<in> {c. Inr c \<in> set as}. dom c)"
  by (induction as r rule: collect_agents.induct) auto

lemma aggregate_keeps:
  "obj_AggregateCounters x j now cs = Return cs' \<Longrightarrow> k \<noteq> ''rps'' \<Longrightarrow> cs' k = cs k"
  by (auto simp: obj_AggregateCounters_def http_AggregateCounters_def Let_def split: option.splits session_obj.splits if_splits)

lemma aggregate_sessions_keeps:
  "aggregate_sessions j clock ns cs = Return cs' \<Longrightarrow> k \<noteq> ''rps'' \<Longrightarrow> cs' k = cs k"
  by (induction j clock ns cs rule: aggregate_sessions.induct) (fastforce dest: aggregate_keeps)+

lemma aggregate_none:
  assumes "''http:get'' \<notin> set ns"
  shows "aggregate_sessions j clock ns cs = Return cs"
  using assms
proof (induction j clock ns cs rule: aggregate_sessions.induct)
  case (2 j clock n ns cs)
  have "obj_AggregateCounters (SessionMap n) j t cs = Return cs" for t
    using 2(2) by (auto simp: obj_AggregateCounters_def SessionMap_def)
  with 2 show ?case by simp
qed simp

lemma counters_eqI:
  assumes "dom a = dom b" and "\<And>k. cnt_get a k = cnt_get b k"
  shows "a = b"
proof
  fix k
  have "k \<in> dom a \<longleftrightarrow> k \<in> dom b" by (simp only: assms(1))
  then show "a k = b k" using assms(2)[of k] by (cases "a k"; cases "b k") (auto simp: cnt_get_def)
qed

lemma collect_agents_perm:
  assumes "mset as = mset bs"
  shows "collect_agents as r = collect_agents bs r"
proof (rule counters_eqI)
  show "dom (collect_agents as r) = dom (collect_agents bs r)"
    using mset_eq_setD[OF assms] by (simp add: collect_agents_dom)
  show "cnt_get (collect_agents as r) k = cnt_get (collect_agents bs r) k" for k
    using assms by (simp add: collect_agents_get flip: sum_mset_sum_list)
qed

subsection \<open>The invariant of Run\<close>

definition agents_done :: "master_controller \<Rightarrow> bool list \<Rightarrow> bool" where
  "agents_done c bs \<longleftrightarrow> length bs = length (mc_Agents c) \<and> list_all id bs"

text \<open>
  The goroutines of one loop over the agents: the wait group counts those that have not called
  \<^verbatim>\<open>Done\<close>, which each does only after its call has returned.
\<close>

definition calls_inv :: "master_controller \<Rightarrow> bool list \<Rightarrow> bool list \<Rightarrow> int \<Rightarrow> bool" where
  "calls_inv c returned finished wg \<longleftrightarrow>
     length returned = length (mc_Agents c) \<and> length finished = length (mc_Agents c)
     \<and> wg = int (length (filter Not finished)) \<and> (\<forall>i < length finished. finished ! i \<longrightarrow> returned ! i)"

definition master_inv :: "master_controller \<Rightarrow> master_run \<Rightarrow> bool" where
  "master_inv c m \<longleftrightarrow>
     (case mr_pc m of
        MStart \<Rightarrow> mr_setup m = [] \<and> mr_calls m = [] \<and> \<not> mr_stop m \<and> mr_watch m = WatchOff
      | MSetup \<Rightarrow> calls_inv c (mr_setup m) (mr_setup_done m) (mr_setup_wg m) \<and> mr_calls m = [] \<and> \<not> mr_stop m \<and> mr_watch m = WatchOff
      | MRunning \<Rightarrow> agents_done c (mr_setup m) \<and> agents_done c (mr_setup_done m)
          \<and> calls_inv c (mr_calls m) (mr_calls_done m) (mr_wg m) \<and> \<not> mr_stop m
      | _ \<Rightarrow> agents_done c (mr_setup m) \<and> agents_done c (mr_setup_done m)
          \<and> agents_done c (mr_calls m) \<and> agents_done c (mr_calls_done m) \<and> mr_stop m)"

lemma calls_inv_start [simp]:
  "calls_inv c (replicate (length (mc_Agents c)) False) (replicate (length (mc_Agents c)) False) (int (length (mc_Agents c)))"
  by (simp add: calls_inv_def)

lemma calls_inv_return:
  "calls_inv c rs fs wg \<Longrightarrow> calls_inv c (rs[i := True]) fs wg"
  by (cases "i < length rs") (auto simp: calls_inv_def nth_list_update)

lemma calls_inv_finish:
  "calls_inv c rs fs wg \<Longrightarrow> i < length rs \<Longrightarrow> rs ! i \<Longrightarrow> \<not> fs ! i \<Longrightarrow> calls_inv c rs (fs[i := True]) (wg - 1)"
  by (auto simp: calls_inv_def nth_list_update length_filter_update_int)

lemma calls_inv_waited:
  assumes "calls_inv c rs fs 0"
  shows "agents_done c rs \<and> agents_done c fs"
proof -
  have "filter Not fs = []" using assms by (simp add: calls_inv_def)
  then have "\<forall>i < length fs. fs ! i" by (auto simp: filter_empty_conv)
  with assms show ?thesis by (auto simp: calls_inv_def agents_done_def list_all_length)
qed

lemma agents_done_nth: "agents_done c bs \<Longrightarrow> i < length bs \<Longrightarrow> bs ! i"
  by (simp add: agents_done_def list_all_length)

lemma master_step_inv:
  assumes "master_step env c w m e = Next w' m'" and "master_inv c m"
  shows "master_inv c m'"
  using assms
  by (cases "mr_pc m"; cases e;
      clarsimp simp: master_step_defs split: if_splits option.splits watch_pc.splits go.splits;
      auto simp: master_inv_def calls_inv_return calls_inv_finish agents_done_def list_all_length nth_list_update
        dest: calls_inv_waited)

lemma master_run_inv:
  assumes "run_events (master_step env c) w m es = Next w' m'" and "master_inv c m"
  shows "master_inv c m'"
  using assms
proof (induction es arbitrary: w m)
  case (Cons e es)
  then show ?case by (auto split: step_result.splits dest: master_step_inv)
qed simp

lemma master_start_inv [simp]: "master_inv c (master_start j)"
  by (simp add: master_inv_def master_start_def)

text \<open>Only the two writes change the world.\<close>

definition writes :: "master_event \<Rightarrow> bool" where
  "writes e \<longleftrightarrow> (case e of MvWrite _ \<Rightarrow> True | WvWrite _ \<Rightarrow> True | _ \<Rightarrow> False)"

lemma master_step_world:
  "master_step env c w m e = Next w' m' \<Longrightarrow> \<not> writes e \<Longrightarrow> w' = w"
  by (cases "mr_pc m"; cases e)
    (auto simp: master_step_defs writes_def split: if_splits option.splits watch_pc.splits go.splits)

lemma run_events_append:
  "run_events step s l (es @ es') =
     (case run_events step s l es of Next s' l' \<Rightarrow> run_events step s' l' es' | Crash p \<Rightarrow> Crash p | Disabled \<Rightarrow> Disabled)"
  by (induction es arbitrary: s l) (auto split: step_result.splits)

subsection \<open>Properties\<close>

text \<open>
  C9: the master's counters are the sum of its agents'. Whenever \<^verbatim>\<open>collectCounters\<close>
  returns, each counter except the derived \<^verbatim>\<open>rps\<close> is the sum (in 64-bit arithmetic) of that
  counter over the agents that answered, whatever the order of the agents, an agent whose call
  failed counting as 0; and it always returns, with nothing derived, for a job without the HTTP
  session.
\<close>

theorem master_collect_sum:
  assumes "mset as = mset answers"
  shows "(collectCounters j clock as = Return cs \<and> k \<noteq> ''rps'' \<longrightarrow>
            cnt_get cs k = sum_list (map (\<lambda>a. answered a k) answers))
    \<and> (''http:get'' \<notin> set (SessionNames j) \<longrightarrow>
         collectCounters j clock as = Return (collect_agents answers Map.empty))"
proof (intro conjI impI)
  assume "collectCounters j clock as = Return cs \<and> k \<noteq> ''rps''"
  then have "cs k = collect_agents answers Map.empty k"
    using aggregate_sessions_keeps[of j clock _ _ cs k] collect_agents_perm[OF assms]
    by (auto simp: collectCounters_def)
  then have "cnt_get cs k = cnt_get (collect_agents answers Map.empty) k" by (simp add: cnt_get_def)
  then show "cnt_get cs k = sum_list (map (\<lambda>a. answered a k) answers)" by (simp add: collect_agents_get)
next
  assume "''http:get'' \<notin> set (SessionNames j)"
  then show "collectCounters j clock as = Return (collect_agents answers Map.empty)"
    using collect_agents_perm[OF assms] by (simp add: collectCounters_def aggregate_none)
qed

definition demo_master_job :: job where
  "demo_master_job = \<lparr>job_Name = ''demo'', StartTime = 0, Phases = [], SessionNames = [''kafka:producer''],
     SessionPercentages = [Fin 1 0], SessionParams = Map.empty\<rparr>"

theorem master_collect_sum_witness:
  "\<exists>cs. collectCounters demo_master_job (\<lambda>_. 0) [Inr [''a'' \<mapsto> 3], Inl ''down'', Inr [''a'' \<mapsto> 4]] = Return cs
    \<and> cnt_get cs ''a'' = 7"
proof -
  let ?as = "[Inr [''a'' \<mapsto> 3], Inl ''down'', Inr [''a'' \<mapsto> 4]] :: (goerror + counters) list"
  have names: "''http:get'' \<notin> set (SessionNames demo_master_job)" by (simp add: demo_master_job_def)
  note sum = master_collect_sum[OF refl, of demo_master_job "\<lambda>_. 0" ?as]
  have "collectCounters demo_master_job (\<lambda>_. 0) ?as = Return (collect_agents ?as Map.empty)"
    using sum names by blast
  moreover from this have "cnt_get (collect_agents ?as Map.empty) ''a'' = sum_list (map (\<lambda>a. answered a ''a'') ?as)"
    using sum by blast
  ultimately show ?thesis by (simp add: answered_def)
qed

lemma map_fst_sort_key: "map fst (sort_key fst xs) = sort (map fst xs)"
  by (rule properties_for_sort[symmetric]) (simp_all add: mset_map)

lemma sort_key_by_keys:
  assumes "distinct (map fst xs)"
  shows "sort_key fst xs = map (\<lambda>k. (k, the (map_of xs k))) (sort (map fst xs))"
proof -
  have "(fst x, the (map_of xs (fst x))) = x" if "x \<in> set (sort_key fst xs)" for x
    using that assms by (metis map_of_eq_Some_iff option.sel prod.collapse set_sort)
  then have "map (\<lambda>x. (fst x, the (map_of xs (fst x)))) (sort_key fst xs) = sort_key fst xs"
    by (intro map_idI) auto
  then show ?thesis unfolding map_fst_sort_key[symmetric] by (simp add: comp_def)
qed

text \<open>
  C38: what \<^verbatim>\<open>printCounters\<close> logs does not depend on the order in which Go ranges over the
  map: for all orders of the entries the lines are the same, one per counter in the order of the
  names.
\<close>

theorem printCounters_deterministic:
  assumes "enumerates kvs c" and "enumerates kvs' c"
  shows "printCounters kvs = printCounters kvs'
    \<and> printCounters kvs = ''Counters:'' # map (\<lambda>k. print_row (k, format_int (the (c k)))) (sort (map fst kvs))"
proof -
  have lines: "printCounters xs = ''Counters:'' # map (\<lambda>k. print_row (k, format_int (the (c k)))) (sort (map fst xs))"
    if "enumerates xs c" for xs
  proof -
    let ?t = "map (\<lambda>(k, v). (k, format_int v)) xs"
    have f: "map fst ?t = map fst xs" by auto
    have d: "distinct (map fst ?t)" unfolding f using that by (simp add: enumerates_def)
    have "map_of ?t k = map_option format_int (c k)" for k
      using that by (auto simp: enumerates_def map_of_map)
    moreover have "c k \<noteq> None" if "k \<in> set (map fst xs)" for k
      using that \<open>enumerates xs c\<close> by (auto simp: enumerates_def map_of_eq_None_iff)
    ultimately have "the (map_of ?t k) = format_int (the (c k))" if "k \<in> set (sort (map fst xs))" for k
      using that by (simp add: option.map_sel)
    then show ?thesis
      unfolding printCounters_def Let_def sort_key_by_keys[OF d] f by simp
  qed
  have "sort (map fst kvs) = sort (map fst kvs')"
  proof (rule sorted_distinct_set_unique)
    have "set (map fst kvs) = dom c" "set (map fst kvs') = dom c"
      using assms dom_map_of_conv_image_fst[of kvs] dom_map_of_conv_image_fst[of kvs']
      by (simp_all add: enumerates_def)
    then show "set (sort (map fst kvs)) = set (sort (map fst kvs'))" by simp
  qed (use assms in \<open>simp_all add: enumerates_def\<close>)
  with lines[OF assms(1)] lines[OF assms(2)] show ?thesis by simp
qed

theorem printCounters_deterministic_witness:
  "printCounters [(''b'', 2), (''a'', 1)] = printCounters [(''a'', 1), (''b'', 2)]"
proof -
  have "enumerates [(''b'', 2), (''a'', 1)] (map_of [(''b'', 2), (''a'', 1)])"
    "enumerates [(''a'', 1), (''b'', 2)] (map_of [(''b'', 2), (''a'', 1)])"
    by (auto simp: enumerates_def)
  then show ?thesis using printCounters_deterministic by blast
qed

text \<open>
  C10: the master keeps the order of a job. In every reachable state of \<^verbatim>\<open>Run\<close>, an agent's
  \<^verbatim>\<open>Run\<close> is called (and the watcher started) only after the \<^verbatim>\<open>Setup\<close> of every agent has
  returned without an error, the final snapshot is collected only after \<^verbatim>\<open>Run\<close> has returned
  for every agent and the watcher was told to stop, and so does \<^verbatim>\<open>MasterController.Run\<close>.
\<close>

theorem master_run_order:
  assumes "run_events (master_step env c) w (master_start j) es = Next w' m"
  shows "(mr_calls m \<noteq> [] \<or> mr_watch m \<noteq> WatchOff \<longrightarrow> agents_done c (mr_setup m))
    \<and> ((\<exists>cs. mr_pc m \<in> {MCollect, MWrite cs, MPrint cs, MReturned}) \<longrightarrow> agents_done c (mr_calls m) \<and> mr_stop m)"
  using master_run_inv[OF assms master_start_inv] by (cases "mr_pc m") (auto simp: master_inv_def)

definition demo_master :: master_controller where
  "demo_master = \<lparr>mc_Agents = [\<lparr>ad_Address = ''a'', ad_Client = 0\<rparr>], mc_SnapshotWriter = MemoryWriter 0\<rparr>"

definition demo_master_prefix :: "master_event list" where
  "demo_master_prefix = [MvStart 0, MvSetup 0 None, MvSetupWg 0, MvSetupDone]"

definition demo_master_suffix :: "master_event list" where
  "demo_master_suffix = [MvRun 0 None, MvRunWg 0, MvRunDone, MvCollect [Inr [''a'' \<mapsto> 9]] (\<lambda>_. 0), MvWrite 3, MvPrint]"

definition demo_master_done :: "job \<Rightarrow> watch_pc \<Rightarrow> master_run" where
  "demo_master_done j wp = \<lparr>mr_job = j, mr_pc = MReturned, mr_setup = [True], mr_setup_done = [True], mr_setup_wg = 0,
     mr_calls = [True], mr_calls_done = [True], mr_wg = 0, mr_stop = True, mr_watch = wp\<rparr>"

lemma demo_collect: "collectCounters demo_master_job clock [Inr [''a'' \<mapsto> v]] = Return [''a'' \<mapsto> v]"
proof -
  have "counters_add Map.empty [''a'' \<mapsto> v] = [''a'' \<mapsto> v]" by (rule ext) (simp add: counters_add_def)
  moreover have "''http:get'' \<notin> set (SessionNames demo_master_job)" by (simp add: demo_master_job_def)
  ultimately show ?thesis by (simp add: collectCounters_def aggregate_none)
qed

lemma demo_job_start: "demo_master_job\<lparr>StartTime := 0\<rparr> = demo_master_job"
  by (simp add: demo_master_job_def)

lemmas demo_master_defs = master_step_defs master_start_def demo_master_prefix_def demo_master_suffix_def
  demo_master_done_def demo_master_def demo_collect demo_job_start memory_WriteCounters_def

lemma demo_master_run:
  "run_events (master_step env demo_master) w (master_start demo_master_job) (demo_master_prefix @ demo_master_suffix) =
   Next (w\<lparr>w_mem := (w_mem w)(0 \<mapsto> \<lparr>mw_counters = [''a'' \<mapsto> 9], mw_updatedAt = 3\<rparr>)\<rparr>)
     (demo_master_done demo_master_job WatchSelect)"
  by (simp add: demo_master_defs)

theorem master_run_order_witness:
  "agents_done demo_master (mr_calls (demo_master_done demo_master_job WatchSelect))
    \<and> agents_done demo_master (mr_setup (demo_master_done demo_master_job WatchSelect))"
  using master_run_order[OF demo_master_run] by (auto simp: demo_master_done_def)

text \<open>
  The watcher may write after the final snapshot: it collected a tick before the agents finished,
  and \<^verbatim>\<open>Run\<close> does not wait for it. An example, in which the memory writer shows the old
  counters for good, although \<^verbatim>\<open>Run\<close> has returned.
\<close>

lemma master_stale_snapshot:
  "run_events (master_step env demo_master) w (master_start demo_master_job)
     (demo_master_prefix @ [WvTick [Inr [''a'' \<mapsto> 1]] (\<lambda>_. 2)] @ demo_master_suffix @ [WvWrite 4, WvStop]) =
   Next (w\<lparr>w_mem := (w_mem w)(0 \<mapsto> \<lparr>mw_counters = [''a'' \<mapsto> 1], mw_updatedAt = 4\<rparr>)\<rparr>)
     (demo_master_done demo_master_job WatchReturned)"
  by (simp add: demo_master_defs)

subsection \<open>Run returns\<close>

text \<open>The events of \<^verbatim>\<open>Run\<close> and of the calls it waits for; the others are the watcher's.\<close>

definition own :: "master_event \<Rightarrow> bool" where
  "own e \<longleftrightarrow> (case e of WvTick _ _ \<Rightarrow> False | WvWrite _ \<Rightarrow> False | WvStop \<Rightarrow> False | _ \<Rightarrow> True)"

text \<open>
  An event that goes with given answers of the agents: no error from \<^verbatim>\<open>Setup\<close>, which ends the
  master, \<open>runs i\<close> from agent \<open>i\<close>'s \<^verbatim>\<open>Run\<close> and \<open>answers\<close> to the final
  \<^verbatim>\<open>ListCounters\<close> calls.
\<close>

definition answered_by ::
  "(nat \<Rightarrow> goerror option) \<Rightarrow> (goerror + counters) list \<Rightarrow> (nat \<Rightarrow> gotime) \<Rightarrow> master_event \<Rightarrow> bool" where
  "answered_by runs answers clock e \<longleftrightarrow>
     (case e of
        MvSetup i res \<Rightarrow> res = None
      | MvRun i res \<Rightarrow> res = runs i
      | MvCollect as cl \<Rightarrow> as = answers \<and> cl = clock
      | _ \<Rightarrow> True)"

text \<open>How many of its own events a run still has before it.\<close>

definition calls_left :: "bool list \<Rightarrow> bool list \<Rightarrow> nat" where
  "calls_left rs fs = length (filter Not rs) + length (filter Not fs)"

definition master_left :: "master_controller \<Rightarrow> master_run \<Rightarrow> nat" where
  "master_left c m =
     (case mr_pc m of
        MStart \<Rightarrow> 4 * length (mc_Agents c) + 6
      | MSetup \<Rightarrow> calls_left (mr_setup m) (mr_setup_done m) + 2 * length (mc_Agents c) + 5
      | MRunning \<Rightarrow> calls_left (mr_calls m) (mr_calls_done m) + 4
      | MCollect \<Rightarrow> 3
      | MWrite _ \<Rightarrow> 2
      | MPrint _ \<Rightarrow> 1
      | MReturned \<Rightarrow> 0)"

lemma calls_left_return:
  "i < length rs \<Longrightarrow> \<not> rs ! i \<Longrightarrow> calls_left rs fs = Suc (calls_left (rs[i := True]) fs)"
  using length_filter_update[of i rs Not True] by (simp add: calls_left_def)

lemma calls_left_finish:
  "i < length fs \<Longrightarrow> \<not> fs ! i \<Longrightarrow> calls_left rs fs = Suc (calls_left rs (fs[i := True]))"
  using length_filter_update[of i fs Not True] by (simp add: calls_left_def)

lemma calls_left_done: "agents_done c rs \<Longrightarrow> agents_done c fs \<Longrightarrow> calls_left rs fs = 0"
  by (auto simp: calls_left_def agents_done_def list_all_iff filter_empty_conv)

lemma calls_left_start [simp]: "calls_left (replicate n False) (replicate n False) = 2 * n"
  by (simp add: calls_left_def)

lemma call_step_left:
  assumes "call_step w m e = Next w' m'" and "master_inv c m"
  shows "master_left c m = Suc (master_left c m')"
  using assms
proof (cases e)
  case (MvSetup i res)
  then have i: "i < length (mr_setup m)" "\<not> mr_setup m ! i" and m': "m' = m\<lparr>mr_setup := (mr_setup m)[i := True]\<rparr>"
    using assms(1) by (auto simp: call_step_def split: if_splits option.splits)
  then have "mr_pc m = MSetup"
    using assms(2) by (cases "mr_pc m") (auto simp: master_inv_def dest: agents_done_nth)
  with i m' show ?thesis by (simp add: master_left_def calls_left_return)
next
  case (MvSetupWg i)
  then have i: "i < length (mr_setup m)" "\<not> mr_setup_done m ! i"
    and m': "m' = m\<lparr>mr_setup_done := (mr_setup_done m)[i := True], mr_setup_wg := mr_setup_wg m - 1\<rparr>"
    using assms(1) by (auto simp: call_step_def split: if_splits)
  then have "mr_pc m = MSetup" "i < length (mr_setup_done m)"
    using assms(2) by (cases "mr_pc m"; auto simp: master_inv_def calls_inv_def agents_done_def list_all_length)+
  with i m' show ?thesis by (simp add: master_left_def calls_left_finish)
next
  case (MvRun i res)
  then have i: "i < length (mr_calls m)" "\<not> mr_calls m ! i" and m': "m' = m\<lparr>mr_calls := (mr_calls m)[i := True]\<rparr>"
    using assms(1) by (auto simp: call_step_def split: if_splits)
  then have "mr_pc m = MRunning"
    using assms(2) by (cases "mr_pc m") (auto simp: master_inv_def dest: agents_done_nth)
  with i m' show ?thesis by (simp add: master_left_def calls_left_return)
next
  case (MvRunWg i)
  then have i: "i < length (mr_calls m)" "\<not> mr_calls_done m ! i"
    and m': "m' = m\<lparr>mr_calls_done := (mr_calls_done m)[i := True], mr_wg := mr_wg m - 1\<rparr>"
    using assms(1) by (auto simp: call_step_def split: if_splits)
  then have "mr_pc m = MRunning" "i < length (mr_calls_done m)"
    using assms(2) by (cases "mr_pc m"; auto simp: master_inv_def calls_inv_def agents_done_def list_all_length)+
  with i m' show ?thesis by (simp add: master_left_def calls_left_finish)
qed (auto simp: call_step_def)

lemma main_step_left:
  assumes "main_step env c w m e = Next w' m'" and "master_inv c m"
  shows "master_left c m = Suc (master_left c m')"
  using assms
  by (cases "mr_pc m"; cases e)
    (auto simp: main_step_def master_inv_def master_left_def calls_left_done split: if_splits go.splits
      dest!: calls_inv_waited)

lemma watch_step_left: "watch_step env c w m e = Next w' m' \<Longrightarrow> master_left c m' = master_left c m"
  by (cases "mr_watch m"; cases e) (auto simp: watch_step_def master_left_def split: if_splits go.splits master_pc.splits)

lemma master_step_left:
  assumes "master_step env c w m e = Next w' m'" and "master_inv c m"
  shows "master_left c m = of_bool (own e) + master_left c m'"
  using assms call_step_left[of w m e w' m' c] main_step_left[of env c w m e w' m'] watch_step_left[of env c w m e w' m']
  by (cases e) (simp_all add: master_step_def own_def)

lemma master_run_left:
  assumes "run_events (master_step env c) w m es = Next w' m'" and "master_inv c m"
  shows "master_left c m = length (filter own es) + master_left c m'"
  using assms
proof (induction es arbitrary: w m)
  case (Cons e es)
  then obtain w1 m1 where "master_step env c w m e = Next w1 m1" "run_events (master_step env c) w1 m1 es = Next w' m'"
    by (auto split: step_result.splits)
  with Cons.IH Cons.prems(2) master_step_left master_step_inv show ?case by fastforce
qed simp

lemma calls_progress:
  assumes "calls_inv c rs fs wg" and "wg \<noteq> 0"
  shows "\<exists>i < length rs. \<not> rs ! i \<or> rs ! i \<and> \<not> fs ! i \<and> 0 < wg"
proof -
  have "filter Not fs \<noteq> []" using assms by (auto simp: calls_inv_def)
  then obtain i where "i < length fs" "\<not> fs ! i" by (auto simp: filter_empty_conv in_set_conv_nth)
  moreover have "0 < wg" using assms by (auto simp: calls_inv_def)
  ultimately show ?thesis using assms(1) by (auto simp: calls_inv_def)
qed

lemma master_progress:
  assumes inv: "master_inv c m" and "mr_pc m \<noteq> MReturned" and n: "length answers = length (mc_Agents c)"
    and coll: "mr_pc m = MCollect \<Longrightarrow> \<exists>cs. collectCounters (mr_job m) clock answers = Return cs"
  shows "\<exists>e. own e \<and> answered_by runs answers clock e \<and> (\<exists>w' m'. master_step env c w m e = Next w' m')"
proof (cases "mr_pc m")
  case MStart
  then show ?thesis by (intro exI[of _ "MvStart 0"]) (simp add: own_def answered_by_def master_step_defs)
next
  case MSetup
  show ?thesis
  proof (cases "mr_setup_wg m = 0")
    case True
    with MSetup show ?thesis by (intro exI[of _ MvSetupDone]) (simp add: own_def answered_by_def master_step_defs)
  next
    case False
    with inv MSetup obtain i where i: "i < length (mr_setup m)"
        "\<not> mr_setup m ! i \<or> mr_setup m ! i \<and> \<not> mr_setup_done m ! i \<and> 0 < mr_setup_wg m"
      using calls_progress[of c "mr_setup m" "mr_setup_done m" "mr_setup_wg m"] by (auto simp: master_inv_def)
    then show ?thesis
      by (intro exI[of _ "if mr_setup m ! i then MvSetupWg i else MvSetup i None"])
        (auto simp: own_def answered_by_def master_step_defs)
  qed
next
  case MRunning
  show ?thesis
  proof (cases "mr_wg m = 0")
    case True
    with MRunning show ?thesis by (intro exI[of _ MvRunDone]) (simp add: own_def answered_by_def master_step_defs)
  next
    case False
    with inv MRunning obtain i where i: "i < length (mr_calls m)"
        "\<not> mr_calls m ! i \<or> mr_calls m ! i \<and> \<not> mr_calls_done m ! i \<and> 0 < mr_wg m"
      using calls_progress[of c "mr_calls m" "mr_calls_done m" "mr_wg m"] by (auto simp: master_inv_def)
    then show ?thesis
      by (intro exI[of _ "if mr_calls m ! i then MvRunWg i else MvRun i (runs i)"])
        (auto simp: own_def answered_by_def master_step_defs)
  qed
next
  case MCollect
  with coll n show ?thesis
    by (intro exI[of _ "MvCollect answers clock"]) (auto simp: own_def answered_by_def master_step_defs)
next
  case (MWrite cs)
  then show ?thesis by (intro exI[of _ "MvWrite 0"]) (simp add: own_def answered_by_def master_step_defs)
next
  case (MPrint cs)
  then show ?thesis by (intro exI[of _ MvPrint]) (simp add: own_def answered_by_def master_step_defs)
qed (use assms in simp)

text \<open>
  C24: \<^verbatim>\<open>MasterController.Run\<close> returns. In every interleaving of its main line, the calls to
  its \<open>n\<close> agents and the watcher, it has made at most \<open>4 n + 6\<close> steps of its own, and exactly
  that many when it has returned. Until then it is never stuck: whatever the agents answer to
  \<^verbatim>\<open>Run\<close> and to \<^verbatim>\<open>ListCounters\<close>, errors included, it has a step that goes with
  these answers, provided that no \<^verbatim>\<open>Setup\<close> fails (which ends the process) and that collecting
  the final counters does not panic.
\<close>

theorem master_run_returns:
  assumes "run_events (master_step env c) w (master_start j) es = Next w' m"
    and "length answers = length (mc_Agents c)"
    and "mr_pc m = MCollect \<Longrightarrow> \<exists>cs. collectCounters (mr_job m) clock answers = Return cs"
  shows "length (filter own es) \<le> 4 * length (mc_Agents c) + 6
    \<and> (mr_pc m = MReturned \<longleftrightarrow> length (filter own es) = 4 * length (mc_Agents c) + 6)
    \<and> (mr_pc m \<noteq> MReturned \<longrightarrow>
         (\<exists>e. own e \<and> answered_by runs answers clock e \<and> (\<exists>w'' m'. master_step env c w' m e = Next w'' m')))"
proof -
  have "master_left c (master_start j) = length (filter own es) + master_left c m"
    using assms(1) master_start_inv by (rule master_run_left)
  then have "4 * length (mc_Agents c) + 6 = length (filter own es) + master_left c m"
    by (simp add: master_left_def master_start_def)
  moreover have "mr_pc m = MReturned \<longleftrightarrow> master_left c m = 0" by (cases "mr_pc m") (simp_all add: master_left_def)
  ultimately show ?thesis
    using master_progress[OF master_run_inv[OF assms(1) master_start_inv] _ assms(2,3)] by auto
qed

definition demo_master_failed :: master_run where
  "demo_master_failed = \<lparr>mr_job = demo_master_job, mr_pc = MRunning, mr_setup = [True], mr_setup_done = [True], mr_setup_wg = 0,
     mr_calls = [True], mr_calls_done = [False], mr_wg = 1, mr_stop = False, mr_watch = WatchSelect\<rparr>"

lemma demo_master_failed_run:
  "run_events (master_step env demo_master) w (master_start demo_master_job)
     (demo_master_prefix @ [MvRun 0 (Some ''connection is shut down'')]) = Next w demo_master_failed"
  by (simp add: demo_master_defs demo_master_failed_def)

theorem master_run_returns_witness:
  "\<exists>e. own e \<and> (\<exists>w' m'. master_step demo_snapshot_env demo_master demo_world demo_master_failed e = Next w' m')"
proof -
  have "length [Inl ''timeout'' :: goerror + counters] = length (mc_Agents demo_master)" by (simp add: demo_master_def)
  moreover have "mr_pc demo_master_failed = MRunning" by (simp add: demo_master_failed_def)
  ultimately show ?thesis
    using master_run_returns[OF demo_master_failed_run, of "[Inl ''timeout'']"] by fastforce
qed

end
