(* ===== verification/Service.thy ===== *)
theory Service
  imports Master_Controller
begin

text \<open>
  \<^verbatim>\<open>service/controllers.go\<close>: the HTTP front end of the master. Its state is the struct
  \<^verbatim>\<open>SigbenchMux\<close> together with the world of the snapshot writers; every critical section of
  its lock is one step. A request for a new job is a thread of its own, and so is the goroutine
  that runs the job; they interleave with each other and with the short handlers, which are one
  step each. The parsing of requests, \<^verbatim>\<open>json.Unmarshal\<close>, the dialling of agents and the
  websocket are events with their answers; HTML templates are not modelled.
\<close>

subsection \<open>State\<close>

record service_config =
  OutDir :: string
  InfluxServerURL :: string
  InfluxAuthToken :: string
  InfluxOrg :: string
  InfluxBucket :: string

record sigbench_mux =
  sm_config :: service_config
  sm_master :: "master_controller option"
  sm_mem :: nat
  sm_reg :: "string \<rightharpoonup> gotime"
  sm_world :: world
  sm_next :: nat

text \<open>\<open>sm_next\<close> is the next unused address of a memory writer.\<close>

definition NewServiceMux :: "(string \<Rightarrow> goerror option) \<Rightarrow> service_config \<Rightarrow> world \<Rightarrow> sigbench_mux go" where
  "NewServiceMux mkdirAll config w =
     (case mkdirAll (OutDir config) of
        Some err \<Rightarrow> Fatal err
      | None \<Rightarrow> Return \<lparr>sm_config = config, sm_master = None, sm_mem = 0, sm_reg = Map.empty,
                   sm_world = NewMemorySnapshotWriter 0 w, sm_next = 1\<rparr>)"

datatype handler = JobCreate | JobStatus | AgentRegister | MasterExit | Index

definition service_route :: "string \<Rightarrow> handler" where
  "service_route path =
     (if path = ''/job/create'' then JobCreate
      else if path = ''/job/status'' then JobStatus
      else if path = ''/agent/register'' then AgentRegister
      else if path = ''/master/exit'' then MasterExit
      else Index)"

subsection \<open>The short handlers\<close>

definition comma :: char where
  "comma = CHR '',''"

text \<open>What the index page shows; \<open>order\<close> is the order in which Go ranges over the registered agents.\<close>

definition HandleIndex :: "string list \<Rightarrow> nat \<times> string" where
  "HandleIndex order = (let agents = sort order in (length agents, join_with comma agents))"

text \<open>The form is the answer of \<^verbatim>\<open>ParseForm\<close>; \<^verbatim>\<open>Form.Get\<close> of a missing key is the empty string.\<close>

definition HandleAgentRegister :: "gotime \<Rightarrow> goerror + params \<Rightarrow> sigbench_mux \<Rightarrow> sigbench_mux \<times> nat" where
  "HandleAgentRegister now form m =
     (case form of
        Inl err \<Rightarrow> (m, 400)
      | Inr values \<Rightarrow>
          (let agentAddr = str_get values ''agentAddress'' in
           (if agentAddr \<noteq> '''' then m\<lparr>sm_reg := (sm_reg m)(agentAddr \<mapsto> now)\<rparr> else m, 200)))"

definition expired :: "gotime \<Rightarrow> gotime \<Rightarrow> bool" where
  "expired now ts \<longleftrightarrow> word_of_int (15 * second_ns) <s time_sub now ts"

definition CheckExpiredAgents :: "gotime \<Rightarrow> sigbench_mux \<Rightarrow> sigbench_mux" where
  "CheckExpiredAgents now m =
     m\<lparr>sm_reg := (\<lambda>addr. case sm_reg m addr of
                     None \<Rightarrow> None
                   | Some ts \<Rightarrow> if expired now ts then None else Some ts)\<rparr>"

text \<open>The answer and whether the process was told to exit in a second.\<close>

definition HandleMasterExit :: "string \<Rightarrow> nat \<times> bool" where
  "HandleMasterExit reqMethod = (if reqMethod \<noteq> ''POST'' then (400, False) else (200, True))"

subsection \<open>Creating a job\<close>

datatype create_pc =
    JParse
  | JCheck
  | JCreate
  | JRegister "string list"
  | JResponded nat string

record create_thread =
  jc_pc :: create_pc
  jc_agents :: "string list"
  jc_job :: job

definition empty_job :: job where
  "empty_job = \<lparr>job_Name = '''', StartTime = 0, Phases = [], SessionNames = [], SessionPercentages = [], SessionParams = Map.empty\<rparr>"

definition create_start :: create_thread where
  "create_start = \<lparr>jc_pc = JParse, jc_agents = [], jc_job = empty_job\<rparr>"

text \<open>Of a duration's parse error only the reason is kept.\<close>

definition dur_error_text :: "dur_error \<Rightarrow> goerror" where
  "dur_error_text e =
     (case e of
        InvalidDuration \<Rightarrow> ''time: invalid duration''
      | MissingUnit \<Rightarrow> ''time: missing unit in duration''
      | UnknownUnit u \<Rightarrow> ''time: unknown unit '' @ u)"

text \<open>
  The checks of the request: \<open>form\<close> is the answer of \<^verbatim>\<open>ParseMultipartForm\<close> with what
  \<^verbatim>\<open>Form.Get\<close> returns, \<open>decode\<close> is \<^verbatim>\<open>json.Unmarshal\<close>. An error is the body of
  a response with status 400.
\<close>

definition check_request ::
  "(string \<Rightarrow> goerror + job) \<Rightarrow> goerror + (string \<Rightarrow> string) \<Rightarrow> goerror + (string list \<times> job)" where
  "check_request decode form =
     (case form of
        Inl err \<Rightarrow> Inl err
      | Inr get \<Rightarrow>
          (let agents = split_on comma (get ''agents'') in
           if agents = [] then Inl ''No agents specified''
           else case decode (get ''config'') of
             Inl err \<Rightarrow> Inl (''Fail to decode config: '' @ err)
           | Inr j \<Rightarrow>
               (case job_validate j of
                  Some err \<Rightarrow> Inl (''Fail to decode config: '' @ dur_error_text err)
                | None \<Rightarrow>
                    (let j' = j\<lparr>job_Name := get ''name''\<rparr> in
                     if job_Name j' = '''' then Inl ''Empty job name'' else Inr (agents, j')))))"

text \<open>The writers of a job: the memory writer, and InfluxDB when it is configured.\<close>

definition snapshot_writers :: "service_config \<Rightarrow> nat \<Rightarrow> job \<Rightarrow> snapshot_writer list" where
  "snapshot_writers cfg a j =
     MemoryWriter a #
     (if InfluxServerURL cfg \<noteq> ''''
      then [NewInfluxDBSnapshotWriter (InfluxServerURL cfg) (InfluxAuthToken cfg) (InfluxOrg cfg) (InfluxBucket cfg)
              [''job'' \<mapsto> job_Name j]]
      else [])"

definition create_job :: "job \<Rightarrow> sigbench_mux \<Rightarrow> sigbench_mux" where
  "create_job j m =
     m\<lparr>sm_mem := sm_next m, sm_next := Suc (sm_next m), sm_world := NewMemorySnapshotWriter (sm_next m) (sm_world m),
       sm_master := Some \<lparr>mc_Agents = [],
         mc_SnapshotWriter = NewAggregatedSnapshotWriter (snapshot_writers (sm_config m) (sm_next m) j)\<rparr>\<rparr>"

datatype create_event =
    CvParse "string \<Rightarrow> goerror + job" "goerror + (string \<Rightarrow> string)"
  | CvGo
  | CvDial "goerror + rpc_client"

definition create_step ::
  "sigbench_mux \<Rightarrow> create_thread \<Rightarrow> create_event \<Rightarrow> (sigbench_mux, create_thread) step_result" where
  "create_step m t e =
     (case (jc_pc t, e) of
        (JParse, CvParse decode form) \<Rightarrow>
          (case check_request decode form of
             Inl err \<Rightarrow> Next m (t\<lparr>jc_pc := JResponded 400 err\<rparr>)
           | Inr (agents, j) \<Rightarrow> Next m (t\<lparr>jc_pc := JCheck, jc_agents := agents, jc_job := j\<rparr>))
      | (JCheck, CvGo) \<Rightarrow>
          if sm_master m \<noteq> None then Next m (t\<lparr>jc_pc := JResponded 400 ''A job is still running''\<rparr>)
          else Next m (t\<lparr>jc_pc := JCreate\<rparr>)
      | (JCreate, CvGo) \<Rightarrow>
          if sm_master m \<noteq> None then Next m (t\<lparr>jc_pc := JResponded 400 ''A job is still running''\<rparr>)
          else Next (create_job (jc_job t) m) (t\<lparr>jc_pc := JRegister (jc_agents t)\<rparr>)
      | (JRegister (agent # rest), CvDial res) \<Rightarrow>
          (case sm_master m of
             None \<Rightarrow> Crash NilDereference
           | Some c \<Rightarrow>
               (case RegisterAgent (\<lambda>_. res) agent c of
                  (c', None) \<Rightarrow> Next (m\<lparr>sm_master := Some c'\<rparr>) (t\<lparr>jc_pc := JRegister rest\<rparr>)
                | (c', Some err) \<Rightarrow> Next m (t\<lparr>jc_pc := JResponded 400 (''Fail to register agent: '' @ err)\<rparr>)))
      | _ \<Rightarrow> Disabled)"

subsection \<open>Running a job\<close>

datatype job_pc = GStart | GRun | GClear | GEnded

record job_thread =
  jt_pc :: job_pc
  jt_job :: job
  jt_ctrl :: master_controller
  jt_run :: master_run

definition nil_controller :: master_controller where
  "nil_controller = \<lparr>mc_Agents = [], mc_SnapshotWriter = AggregatedWriter []\<rparr>"

definition job_start :: "job \<Rightarrow> job_thread" where
  "job_start j = \<lparr>jt_pc = GStart, jt_job = j, jt_ctrl = nil_controller, jt_run = master_start j\<rparr>"

text \<open>
  The goroutine reads the controller when it calls \<^verbatim>\<open>Run\<close>. The watcher that \<^verbatim>\<open>Run\<close>
  starts may go on after \<^verbatim>\<open>Run\<close> has returned, so its steps stay possible.
\<close>

datatype job_event = GvGo | GvMaster master_event

definition job_step ::
  "snapshot_env \<Rightarrow> sigbench_mux \<Rightarrow> job_thread \<Rightarrow> job_event \<Rightarrow> (sigbench_mux, job_thread) step_result" where
  "job_step env m t e =
     (case e of
        GvGo \<Rightarrow>
          (case jt_pc t of
             GStart \<Rightarrow>
               (case sm_master m of
                  None \<Rightarrow> Crash NilDereference
                | Some c \<Rightarrow> Next m (t\<lparr>jt_pc := GRun, jt_ctrl := c\<rparr>))
           | GRun \<Rightarrow> if mr_pc (jt_run t) = MReturned then Next m (t\<lparr>jt_pc := GClear\<rparr>) else Disabled
           | GClear \<Rightarrow> Next (m\<lparr>sm_master := None\<rparr>) (t\<lparr>jt_pc := GEnded\<rparr>)
           | GEnded \<Rightarrow> Disabled)
      | GvMaster me \<Rightarrow>
          if jt_pc t = GStart then Disabled
          else (case master_step env (jt_ctrl t) (sm_world m) (jt_run t) me of
                  Next w run \<Rightarrow> Next (m\<lparr>sm_world := w\<rparr>) (t\<lparr>jt_run := run\<rparr>)
                | Crash p \<Rightarrow> Crash p
                | Disabled \<Rightarrow> Disabled))"

subsection \<open>The status connection\<close>

datatype status_pc = StTick | StSend bool nat | StDone

record status_thread =
  st_pc :: status_pc
  st_sent :: "string list"

definition status_start :: status_thread where
  "status_start = \<lparr>st_pc = StTick, st_sent = []\<rparr>"

text \<open>An event carries what \<^verbatim>\<open>json.Marshal\<close> does with a snapshot and the answer of \<^verbatim>\<open>WriteMessage\<close>.\<close>

datatype status_event = SvTick | SvSend "memory_writer \<Rightarrow> goerror + string" "goerror option"

definition status_step ::
  "sigbench_mux \<Rightarrow> status_thread \<Rightarrow> status_event \<Rightarrow> (sigbench_mux, status_thread) step_result" where
  "status_step m t e =
     (case (st_pc t, e) of
        (StTick, SvTick) \<Rightarrow> Next m (t\<lparr>st_pc := StSend (sm_master m = None) (sm_mem m)\<rparr>)
      | (StSend lastFlush sw, SvSend marshal res) \<Rightarrow>
          (case memory_Dump marshal sw (sm_world m) of
             Panic p \<Rightarrow> Crash p
           | Fatal msg \<Rightarrow> Crash (LogFatal msg)
           | Return (Inl err) \<Rightarrow> Next m (t\<lparr>st_pc := StDone\<rparr>)
           | Return (Inr payload) \<Rightarrow>
               (case res of
                  Some err \<Rightarrow> Next m (t\<lparr>st_pc := StDone\<rparr>)
                | None \<Rightarrow> Next m (t\<lparr>st_sent := st_sent t @ [payload],
                                    st_pc := if lastFlush then StDone else StTick\<rparr>)))
      | _ \<Rightarrow> Disabled)"

subsection \<open>The service\<close>

record service_threads =
  th_creates :: "create_thread list"
  th_jobs :: "job_thread list"
  th_status :: "status_thread list"

datatype service_event =
    EvCreate
  | EvStatus "goerror option"
  | EvCreateStep nat create_event
  | EvSpawn nat
  | EvJobStep nat job_event
  | EvStatusStep nat status_event
  | EvRegister gotime "goerror + params"
  | EvExpire gotime

definition service_start :: service_threads where
  "service_start = \<lparr>th_creates = [], th_jobs = [], th_status = []\<rparr>"

text \<open>
  A new request starts a thread, one for a status connection only when the upgrade to a websocket
  succeeds (otherwise it is answered with 500); \<open>EvSpawn\<close> is the end of \<^verbatim>\<open>HandleJobCreate\<close>, which starts
  the goroutine of the job and answers 201.
\<close>

definition service_step ::
  "snapshot_env \<Rightarrow> sigbench_mux \<Rightarrow> service_threads \<Rightarrow> service_event \<Rightarrow> (sigbench_mux, service_threads) step_result" where
  "service_step env m ths e =
     (case e of
        EvCreate \<Rightarrow> Next m (ths\<lparr>th_creates := th_creates ths @ [create_start]\<rparr>)
      | EvStatus upgrade \<Rightarrow>
          (case upgrade of
             Some err \<Rightarrow> Next m ths
           | None \<Rightarrow> Next m (ths\<lparr>th_status := th_status ths @ [status_start]\<rparr>))
      | EvCreateStep i ce \<Rightarrow>
          if i < length (th_creates ths)
          then (case create_step m (th_creates ths ! i) ce of
                  Next m' t \<Rightarrow> Next m' (ths\<lparr>th_creates := (th_creates ths)[i := t]\<rparr>)
                | Crash p \<Rightarrow> Crash p
                | Disabled \<Rightarrow> Disabled)
          else Disabled
      | EvSpawn i \<Rightarrow>
          if i < length (th_creates ths) \<and> jc_pc (th_creates ths ! i) = JRegister []
          then Next m (ths\<lparr>th_creates := (th_creates ths)[i := (th_creates ths ! i)\<lparr>jc_pc := JResponded 201 ''''\<rparr>],
                           th_jobs := th_jobs ths @ [job_start (jc_job (th_creates ths ! i))]\<rparr>)
          else Disabled
      | EvJobStep i je \<Rightarrow>
          if i < length (th_jobs ths)
          then (case job_step env m (th_jobs ths ! i) je of
                  Next m' t \<Rightarrow> Next m' (ths\<lparr>th_jobs := (th_jobs ths)[i := t]\<rparr>)
                | Crash p \<Rightarrow> Crash p
                | Disabled \<Rightarrow> Disabled)
          else Disabled
      | EvStatusStep i se \<Rightarrow>
          if i < length (th_status ths)
          then (case status_step m (th_status ths ! i) se of
                  Next m' t \<Rightarrow> Next m' (ths\<lparr>th_status := (th_status ths)[i := t]\<rparr>)
                | Crash p \<Rightarrow> Crash p
                | Disabled \<Rightarrow> Disabled)
          else Disabled
      | EvRegister now form \<Rightarrow> Next (fst (HandleAgentRegister now form m)) ths
      | EvExpire now \<Rightarrow> Next (CheckExpiredAgents now m) ths)"

subsection \<open>One job at a time\<close>

text \<open>
  The threads that own the controller: a request that registers agents, and the goroutine of a
  job until it has cleared the controller.
\<close>

definition registering :: "create_thread \<Rightarrow> bool" where
  "registering t \<longleftrightarrow> (case jc_pc t of JRegister _ \<Rightarrow> True | _ \<Rightarrow> False)"

definition running :: "job_thread \<Rightarrow> bool" where
  "running t \<longleftrightarrow> jt_pc t \<noteq> GEnded"

definition owners :: "service_threads \<Rightarrow> nat" where
  "owners ths = length (filter registering (th_creates ths)) + length (filter running (th_jobs ths))"

definition owner_inv :: "sigbench_mux \<Rightarrow> service_threads \<Rightarrow> bool" where
  "owner_inv m ths \<longleftrightarrow> owners ths \<le> 1 \<and> (sm_master m = None \<longrightarrow> owners ths = 0)"

lemma create_step_owner:
  assumes "create_step m t e = Next m' t'"
  shows "(sm_master m' = None) = (sm_master m = None) \<and> (registering t' \<longrightarrow> registering t)
    \<or> sm_master m = None \<and> \<not> registering t \<and> sm_master m' \<noteq> None"
  using assms
  by (cases "jc_pc t"; cases e)
    (auto simp: create_step_def registering_def create_job_def split: sum.splits if_splits list.splits option.splits prod.splits)

lemma job_step_owner:
  assumes "job_step env m t e = Next m' t'"
  shows "sm_master m' = sm_master m \<and> running t' = running t \<or> running t \<and> \<not> running t' \<and> sm_master m' = None"
  using assms
  by (cases "jt_pc t"; cases e)
    (auto simp: job_step_def running_def split: if_splits option.splits step_result.splits)

lemma status_step_mux: "status_step m t e = Next m' t' \<Longrightarrow> m' = m"
  by (cases "st_pc t"; cases e) (auto simp: status_step_def split: go.splits sum.splits option.splits)

lemma owners_creates_update:
  "i < length (th_creates ths) \<Longrightarrow>
     owners (ths\<lparr>th_creates := (th_creates ths)[i := t]\<rparr>) + of_bool (registering (th_creates ths ! i)) =
     owners ths + of_bool (registering t)"
  using length_filter_update[of i "th_creates ths" registering t] by (simp add: owners_def)

lemma owners_jobs_update:
  "i < length (th_jobs ths) \<Longrightarrow>
     owners (ths\<lparr>th_jobs := (th_jobs ths)[i := t]\<rparr>) + of_bool (running (th_jobs ths ! i)) =
     owners ths + of_bool (running t)"
  using length_filter_update[of i "th_jobs ths" running t] by (simp add: owners_def)

lemma owners_spawn:
  assumes "i < length (th_creates ths)" and "jc_pc (th_creates ths ! i) = JRegister []"
  shows "owners (ths\<lparr>th_creates := (th_creates ths)[i := (th_creates ths ! i)\<lparr>jc_pc := JResponded 201 ''''\<rparr>],
           th_jobs := th_jobs ths @ [job_start j]\<rparr>) = owners ths"
  using length_filter_update[OF assms(1), of registering "(th_creates ths ! i)\<lparr>jc_pc := JResponded 201 ''''\<rparr>"] assms(2)
  by (simp add: owners_def registering_def running_def job_start_def)

lemma service_step_cases:
  assumes "service_step env m ths e = Next m' ths'"
  obtains (create) i ce t where "i < length (th_creates ths)" "create_step m (th_creates ths ! i) ce = Next m' t"
      "ths' = ths\<lparr>th_creates := (th_creates ths)[i := t]\<rparr>"
  | (spawn) i where "i < length (th_creates ths)" "jc_pc (th_creates ths ! i) = JRegister []" "m' = m"
      "ths' = ths\<lparr>th_creates := (th_creates ths)[i := (th_creates ths ! i)\<lparr>jc_pc := JResponded 201 ''''\<rparr>],
         th_jobs := th_jobs ths @ [job_start (jc_job (th_creates ths ! i))]\<rparr>"
  | (job) i je t where "i < length (th_jobs ths)" "job_step env m (th_jobs ths ! i) je = Next m' t"
      "ths' = ths\<lparr>th_jobs := (th_jobs ths)[i := t]\<rparr>"
  | (status) i se t where "i < length (th_status ths)" "status_step m (th_status ths ! i) se = Next m' t"
      "ths' = ths\<lparr>th_status := (th_status ths)[i := t]\<rparr>" "m' = m"
  | (request) "ths' = ths\<lparr>th_creates := th_creates ths @ [create_start]\<rparr>" "m' = m"
  | (connect) "ths' = ths\<lparr>th_status := th_status ths @ [status_start]\<rparr>" "m' = m"
  | (registry) reg where "ths' = ths" "m' = m\<lparr>sm_reg := reg\<rparr>"
proof (cases e)
  case EvCreate
  with assms request show ?thesis by (simp add: service_step_def)
next
  case (EvStatus upgrade)
  with assms registry[of "sm_reg m"] connect show ?thesis by (cases upgrade) (simp_all add: service_step_def)
next
  case (EvCreateStep i ce)
  with assms obtain t where "i < length (th_creates ths)" "create_step m (th_creates ths ! i) ce = Next m' t"
    "ths' = ths\<lparr>th_creates := (th_creates ths)[i := t]\<rparr>"
    by (auto simp: service_step_def split: if_splits step_result.splits)
  then show ?thesis by (rule create)
next
  case (EvSpawn i)
  with assms show ?thesis by (intro spawn[of i]) (auto simp: service_step_def split: if_splits)
next
  case (EvJobStep i je)
  with assms obtain t where "i < length (th_jobs ths)" "job_step env m (th_jobs ths ! i) je = Next m' t"
    "ths' = ths\<lparr>th_jobs := (th_jobs ths)[i := t]\<rparr>"
    by (auto simp: service_step_def split: if_splits step_result.splits)
  then show ?thesis by (rule job)
next
  case (EvStatusStep i se)
  with assms obtain t where "i < length (th_status ths)" "status_step m (th_status ths ! i) se = Next m' t"
    "ths' = ths\<lparr>th_status := (th_status ths)[i := t]\<rparr>"
    by (auto simp: service_step_def split: if_splits step_result.splits)
  with status status_step_mux show ?thesis by blast
next
  case (EvRegister now form)
  with assms show ?thesis
    by (intro registry[of "sm_reg m'"]) (auto simp: service_step_def HandleAgentRegister_def Let_def split: sum.splits)
next
  case (EvExpire now)
  with assms show ?thesis by (intro registry[of "sm_reg m'"]) (auto simp: service_step_def CheckExpiredAgents_def)
qed

lemma service_step_owner:
  assumes "service_step env m ths e = Next m' ths'" and "owner_inv m ths"
  shows "owner_inv m' ths'"
  using assms(1)
proof (cases rule: service_step_cases)
  case (create i ce t)
  from create_step_owner[OF create(2)] owners_creates_update[OF create(1), of t] assms(2) create(3)
  show ?thesis by (auto simp: owner_inv_def of_bool_def split: if_splits)
next
  case (spawn i)
  with owners_spawn[OF spawn(1,2)] assms(2) show ?thesis by (simp add: owner_inv_def)
next
  case (job i je t)
  from job_step_owner[OF job(2)] owners_jobs_update[OF job(1), of t] assms(2) job(3)
  show ?thesis by (auto simp: owner_inv_def of_bool_def split: if_splits)
qed (use assms(2) in \<open>simp_all add: owner_inv_def owners_def registering_def create_start_def\<close>)

subsection \<open>No nil dereference\<close>

definition reads_below :: "nat \<Rightarrow> status_thread \<Rightarrow> bool" where
  "reads_below n t \<longleftrightarrow> (case st_pc t of StSend _ a \<Rightarrow> a < n | _ \<Rightarrow> True)"

lemma reads_below_mono: "reads_below n t \<Longrightarrow> n \<le> k \<Longrightarrow> reads_below k t"
  by (auto simp: reads_below_def split: status_pc.splits)

definition mem_inv :: "sigbench_mux \<Rightarrow> service_threads \<Rightarrow> bool" where
  "mem_inv m ths \<longleftrightarrow> sm_mem m < sm_next m \<and> (\<forall>a < sm_next m. w_mem (sm_world m) a \<noteq> None)
     \<and> (\<forall>t \<in> set (th_status ths). reads_below (sm_next m) t)"

lemma WriteCounters_mem:
  "w_mem w a \<noteq> None \<Longrightarrow> w_mem (fst (WriteCounters env x now cs w)) a \<noteq> None"
  using WriteCounters_change(1)[of env x now cs w, OF prod.collapse[symmetric]]
  by (auto simp: snapshot_change_def) (metis option.distinct(1))

lemma master_step_mem:
  assumes "master_step env c w r e = Next w' r'" and "w_mem w a \<noteq> None"
  shows "w_mem w' a \<noteq> None"
proof (cases "writes e")
  case False
  with master_step_world[OF assms(1)] assms(2) show ?thesis by simp
next
  case True
  then obtain now cs where "w' = fst (WriteCounters env (mc_SnapshotWriter c) now cs w)"
    using assms(1)
    by (cases "mr_pc r"; cases "mr_watch r"; cases e) (auto simp: master_step_defs writes_def)
  with WriteCounters_mem[OF assms(2)] show ?thesis by simp
qed

lemma create_step_mem:
  assumes "create_step m t e = Next m' t'" and "mem_inv m ths"
  shows "mem_inv m' ths" "sm_next m \<le> sm_next m'"
proof -
  have "sm_mem m' = sm_mem m \<and> sm_next m' = sm_next m \<and> sm_world m' = sm_world m \<or> m' = create_job (jc_job t) m"
    using assms(1) by (cases "jc_pc t"; cases e)
      (auto simp: create_step_def split: sum.splits if_splits list.splits option.splits prod.splits)
  then show "mem_inv m' ths" "sm_next m \<le> sm_next m'"
    using assms(2)
    by (auto simp: mem_inv_def create_job_def NewMemorySnapshotWriter_def less_Suc_eq intro: reads_below_mono)
qed

lemma job_step_mem:
  assumes "job_step env m t e = Next m' t'" and "mem_inv m ths"
  shows "mem_inv m' ths"
proof -
  have "sm_mem m' = sm_mem m \<and> sm_next m' = sm_next m \<and>
      (sm_world m' = sm_world m \<or> (\<exists>r r' me. master_step env (jt_ctrl t) (sm_world m) r me = Next (sm_world m') r'))"
    using assms(1) by (cases "jt_pc t"; cases e)
      (auto simp: job_step_def split: if_splits option.splits step_result.splits)
  with assms(2) master_step_mem show ?thesis by (auto simp: mem_inv_def)
qed

lemma status_step_mem:
  assumes "status_step m t e = Next m' t'" and "mem_inv m ths" and "t \<in> set (th_status ths)"
  shows "reads_below (sm_next m) t'"
  using assms by (cases "st_pc t"; cases e)
    (auto simp: status_step_def mem_inv_def reads_below_def split: go.splits sum.splits option.splits)

lemma service_step_mem:
  assumes "service_step env m ths e = Next m' ths'" and "mem_inv m ths"
  shows "mem_inv m' ths'"
  using assms(1)
proof (cases rule: service_step_cases)
  case (create i ce t)
  with create_step_mem(1)[OF create(2) assms(2)] show ?thesis by (simp add: mem_inv_def)
next
  case (job i je t)
  with job_step_mem[OF job(2) assms(2)] show ?thesis by (simp add: mem_inv_def)
next
  case (status i se t)
  with status_step_mem[OF status(2) assms(2)] assms(2) set_update_subset_insert[of "th_status ths" i t]
  show ?thesis by (auto simp: mem_inv_def)
qed (use assms(2) in \<open>auto simp: mem_inv_def reads_below_def status_start_def\<close>)

lemma service_run_inv:
  assumes "run_events (service_step env) m ths es = Next m' ths'" and "owner_inv m ths" and "mem_inv m ths"
  shows "owner_inv m' ths' \<and> mem_inv m' ths'"
  using assms
proof (induction es arbitrary: m ths)
  case (Cons e es)
  then obtain m1 ths1 where s: "service_step env m ths e = Next m1 ths1"
    "run_events (service_step env) m1 ths1 es = Next m' ths'"
    by (auto split: step_result.splits)
  from Cons.IH[OF s(2)] service_step_owner[OF s(1)] service_step_mem[OF s(1)] Cons.prems(2,3) show ?case by blast
qed simp

lemma service_start_inv:
  "NewServiceMux mkdirAll config w = Return m \<Longrightarrow> owner_inv m service_start \<and> mem_inv m service_start"
  by (auto simp: NewServiceMux_def service_start_def owner_inv_def owners_def mem_inv_def
      NewMemorySnapshotWriter_def split: option.splits)

lemma aggregate_panic:
  "aggregate_sessions j clock ns cs = Panic p \<Longrightarrow> p = DivideByZero"
proof (induction j clock ns cs rule: aggregate_sessions.induct)
  case (2 j clock n ns cs)
  then show ?case
    by (cases "obj_AggregateCounters (SessionMap n) j (clock (length ns)) cs")
      (auto simp: obj_AggregateCounters_def http_AggregateCounters_def go_div_def Let_def
        split: option.splits session_obj.splits if_splits)
qed simp

lemma master_step_no_nil: "master_step env c w r e \<noteq> Crash NilDereference"
  by (cases "mr_pc r"; cases "mr_watch r"; cases e)
    (auto simp: master_step_defs collectCounters_def split: if_splits option.splits go.splits dest: aggregate_panic)

lemma service_no_nil:
  assumes "owner_inv m ths" and "mem_inv m ths"
  shows "service_step env m ths e \<noteq> Crash NilDereference"
proof
  assume crash: "service_step env m ths e = Crash NilDereference"
  consider (create) i ce where "i < length (th_creates ths)" "create_step m (th_creates ths ! i) ce = Crash NilDereference"
    | (job) i je where "i < length (th_jobs ths)" "job_step env m (th_jobs ths ! i) je = Crash NilDereference"
    | (status) i se where "i < length (th_status ths)" "status_step m (th_status ths ! i) se = Crash NilDereference"
    using crash by (cases e) (auto simp: service_step_def split: if_splits step_result.splits option.splits)
  then show False
  proof cases
    case create
    then have "registering (th_creates ths ! i)" "sm_master m = None"
      by (cases "jc_pc (th_creates ths ! i)"; cases ce;
          auto simp: create_step_def registering_def split: sum.splits if_splits list.splits option.splits prod.splits)+
    moreover have "0 < length (filter registering (th_creates ths))"
      using calculation(1) create(1) by (auto simp: filter_empty_conv)
    ultimately show False using assms(1) by (simp add: owner_inv_def owners_def)
  next
    case job
    then have "running (th_jobs ths ! i)" "sm_master m = None"
      using master_step_no_nil
      by (cases "jt_pc (th_jobs ths ! i)"; cases je;
          auto simp: job_step_def running_def split: if_splits option.splits step_result.splits)+
    moreover have "0 < length (filter running (th_jobs ths))"
      using calculation(1) job(1) by (auto simp: filter_empty_conv)
    ultimately show False using assms(1) by (simp add: owner_inv_def owners_def)
  next
    case status
    then have "th_status ths ! i \<in> set (th_status ths)" by simp
    with status(2) assms(2) show False
      by (cases "st_pc (th_status ths ! i)"; cases se)
        (auto simp: status_step_def memory_Dump_def mem_inv_def reads_below_def split: option.splits sum.splits dest!: bspec)
  qed
qed

subsection \<open>A controller that nobody owns\<close>

definition blocked :: "sigbench_mux \<Rightarrow> service_threads \<Rightarrow> bool" where
  "blocked m ths \<longleftrightarrow> sm_master m \<noteq> None \<and> owners ths = 0"

lemma no_owner:
  assumes "owners ths = 0"
  shows "i < length (th_creates ths) \<Longrightarrow> \<not> registering (th_creates ths ! i)"
    "i < length (th_jobs ths) \<Longrightarrow> \<not> running (th_jobs ths ! i)"
  using assms by (auto simp: owners_def filter_empty_conv)

lemma service_step_blocked:
  assumes "service_step env m ths e = Next m' ths'" and "blocked m ths"
  shows "blocked m' ths' \<and> length (th_jobs ths') = length (th_jobs ths)"
  using assms(1)
proof (cases rule: service_step_cases)
  case (create i ce t)
  with create_step_owner[OF create(2)] owners_creates_update[OF create(1), of t] no_owner(1)[OF _ create(1)] assms(2)
  show ?thesis by (auto simp: blocked_def)
next
  case (spawn i)
  with no_owner(1)[OF _ spawn(1)] assms(2) show ?thesis by (simp add: blocked_def registering_def)
next
  case (job i je t)
  with job_step_owner[OF job(2)] owners_jobs_update[OF job(1), of t] no_owner(2)[OF _ job(1)] assms(2)
  show ?thesis by (auto simp: blocked_def)
qed (use assms(2) in \<open>simp_all add: blocked_def owners_def registering_def create_start_def\<close>)

lemma service_run_blocked:
  assumes "run_events (service_step env) m ths es = Next m' ths'" and "blocked m ths"
  shows "blocked m' ths' \<and> length (th_jobs ths') = length (th_jobs ths)"
  using assms
proof (induction es arbitrary: m ths)
  case (Cons e es)
  then obtain m1 ths1 where s: "service_step env m ths e = Next m1 ths1"
    "run_events (service_step env) m1 ths1 es = Next m' ths'"
    by (auto split: step_result.splits)
  from Cons.IH[OF s(2)] service_step_blocked[OF s(1) Cons.prems(2)] show ?case by simp
qed simp

subsection \<open>Properties\<close>

text \<open>
  C11: one job at a time. However requests, jobs, status connections and registrations
  interleave, at most one thread of the service owns the controller (a request that is
  registering agents or the goroutine of a job that has not cleared it); while one does, the
  controller is set, so no goroutine ever dereferences a nil controller or a missing memory
  writer.
\<close>

theorem service_one_job:
  assumes "NewServiceMux mkdirAll config w = Return m0"
    and "run_events (service_step env) m0 service_start es = Next m ths"
  shows "owners ths \<le> 1 \<and> (0 < owners ths \<longrightarrow> sm_master m \<noteq> None)
    \<and> service_step env m ths e \<noteq> Crash NilDereference"
proof -
  have inv: "owner_inv m ths" "mem_inv m ths"
    using service_run_inv[OF assms(2)] service_start_inv[OF assms(1)] by auto
  with service_no_nil[OF inv, of env e] show ?thesis by (auto simp: owner_inv_def)
qed

definition demo_config :: service_config where
  "demo_config = \<lparr>OutDir = ''o'', InfluxServerURL = '''', InfluxAuthToken = '''', InfluxOrg = '''', InfluxBucket = ''''\<rparr>"

definition demo_mux :: sigbench_mux where
  "demo_mux = \<lparr>sm_config = demo_config, sm_master = None, sm_mem = 0, sm_reg = Map.empty,
     sm_world = NewMemorySnapshotWriter 0 demo_world, sm_next = 1\<rparr>"

lemma demo_mux_new: "NewServiceMux (\<lambda>_. None) demo_config demo_world = Return demo_mux"
  by (simp add: NewServiceMux_def demo_mux_def)

definition demo_form :: "string \<Rightarrow> string" where
  "demo_form k = (if k = ''agents'' then ''a:1'' else if k = ''name'' then ''j'' else '''')"

definition demo_decode :: "string \<Rightarrow> goerror + job" where
  "demo_decode _ = Inr demo_master_job"

definition demo_request :: "service_event list" where
  "demo_request = [EvCreate, EvCreateStep 0 (CvParse demo_decode (Inr demo_form)), EvCreateStep 0 CvGo, EvCreateStep 0 CvGo]"

definition demo_created :: sigbench_mux where
  "demo_created = create_job (demo_master_job\<lparr>job_Name := ''j''\<rparr>) demo_mux"

definition demo_registering :: "create_pc \<Rightarrow> service_threads" where
  "demo_registering pc = \<lparr>th_creates = [\<lparr>jc_pc = pc, jc_agents = [''a:1''], jc_job = demo_master_job\<lparr>job_Name := ''j''\<rparr>\<rparr>],
     th_jobs = [], th_status = []\<rparr>"

lemma demo_check: "check_request demo_decode (Inr demo_form) = Inr ([''a:1''], demo_master_job\<lparr>job_Name := ''j''\<rparr>)"
  by (simp add: check_request_def demo_form_def demo_decode_def comma_def job_validate_def demo_master_job_def Let_def)

lemma demo_requested:
  "run_events (service_step env) demo_mux service_start demo_request = Next demo_created (demo_registering (JRegister [''a:1'']))"
  by (simp add: demo_request_def service_step_def service_start_def create_start_def create_step_def demo_check
      demo_created_def demo_registering_def) (simp add: demo_mux_def)

theorem service_one_job_witness:
  "\<exists>m ths. run_events (service_step demo_snapshot_env) demo_mux service_start demo_request = Next m ths
    \<and> owners ths = 1 \<and> sm_master m \<noteq> None \<and> (\<forall>e. service_step demo_snapshot_env m ths e \<noteq> Crash NilDereference)"
proof -
  have "owners (demo_registering (JRegister [''a:1''])) = 1"
    by (simp add: owners_def demo_registering_def registering_def)
  with service_one_job[OF demo_mux_new demo_requested] demo_requested show ?thesis by auto
qed

text \<open>
  C36: a failed registration blocks the service for good. When an agent of a new job cannot be
  dialled, the request is answered with 400, but the controller stays set with no thread left
  to clear it: no continuation starts another job, until the process is restarted.
\<close>

theorem service_register_failure_blocks:
  assumes "NewServiceMux mkdirAll config w = Return m0"
    and "run_events (service_step env) m0 service_start es = Next m ths"
    and "i < length (th_creates ths)" and "jc_pc (th_creates ths ! i) = JRegister (agent # rest)"
    and "service_step env m ths (EvCreateStep i (CvDial (Inl err))) = Next m1 ths1"
    and "run_events (service_step env) m1 ths1 es' = Next m2 ths2"
  shows "jc_pc (th_creates ths1 ! i) = JResponded 400 (''Fail to register agent: '' @ err)
    \<and> sm_master m2 \<noteq> None \<and> owners ths2 = 0 \<and> length (th_jobs ths2) = length (th_jobs ths)"
proof -
  have inv: "owner_inv m ths"
    using service_run_inv[OF assms(2)] service_start_inv[OF assms(1)] by auto
  let ?t = "(th_creates ths ! i)\<lparr>jc_pc := JResponded 400 (''Fail to register agent: '' @ err)\<rparr>"
  have reg: "registering (th_creates ths ! i)" using assms(4) by (simp add: registering_def)
  have o1: "owners (ths\<lparr>th_creates := (th_creates ths)[i := ?t]\<rparr>) + 1 = owners ths"
    using owners_creates_update[OF assms(3), of ?t] reg by (simp add: registering_def)
  then have "sm_master m \<noteq> None" using inv by (auto simp: owner_inv_def)
  then have s: "m1 = m" "ths1 = ths\<lparr>th_creates := (th_creates ths)[i := ?t]\<rparr>"
    using assms(3-5) by (auto simp: service_step_def create_step_def RegisterAgent_def NewAgentDelegate_def)
  have "blocked m1 ths1" using o1 inv \<open>sm_master m \<noteq> None\<close> by (simp add: s blocked_def owner_inv_def)
  from service_run_blocked[OF assms(6) this] s assms(3) show ?thesis by (simp add: blocked_def)
qed

theorem service_register_failure_blocks_witness:
  "\<exists>m1 ths1. service_step demo_snapshot_env demo_created (demo_registering (JRegister [''a:1'']))
       (EvCreateStep 0 (CvDial (Inl ''down''))) = Next m1 ths1
     \<and> (\<forall>es' m2 ths2. run_events (service_step demo_snapshot_env) m1 ths1 es' = Next m2 ths2 \<longrightarrow>
          sm_master m2 \<noteq> None \<and> th_jobs ths2 = [])"
proof -
  let ?failed = "demo_registering (JResponded 400 ''Fail to register agent: down'')"
  have i: "0 < length (th_creates (demo_registering (JRegister [''a:1''])))"
    "jc_pc (th_creates (demo_registering (JRegister [''a:1''])) ! 0) = JRegister (''a:1'' # [])"
    by (simp_all add: demo_registering_def)
  have fail: "service_step demo_snapshot_env demo_created (demo_registering (JRegister [''a:1''])) (EvCreateStep 0 (CvDial (Inl ''down''))) =
      Next demo_created ?failed"
    by (simp add: service_step_def create_step_def demo_registering_def demo_created_def create_job_def
        RegisterAgent_def NewAgentDelegate_def)
  have "sm_master m2 \<noteq> None \<and> th_jobs ths2 = []"
    if "run_events (service_step demo_snapshot_env) demo_created ?failed es' = Next m2 ths2" for es' m2 ths2
    using service_register_failure_blocks[OF demo_mux_new demo_requested i fail that] by (simp add: demo_registering_def)
  with fail show ?thesis by blast
qed

text \<open>
  C31: the index page and the job form agree. The agents that the page lists for the registered
  addresses, in whatever order Go ranges over the map, are sorted and counted, and the request
  that the form sends back names exactly these agents, provided there is one and no address
  contains a comma.
\<close>

theorem index_form_roundtrip:
  assumes "set order = dom (sm_reg m)" and "distinct order" and "order \<noteq> []"
    and "\<forall>addr \<in> dom (sm_reg m). comma \<notin> set addr"
    and "get ''agents'' = snd (HandleIndex order)" and "check_request decode (Inr get) = Inr (agents, j)"
  shows "agents = sort order \<and> set agents = dom (sm_reg m) \<and> length agents = fst (HandleIndex order)"
proof -
  have "agents = split_on comma (get ''agents'')"
    using assms(6) by (auto simp: check_request_def Let_def split: sum.splits option.splits if_splits)
  also have "\<dots> = split_on comma (join_with comma (sort order))" using assms(5) by (simp add: HandleIndex_def Let_def)
  also have "\<dots> = sort order"
  proof (rule split_join)
    show "sort order \<noteq> []" using assms(3) by (metis length_0_conv length_sort)
    show "\<forall>s \<in> set (sort order). comma \<notin> set s" using assms(1,4) by simp
  qed
  finally show ?thesis using assms(1) by (simp add: HandleIndex_def Let_def)
qed

theorem index_form_roundtrip_witness:
  "\<exists>agents j. check_request demo_decode (Inr (\<lambda>k. if k = ''agents'' then snd (HandleIndex [''b'', ''a'']) else ''j'')) = Inr (agents, j)
    \<and> agents = sort [''b'', ''a'']"
proof -
  let ?get = "\<lambda>k. if k = ''agents'' then snd (HandleIndex [''b'', ''a'']) else ''j''"
  let ?m = "demo_mux\<lparr>sm_reg := [''a'' \<mapsto> 1, ''b'' \<mapsto> 2]\<rparr>"
  have "\<exists>agents j. check_request demo_decode (Inr ?get) = Inr (agents, j)"
    by (simp add: check_request_def demo_decode_def job_validate_def demo_master_job_def Let_def)
  then obtain agents j where c: "check_request demo_decode (Inr ?get) = Inr (agents, j)" by blast
  have "agents = sort [''b'', ''a'']"
    using index_form_roundtrip[of "[''b'', ''a'']" ?m ?get demo_decode agents j] c by (auto simp: comma_def)
  with c show ?thesis by blast
qed

text \<open>The specification of one agent's registration: a lease of 15 seconds that a registration renews.\<close>

fun lease :: "string \<Rightarrow> gotime option \<Rightarrow> service_event list \<Rightarrow> gotime option" where
  "lease addr l [] = l"
| "lease addr l (EvRegister now (Inr form) # es) =
     lease addr (if str_get form ''agentAddress'' = addr \<and> addr \<noteq> '''' then Some now else l) es"
| "lease addr l (EvExpire now # es) =
     lease addr (case l of None \<Rightarrow> None | Some ts \<Rightarrow> if 15 * second_ns < now - ts then None else Some ts) es"
| "lease addr l (e # es) = lease addr l es"

lemma expired_iff: "expired now ts \<longleftrightarrow> 15 * second_ns < now - ts"
proof -
  have "sint (word_of_int (15 * second_ns) :: int64) = 15 * second_ns"
    by (rule sint_of_int_exact) (simp add: in_int64_def second_ns_def)
  then show ?thesis
    by (simp add: expired_def word_sless_alt sint_time_sub clamp64_gr in_int64_def second_ns_def)
qed

lemma create_step_reg: "create_step m t e = Next m' t' \<Longrightarrow> sm_reg m' = sm_reg m"
  by (cases "jc_pc t"; cases e)
    (auto simp: create_step_def create_job_def split: sum.splits if_splits list.splits option.splits prod.splits)

lemma job_step_reg: "job_step env m t e = Next m' t' \<Longrightarrow> sm_reg m' = sm_reg m"
  by (cases "jt_pc t"; cases e) (auto simp: job_step_def split: if_splits option.splits step_result.splits)

lemma service_step_lease:
  assumes "service_step env m ths e = Next m' ths'"
  shows "sm_reg m' addr = lease addr (sm_reg m addr) [e]"
proof (cases "\<exists>now form. e = EvRegister now form \<or> e = EvExpire now")
  case True
  then show ?thesis using assms
    by (auto simp: service_step_def HandleAgentRegister_def Let_def CheckExpiredAgents_def expired_iff split: sum.splits option.splits)
next
  case False
  with assms have "sm_reg m' = sm_reg m"
    by (cases e) (auto simp: service_step_def dest: status_step_mux create_step_reg job_step_reg
        split: if_splits step_result.splits option.splits)
  with False show ?thesis by (cases e) auto
qed

lemma service_run_lease:
  assumes "run_events (service_step env) m ths es = Next m' ths'"
  shows "sm_reg m' addr = lease addr (sm_reg m addr) es"
  using assms
proof (induction es arbitrary: m ths)
  case (Cons e es)
  then obtain m1 ths1 where s: "service_step env m ths e = Next m1 ths1"
    "run_events (service_step env) m1 ths1 es = Next m' ths'"
    by (auto split: step_result.splits)
  have "lease addr l (e # es) = lease addr (lease addr l [e]) es" for l
    by (cases "(addr, l, [e])" rule: lease.cases) simp_all
  with Cons.IH[OF s(2)] service_step_lease[OF s(1)] show ?case by simp
qed simp

text \<open>
  C12: the map of registered agents implements one lease per agent. In every interleaving of the
  service, what the map holds for an address is what the lease of that address alone says: the
  time of its last registration, until the first check more than 15 seconds after it (in exact
  time, although the code compares saturating 64-bit durations); jobs, connections and other
  agents do not matter.
\<close>

theorem registration_lease:
  assumes "run_events (service_step env) m ths es = Next m' ths'"
  shows "sm_reg m' addr = lease addr (sm_reg m addr) es"
  using assms by (rule service_run_lease)

theorem registration_lease_witness:
  "\<exists>m ths. run_events (service_step demo_snapshot_env) demo_mux service_start
      [EvRegister 0 (Inr [''agentAddress'' \<mapsto> ''a'']), EvExpire 15000000000,
       EvRegister 1 (Inr [''agentAddress'' \<mapsto> ''b'']), EvExpire 15000000001] = Next m ths
    \<and> sm_reg m ''a'' = None \<and> sm_reg m ''b'' = Some 1"
proof -
  let ?es = "[EvRegister 0 (Inr [''agentAddress'' \<mapsto> ''a'']), EvExpire 15000000000,
       EvRegister 1 (Inr [''agentAddress'' \<mapsto> ''b'']), EvExpire 15000000001]"
  obtain m ths where run: "run_events (service_step demo_snapshot_env) demo_mux service_start ?es = Next m ths"
    by (simp add: service_step_def)
  have reg: "sm_reg demo_mux k = None" for k by (simp add: demo_mux_def)
  have "sm_reg m ''a'' = None" "sm_reg m ''b'' = Some 1"
    using registration_lease[OF run, of "''a''"] registration_lease[OF run, of "''b''"]
    by (simp_all add: reg second_ns_def str_get_def)
  with run show ?thesis by blast
qed

text \<open>
  What a job request must satisfy. A request passes the checks only with a validated job
  that has a name and with at least one agent; and the branch that answers ``No agents
  specified'' is dead: \<^verbatim>\<open>strings.Split\<close> never returns an empty slice, so a request without
  agents goes on with one agent of the empty address.
\<close>

theorem check_request_sound:
  "(check_request decode (Inr get) = Inr (agents, j) \<longrightarrow>
      agents \<noteq> [] \<and> job_validate j = None \<and> job_Name j = get ''name'' \<and> job_Name j \<noteq> '''')
   \<and> check_request decode (Inr get) \<noteq> Inl ''No agents specified''
   \<and> (get ''agents'' = '''' \<and> check_request decode (Inr get) = Inr (agents, j) \<longrightarrow> agents = [''''])"
  by (auto simp: check_request_def Let_def job_validate_def split: sum.splits option.splits if_splits)

theorem check_request_sound_witness:
  "\<exists>j. check_request demo_decode (Inr demo_form) = Inr ([''a:1''], j) \<and> job_validate j = None \<and> job_Name j = ''j''"
  using check_request_sound[of demo_decode demo_form "[''a:1'']" "demo_master_job\<lparr>job_Name := ''j''\<rparr>"] demo_check
  by (simp add: demo_form_def)

end
