(* ===== verification/Cmd.thy ===== *)
theory Cmd
  imports Service "HOL-Library.Sublist"
begin

text \<open>
  \<^verbatim>\<open>cmd/main.go\<close>: the flags, the three modes of the program, and the loop with which an
  agent registers itself at a service. The calls of the operating system and of the network are
  arguments. What a mode runs after its start is modelled elsewhere: \<open>master_step\<close> for the
  command line, \<open>service_step\<close> for the service, \<open>agent_step\<close> for an agent.
\<close>

subsection \<open>The master on the command line\<close>

record cli_env =
  ce_mkdirAll :: "string \<Rightarrow> goerror option"
  ce_dial :: "nat \<Rightarrow> string \<Rightarrow> goerror + rpc_client"
  ce_open :: "string \<Rightarrow> goerror option"
  ce_decode :: "string \<Rightarrow> goerror + job"
  ce_marshal :: "job \<Rightarrow> goerror + string"
  ce_writeFile :: "string \<Rightarrow> string \<Rightarrow> goerror option"

text \<open>\<open>dial k\<close> is the answer to the \<open>k\<close>-th dial, so that two dials of one address may differ.\<close>

fun register_agents ::
  "(nat \<Rightarrow> string \<Rightarrow> goerror + rpc_client) \<Rightarrow> string list \<Rightarrow> master_controller \<Rightarrow> master_controller go" where
  "register_agents dial [] c = Return c"
| "register_agents dial (agent # rest) c =
     (case RegisterAgent (dial 0) agent c of
        (c', None) \<Rightarrow> register_agents (\<lambda>k. dial (Suc k)) rest c'
      | (_, Some err) \<Rightarrow> Fatal (''Fail to register agent:  '' @ agent @ '' '' @ err))"

text \<open>The job of the config file, of which a copy is written to the output directory.\<close>

definition load_config :: "cli_env \<Rightarrow> string \<Rightarrow> string \<Rightarrow> world \<Rightarrow> (job \<times> world) go" where
  "load_config env config outDir w =
     (case ce_open env config of
        Some err \<Rightarrow> Fatal (''Fail to open config file:  '' @ err)
      | None \<Rightarrow>
          (case ce_decode env config of
             Inl err \<Rightarrow> Fatal (''Fail to load config file:  '' @ err)
           | Inr j \<Rightarrow>
               (case ce_marshal env j of
                  Inl err \<Rightarrow> Fatal (''Fail to encode a copy of config file:  '' @ err)
                | Inr copy \<Rightarrow>
                    (case ce_writeFile env (outDir @ ''/config.json'') copy of
                       Some err \<Rightarrow> Fatal (''Fail to save a copy of config file:  '' @ err)
                     | None \<Rightarrow> Return (j, w\<lparr>w_files := (w_files w)(outDir @ ''/config.json'' \<mapsto> copy)\<rparr>)))))"

text \<open>The controller and the job whose \<^verbatim>\<open>Run\<close> is called at the end.\<close>

definition startAsMaster ::
  "cli_env \<Rightarrow> string list \<Rightarrow> string \<Rightarrow> string \<Rightarrow> world \<Rightarrow> (master_controller \<times> master_run \<times> world) go" where
  "startAsMaster env agents config outDir w =
     (if agents = [] then Fatal ''No agents specified''
      else case ce_mkdirAll env outDir of
        Some err \<Rightarrow> Fatal err
      | None \<Rightarrow>
          go_bind (register_agents (ce_dial env) agents
                     \<lparr>mc_Agents = [], mc_SnapshotWriter = NewJsonSnapshotWriter (outDir @ ''/counters.txt'')\<rparr>)
            (\<lambda>c. go_bind (load_config env config outDir w)
              (\<lambda>(j, w'). Return (c, master_start j, w'))))"

subsection \<open>Agents and the service\<close>

text \<open>
  The request that an agent posts every 5 seconds, and whether a tick has registered it. The
  ticker's channel holds one tick: a loop that is ready before the next tick waits for it, and
  one whose post took longer goes on at once. \<open>next_tick\<close> is the first tick after \<open>t\<close> of a
  ticker made at \<open>start\<close>; \<open>register_times\<close> are the times of the posts from one at \<open>t\<close> on,
  when they take \<open>ds\<close>.
\<close>

definition next_tick :: "gotime \<Rightarrow> gotime \<Rightarrow> gotime" where
  "next_tick start t = start + 5 * second_ns * ((t - start) div (5 * second_ns) + 1)"

fun register_times :: "gotime \<Rightarrow> gotime \<Rightarrow> int list \<Rightarrow> gotime list" where
  "register_times start t [] = [t]"
| "register_times start t (d # ds) = t # register_times start (max (t + d) (next_tick start t)) ds"

definition auto_register_request :: "string \<Rightarrow> string \<Rightarrow> string \<times> params" where
  "auto_register_request agentAddr masterAddr = (masterAddr @ ''/agent/register'', [''agentAddress'' \<mapsto> agentAddr])"

definition auto_register_tick :: "goerror + nat \<Rightarrow> bool" where
  "auto_register_tick resp = (case resp of Inl err \<Rightarrow> False | Inr statusCode \<Rightarrow> statusCode = 200)"

text \<open>The times and the requests of the loop's posts: those that took \<open>ds\<close>, and the next one.\<close>

definition autoRegisterAgent :: "string \<Rightarrow> string \<Rightarrow> gotime \<Rightarrow> int list \<Rightarrow> (gotime \<times> string \<times> params) list" where
  "autoRegisterAgent agentAddr masterAddr start ds =
     map (\<lambda>t. (t, auto_register_request agentAddr masterAddr)) (register_times start (next_tick start start) ds)"

text \<open>Whether the registration loop runs beside the agent's RPC server.\<close>

definition startAsAgent :: "(string \<Rightarrow> goerror option) \<Rightarrow> string \<Rightarrow> string \<Rightarrow> bool go" where
  "startAsAgent listen address masterAddr =
     (case listen address of
        Some err \<Rightarrow> Fatal (''Fail to listen:'' @ err)
      | None \<Rightarrow> Return (masterAddr \<noteq> ''''))"

definition startAsService ::
  "(string \<Rightarrow> goerror option) \<Rightarrow> (string \<Rightarrow> goerror option) \<Rightarrow> string \<Rightarrow> service_config \<Rightarrow> world \<Rightarrow> sigbench_mux go" where
  "startAsService mkdirAll listen address config w =
     go_bind (NewServiceMux mkdirAll config w) (\<lambda>m.
       case listen address of Some err \<Rightarrow> Fatal err | None \<Rightarrow> Return m)"

subsection \<open>main\<close>

record flags =
  fl_mode :: string
  fl_config :: string
  fl_outDir :: string
  fl_listenAddress :: string
  fl_agents :: string
  fl_masterAddr :: string
  fl_influxServerURL :: string
  fl_influxAuthToken :: string
  fl_influxOrg :: string
  fl_influxBucket :: string

definition default_flags :: "gotime \<Rightarrow> flags" where
  "default_flags now = \<lparr>fl_mode = ''agent'', fl_config = ''config.json'', fl_outDir = ''output/'' @ format_int (time_unix now),
     fl_listenAddress = '':7000'', fl_agents = '''', fl_masterAddr = '''', fl_influxServerURL = '''',
     fl_influxAuthToken = '''', fl_influxOrg = '''', fl_influxBucket = ''''\<rparr>"

datatype process =
    CliProcess master_controller master_run world
  | ServiceProcess sigbench_mux
  | AgentProcess bool

definition flags_config :: "flags \<Rightarrow> service_config" where
  "flags_config f = \<lparr>OutDir = fl_outDir f, InfluxServerURL = fl_influxServerURL f, InfluxAuthToken = fl_influxAuthToken f,
     InfluxOrg = fl_influxOrg f, InfluxBucket = fl_influxBucket f\<rparr>"

definition main_process :: "cli_env \<Rightarrow> (string \<Rightarrow> goerror option) \<Rightarrow> flags \<Rightarrow> world \<Rightarrow> process go" where
  "main_process env listen f w =
     (if fl_mode f = ''cli''
      then go_bind (startAsMaster env (split_on comma (fl_agents f)) (fl_config f) (fl_outDir f) w)
             (\<lambda>(c, r, w'). Return (CliProcess c r w'))
      else if fl_mode f = ''service''
      then go_bind (startAsService (ce_mkdirAll env) listen (fl_listenAddress f) (flags_config f) w)
             (\<lambda>m. Return (ServiceProcess m))
      else go_bind (startAsAgent listen (fl_listenAddress f) (fl_masterAddr f)) (\<lambda>b. Return (AgentProcess b)))"

subsection \<open>Properties\<close>

lemma register_agents_all:
  "register_agents dial as c = Return c' \<Longrightarrow>
     map ad_Address (mc_Agents c') = map ad_Address (mc_Agents c) @ as
     \<and> map (\<lambda>d. Inr (ad_Client d)) (mc_Agents c') = map (\<lambda>d. Inr (ad_Client d)) (mc_Agents c) @ map2 dial [0..<length as] as
     \<and> mc_SnapshotWriter c' = mc_SnapshotWriter c"
proof (induction dial as c rule: register_agents.induct)
  case (2 dial agent rest c)
  have "map2 dial [0..<Suc (length rest)] (agent # rest) = dial 0 agent # map2 (\<lambda>k. dial (Suc k)) [0..<length rest] rest"
    by (simp add: upt_conv_Cons zip_map1 comp_def case_prod_unfold del: upt_Suc flip: map_Suc_upt)
  with 2 show ?case
    by (auto simp: RegisterAgent_def NewAgentDelegate_def simp del: upt_Suc split: prod.splits option.splits sum.splits)
qed simp

text \<open>
  C32: the command line registers what it was given. When \<^verbatim>\<open>main\<close> in mode \<^verbatim>\<open>cli\<close> gets as
  far as running the job, the controller has exactly one dialled delegate for each element of
  the flag \<^verbatim>\<open>agents\<close>, in this order, writes its snapshots to \<^verbatim>\<open>counters.txt\<close> of the output
  directory, and a copy of the decoded job is in \<^verbatim>\<open>config.json\<close> there; the check for an empty
  list of agents never stops it.
\<close>

theorem cli_starts_job:
  assumes "fl_mode f = ''cli''" and "main_process env listen f w = Return (CliProcess c r w')"
  shows "map ad_Address (mc_Agents c) = split_on comma (fl_agents f)
    \<and> map (\<lambda>d. Inr (ad_Client d)) (mc_Agents c)
        = map2 (ce_dial env) [0..<length (split_on comma (fl_agents f))] (split_on comma (fl_agents f))
    \<and> mc_Agents c \<noteq> [] \<and> mc_SnapshotWriter c = JsonWriter (fl_outDir f @ ''/counters.txt'')
    \<and> (\<exists>j copy. ce_decode env (fl_config f) = Inr j \<and> r = master_start j \<and> ce_marshal env j = Inr copy
         \<and> w_files w' (fl_outDir f @ ''/config.json'') = Some copy)"
proof -
  obtain j where c: "register_agents (ce_dial env) (split_on comma (fl_agents f))
      \<lparr>mc_Agents = [], mc_SnapshotWriter = NewJsonSnapshotWriter (fl_outDir f @ ''/counters.txt'')\<rparr> = Return c"
    and j: "load_config env (fl_config f) (fl_outDir f) w = Return (j, w')" "r = master_start j"
    using assms by (auto simp: main_process_def startAsMaster_def split: option.splits prod.splits)
  have "map ad_Address (mc_Agents c) = split_on comma (fl_agents f)"
    using register_agents_all[OF c] by simp
  then have "mc_Agents c \<noteq> []" using split_on_nonempty by (metis map_is_Nil_conv)
  with register_agents_all[OF c] j show ?thesis
    by (auto simp: NewJsonSnapshotWriter_def load_config_def split: option.splits sum.splits)
qed

definition demo_cli_env :: cli_env where
  "demo_cli_env = \<lparr>ce_mkdirAll = (\<lambda>_. None), ce_dial = (\<lambda>k a. Inr k), ce_open = (\<lambda>_. None),
     ce_decode = (\<lambda>_. Inr demo_master_job), ce_marshal = (\<lambda>_. Inr ''{}''), ce_writeFile = (\<lambda>_ _. None)\<rparr>"

definition demo_flags :: flags where
  "demo_flags = (default_flags 0)\<lparr>fl_mode := ''cli'', fl_agents := ''a:1,bb:2'', fl_outDir := ''o''\<rparr>"

theorem cli_starts_job_witness:
  "\<exists>c r w'. main_process demo_cli_env (\<lambda>_. None) demo_flags demo_world = Return (CliProcess c r w')
    \<and> map ad_Address (mc_Agents c) = [''a:1'', ''bb:2'']"
proof -
  have agents: "split_on comma (fl_agents demo_flags) = [''a:1'', ''bb:2'']"
    by (simp add: demo_flags_def comma_def)
  have mode: "fl_mode demo_flags = ''cli''" by (simp add: demo_flags_def)
  obtain c r w' where run: "main_process demo_cli_env (\<lambda>_. None) demo_flags demo_world = Return (CliProcess c r w')"
    by (simp add: main_process_def mode agents startAsMaster_def demo_cli_env_def RegisterAgent_def
        NewAgentDelegate_def load_config_def)
  from cli_starts_job[OF mode run] run agents show ?thesis by auto
qed

subsection \<open>An agent that registers itself stays listed\<close>

definition event_time :: "service_event \<Rightarrow> gotime option" where
  "event_time e = (case e of EvRegister now form \<Rightarrow> Some now | EvExpire now \<Rightarrow> Some now | _ \<Rightarrow> None)"

definition event_times :: "service_event list \<Rightarrow> gotime list" where
  "event_times es = List.map_filter event_time es"

lemma event_times_simps [simp]:
  "event_times [] = []"
  "event_times (e # es) = (case event_time e of None \<Rightarrow> event_times es | Some t \<Rightarrow> t # event_times es)"
  by (simp_all add: event_times_def List.map_filter_simps split: option.splits)

lemma event_times_append [simp]: "event_times (es @ es') = event_times es @ event_times es'"
  by (induction es) (simp_all split: option.splits)

lemma register_in_times: "EvRegister h form \<in> set es \<Longrightarrow> h \<in> set (event_times es)"
  by (induction es) (auto simp: event_time_def split: option.splits)

lemma subseq_first: "subseq (x # xs) ys \<Longrightarrow> \<exists>us vs. ys = us @ x # vs \<and> subseq xs vs"
  using list_emb_ConsD[of "(=)" x xs ys] by blast

text \<open>
  A lease is kept when registrations at \<open>hs\<close> are handled in time: each at most 15 seconds after
  the one before it, and nothing happening more than 15 seconds after the last one.
\<close>

lemma lease_kept:
  assumes "addr \<noteq> ''''" and "str_get form ''agentAddress'' = addr" and "t \<le> t'"
    and "subseq (map (\<lambda>h. EvRegister h (Inr form)) hs) es" and "sorted (event_times es)"
    and "successively (\<lambda>a b. b - a \<le> 15 * second_ns) (t # hs)"
    and "\<forall>u \<in> set (event_times es). t' \<le> u \<and> u \<le> last (t # hs) + 15 * second_ns"
  shows "\<exists>ts. lease addr (Some t') es = Some ts"
  using assms(3-)
proof (induction es arbitrary: t t' hs)
  case (Cons e es)
  show ?case
  proof (cases "\<exists>now f. e = EvRegister now f \<or> e = EvExpire now")
    case False
    then have "event_time e = None" "\<And>l. lease addr l (e # es) = lease addr l es"
      by (cases e; auto simp: event_time_def)+
    moreover have "subseq (map (\<lambda>h. EvRegister h (Inr form)) hs) es"
      using Cons.prems(2) False by (cases hs) (auto split: if_splits)
    ultimately show ?thesis using Cons.IH[of t t' hs] Cons.prems by simp
  next
    case True
    then consider (matched) now hs' where "e = EvRegister now (Inr form)" "hs = now # hs'"
        "subseq (map (\<lambda>h. EvRegister h (Inr form)) hs') es"
      | (other) now f where "e = EvRegister now f" "subseq (map (\<lambda>h. EvRegister h (Inr form)) hs) es"
      | (check) now where "e = EvExpire now" "subseq (map (\<lambda>h. EvRegister h (Inr form)) hs) es"
      using Cons.prems(2) by (cases hs) (auto split: if_splits)
    then show ?thesis
    proof cases
      case matched
      then show ?thesis using Cons.IH[of now now hs'] Cons.prems assms(1,2) by (auto simp: event_time_def)
    next
      case other
      then have "lease addr (Some t') (e # es) = lease addr (Some t') es \<or> lease addr (Some t') (e # es) = lease addr (Some now) es"
        by (cases f) auto
      moreover have "\<exists>ts. lease addr (Some t') es = Some ts" "\<exists>ts. lease addr (Some now) es = Some ts"
        using Cons.IH[of t t' hs] Cons.IH[of t now hs] Cons.prems other by (auto simp: event_time_def)
      ultimately show ?thesis by metis
    next
      case check
      have "now - t' \<le> 15 * second_ns"
      proof (cases hs)
        case Nil
        then show ?thesis using Cons.prems check by (auto simp: event_time_def)
      next
        case (Cons h hs')
        then have "EvRegister h (Inr form) \<in> set es" using check(2) by (auto dest: subseq_first)
        then have "now \<le> h" using Cons.prems check register_in_times by (fastforce simp: event_time_def)
        moreover have "h - t \<le> 15 * second_ns" using Cons.prems Cons by simp
        ultimately show ?thesis using \<open>t \<le> t'\<close> by simp
      qed
      then show ?thesis using Cons.IH[of t t' hs] Cons.prems check by (auto simp: event_time_def)
    qed
  qed
qed simp

lemma lease_append: "lease addr l (es @ es') = lease addr (lease addr l es) es'"
  by (induction addr l es rule: lease.induct) simp_all

lemma next_tick_le: "next_tick start t \<le> t + 5 * second_ns"
proof -
  let ?k = "5 * second_ns"
  have "?k * ((t - start) div ?k) + (t - start) mod ?k = t - start" by (rule mult_div_mod_eq)
  moreover have "0 \<le> (t - start) mod ?k" by (simp add: second_ns_def)
  ultimately have "?k * ((t - start) div ?k) \<le> t - start" by linarith
  then show ?thesis by (simp add: next_tick_def distrib_left)
qed

text \<open>The posts at \<open>ts\<close> are handled at \<open>hs\<close>: each between its start and its answer, which comes within \<open>lim\<close>.\<close>

fun handled_within :: "int \<Rightarrow> gotime list \<Rightarrow> int list \<Rightarrow> gotime list \<Rightarrow> bool" where
  "handled_within lim (t # ts) (d # ds) (h # hs) \<longleftrightarrow> t \<le> h \<and> h \<le> t + d \<and> d \<le> lim \<and> handled_within lim ts ds hs"
| "handled_within lim ts [] [] \<longleftrightarrow> True"
| "handled_within lim ts ds hs \<longleftrightarrow> False"

lemma handled_within_length: "handled_within lim ts ds hs \<Longrightarrow> length hs \<le> length ts"
  by (induction lim ts ds hs rule: handled_within.induct) auto

lemma posted_forms:
  assumes "length hs \<le> length ts"
  shows "map2 (\<lambda>(t, url, form) h. EvRegister h (Inr form)) (map (\<lambda>t. (t, req)) ts) hs
    = map (\<lambda>h. EvRegister h (Inr (snd req))) hs"
proof -
  have "map2 (\<lambda>(t, url, form) h. EvRegister h (Inr form)) (map (\<lambda>t. (t, req)) ts) hs
      = map (\<lambda>h. EvRegister h (Inr (snd req))) (map snd (zip ts hs))"
    by (simp add: zip_map1 case_prod_unfold)
  with assms show ?thesis by (simp add: map_snd_zip_take)
qed

lemma register_times_gaps:
  assumes "handled_within lim (register_times start t ds) ds hs" and "t \<le> u + lim" and "5 * second_ns \<le> lim"
  shows "successively (\<lambda>a b. b - a \<le> 2 * lim) (u # hs) \<and> last (register_times start t ds) \<le> last (u # hs) + lim"
  using assms
proof (induction start t ds arbitrary: u hs rule: register_times.induct)
  case (1 start t)
  then show ?case by (cases hs) auto
next
  case (2 start t d ds)
  then obtain h hs' where hs: "hs = h # hs'" by (cases hs) auto
  have "max (t + d) (next_tick start t) \<le> h + lim"
    using 2(2,4) hs next_tick_le[of start t] by auto
  then have "successively (\<lambda>a b. b - a \<le> 2 * lim) (h # hs')
      \<and> last (register_times start (max (t + d) (next_tick start t)) ds) \<le> last (h # hs') + lim"
    using 2(1)[of hs' h] 2(2,4) hs by simp
  moreover have "register_times start (max (t + d) (next_tick start t)) ds \<noteq> []" by (cases ds) simp_all
  ultimately show ?case using 2(2,3) hs by simp
qed

lemma auto_register_key: "str_get (snd (auto_register_request addr masterAddr)) ''agentAddress'' = addr"
  by (simp add: auto_register_request_def str_get_def)

text \<open>
  C30: an agent that registers itself stays listed. \<^verbatim>\<open>autoRegisterAgent\<close> posts at the ticks of
  its ticker, or as soon as the post before is answered; each post is routed to
  \<^verbatim>\<open>HandleAgentRegister\<close>. When the service handles every post before it is answered and each is
  answered within 7.5 seconds, then after the first post, and until the answer of the next one is due,
  the agent is registered after any interleaving of the service's events, whatever
  the times at which the service checks for expired agents.
\<close>

theorem heartbeat_keeps_listed:
  assumes "run_events (service_step env) m ths es = Next m' ths'" and "sorted (event_times es)"
    and "addr \<noteq> []" and "ds \<noteq> []" and "posts = autoRegisterAgent addr masterAddr start ds"
    and "handled_within lim (map fst posts) ds hs" and "5 * second_ns \<le> lim" and "2 * lim \<le> 15 * second_ns"
    and "subseq (map2 (\<lambda>(t, url, form) h. EvRegister h (Inr form)) posts hs) es"
    and "\<forall>u \<in> set (event_times es). u \<le> fst (last posts) + lim"
  shows "addr \<in> dom (sm_reg m')
    \<and> (\<forall>(t, url, form) \<in> set posts. \<exists>path. url = masterAddr @ path \<and> service_route path = AgentRegister)"
proof -
  let ?req = "auto_register_request addr masterAddr" and ?ts = "register_times start (next_tick start start) ds"
  let ?ev = "\<lambda>h. EvRegister h (Inr (snd ?req))"
  have posts: "posts = map (\<lambda>t. (t, ?req)) ?ts" and ne: "?ts \<noteq> []"
    using assms(5) by (simp_all add: autoRegisterAgent_def) (cases ds; simp)
  have hw: "handled_within lim ?ts ds hs" using assms(6) by (simp add: posts comp_def)
  obtain d ds' h hs' where hs: "hs = h # hs'" "ds = d # ds'" using assms(4) hw by (cases ds; cases hs) auto
  have "subseq (map ?ev hs) es"
    using assms(9) unfolding posts posted_forms[OF handled_within_length[OF hw]] .
  then obtain us vs where es: "es = us @ ?ev h # vs" "subseq (map ?ev hs') vs"
    using subseq_first[of "?ev h" "map ?ev hs'" es] hs by auto
  have "successively (\<lambda>a b. b - a \<le> 2 * lim) ((next_tick start start - lim) # hs)
      \<and> last ?ts \<le> last ((next_tick start start - lim) # hs) + lim"
    using hw _ assms(7) by (rule register_times_gaps) simp
  then have gaps: "successively (\<lambda>a b. b - a \<le> 2 * lim) (h # hs')" "last ?ts \<le> last (h # hs') + lim"
    unfolding hs(1) by simp_all
  have fl: "fst (last posts) = last ?ts" unfolding posts using ne by (simp add: last_map)
  have times: "event_times es = event_times us @ h # event_times vs" by (simp add: es(1) event_time_def)
  have "\<exists>ts. lease addr (Some h) vs = Some ts"
  proof (rule lease_kept[OF _ auto_register_key order_refl es(2)])
    show "addr \<noteq> []" by (rule assms(3))
    show "sorted (event_times vs)" using assms(2) by (simp add: times sorted_append)
    show "successively (\<lambda>a b. b - a \<le> 15 * second_ns) (h # hs')"
      using gaps(1) by (rule successively_mono) (use assms(8) in auto)
    show "\<forall>u \<in> set (event_times vs). h \<le> u \<and> u \<le> last (h # hs') + 15 * second_ns"
    proof
      fix u assume u: "u \<in> set (event_times vs)"
      then have "h \<le> u" using assms(2) by (simp add: times sorted_append)
      moreover have "u \<le> last ?ts + lim" using assms(10) u by (simp add: fl times)
      ultimately show "h \<le> u \<and> u \<le> last (h # hs') + 15 * second_ns" using gaps(2) assms(8) by linarith
    qed
  qed
  then have "\<exists>ts. sm_reg m' addr = Some ts"
    using service_run_lease[OF assms(1), of addr] assms(3) by (simp add: es lease_append auto_register_key)
  moreover have "service_route ''/agent/register'' = AgentRegister" by (simp add: service_route_def)
  ultimately show ?thesis by (auto simp: posts auto_register_request_def)
qed

theorem heartbeat_keeps_listed_witness:
  "\<exists>m' ths'. run_events (service_step demo_snapshot_env) demo_mux service_start
       [EvExpire 4000000000, EvRegister 6000000000 (Inr [''agentAddress'' \<mapsto> ''a'']), EvExpire 10000000000,
        EvRegister 17000000000 (Inr [''agentAddress'' \<mapsto> ''a'']), EvExpire 20000000000] = Next m' ths'
    \<and> ''a'' \<in> dom (sm_reg m')"
proof -
  let ?form = "[''agentAddress'' \<mapsto> ''a'']"
  let ?es = "[EvExpire 4000000000, EvRegister 6000000000 (Inr ?form), EvExpire 10000000000,
        EvRegister 17000000000 (Inr ?form), EvExpire 20000000000]"
  let ?ds = "[7000000000, 5000000000]" and ?url = "''m/agent/register''"
  obtain m' ths' where run: "run_events (service_step demo_snapshot_env) demo_mux service_start ?es = Next m' ths'"
    by (simp add: service_step_def)
  have posts: "autoRegisterAgent ''a'' ''m'' 0 ?ds =
      [(5000000000, ?url, ?form), (12000000000, ?url, ?form), (17000000000, ?url, ?form)]"
    by (simp add: autoRegisterAgent_def auto_register_request_def next_tick_def second_ns_def)
  have "''a'' \<in> dom (sm_reg m')"
    using heartbeat_keeps_listed[OF run, of "''a''" ?ds _ "''m''" 0 7500000000 "[6000000000, 17000000000]", OF _ _ _ posts[symmetric]]
    by (simp add: event_time_def second_ns_def)
  with run show ?thesis by blast
qed

end
