(* ===== verification/Composition.thy ===== *)
theory Composition
  imports Master_Controller
begin

text \<open>
  What the parts promise each other across the remote calls: the registry of an agent keeps the
  type of each session, so that the counter of a session is found under its name in the answer
  of \<^verbatim>\<open>ListCounters\<close>; \<open>agent_at\<close> is a state that an agent can be in while it runs its
  share of a job.
\<close>

subsection \<open>The type of a session object\<close>

lemma obj_Setup_Name: "obj_Setup env ps x = Return (x', err) \<Longrightarrow> obj_Name x' = obj_Name x"
  by (cases x) (auto simp: obj_Setup_def wrap_def obj_Name_def)

lemma obj_step_Name: "obj_step env x u e = Next x' u' \<Longrightarrow> obj_Name x' = obj_Name x"
  by (erule obj_step_cases) (simp_all add: obj_Name_def)

definition registry_typed :: "registry \<Rightarrow> bool" where
  "registry_typed st \<longleftrightarrow> (\<forall>k x. st k = Some x \<longrightarrow> (\<exists>y. SessionMap k = Some y \<and> obj_Name x = obj_Name y))"

lemma registry_typedE:
  assumes "registry_typed st" and "st k = Some x"
  obtains y where "SessionMap k = Some y" "obj_Name x = obj_Name y"
  using assms unfolding registry_typed_def by blast

lemma registry_typed_upd:
  "registry_typed st \<Longrightarrow> st k = Some x \<Longrightarrow> obj_Name x' = obj_Name x \<Longrightarrow> registry_typed (st(k \<mapsto> x'))"
  by (simp add: registry_typed_def)

lemma SessionMap_typed: "registry_typed SessionMap"
  by (simp add: registry_typed_def)

lemma agent_setup_loop_typed:
  "agent_setup_loop env ps names order st = Return (st', err) \<Longrightarrow> registry_typed st \<Longrightarrow> registry_typed st'"
proof (induction env ps names order st arbitrary: st' rule: agent_setup_loop.induct)
  case (2 env ps names n order st)
  show ?case
  proof (cases "n \<in> set names \<and> st n \<noteq> None")
    case False
    then have "agent_setup_loop env ps names order st = Return (st', err)"
      using 2(4) by (auto split: if_splits)
    then show ?thesis using "2.IH"(1,2) False 2(5) by blast
  next
    case True
    then obtain x where x: "st n = Some x" by auto
    then obtain x' e where s: "obj_Setup env ps x = Return (x', e)" using True 2(4) by auto
    have ty: "registry_typed (st(n \<mapsto> x'))"
      by (rule registry_typed_upd[OF 2(5) x obj_Setup_Name[OF s]])
    show ?thesis
    proof (cases e)
      case None
      then have "agent_setup_loop env ps names order (st(n \<mapsto> x')) = Return (st', err)"
        using True x s 2(4) by simp
      with "2.IH"(3)[OF _ x this ty] True show ?thesis by blast
    next
      case (Some err')
      then have "st' = st(n \<mapsto> x')" using True x s 2(4) by simp
      with ty show ?thesis by (simp only:)
    qed
  qed
qed simp

lemma launch_step_Name:
  assumes "launch_step (obj_step env) start result j p (x, swg) r e = Next (x', swg') r'"
  shows "obj_Name x' = obj_Name x"
  using assms
  by (auto simp: launch_step_def execute_session_def split: launch_event.splits if_splits step_result.splits
      thread.splits thread_event.splits user_pc.splits sum.splits option.splits dest: obj_step_Name)

lemma phase_step_typed:
  assumes "phase_step env j n i st ph e = Next st' ph'" and "registry_typed st"
  shows "registry_typed st'"
proof (cases e)
  case PvMain
  with assms show ?thesis
    by (auto simp: phase_step_def phase_launch_def Let_def split: phase_pc.splits if_splits option.splits go.splits)
next
  case (PvRun m le)
  with assms show ?thesis
    by (auto simp: phase_step_def split: if_splits prod.splits option.splits step_result.splits
        intro: registry_typed_upd dest: launch_step_Name)
qed

lemma agent_run_typed:
  assumes "run_events (agent_step env args) st a es = Next st' a'" and "registry_typed st"
  shows "registry_typed st'"
  using assms
proof (induction es arbitrary: st a)
  case (Cons e es)
  then obtain st1 a1 where s: "agent_step env args st a e = Next st1 a1"
    "run_events (agent_step env args) st1 a1 es = Next st' a'"
    by (auto split: step_result.splits)
  have "registry_typed st1"
    using s(1) Cons.prems(2)
    by (cases e) (auto simp: agent_step_def Let_def split: if_splits step_result.splits intro: phase_step_typed)
  with Cons.IH[OF s(2)] show ?case by simp
qed simp

subsection \<open>The counter of a session in the answer of an agent\<close>

definition gauge_key :: "session_obj \<Rightarrow> string option" where
  "gauge_key x =
     (case x of
        OEcho _ \<Rightarrow> Some ''signalrcore:echo:inprogress''
      | OCore _ \<Rightarrow> Some ''signalrcore:broadcast:inprogress''
      | OFx _ \<Rightarrow> Some ''signalrfx:broadcast:inprogress''
      | ORedis _ \<Rightarrow> Some ''redis:pubsub:inprogress''
      | OHttp _ \<Rightarrow> Some ''initiated''
      | OWps _ \<Rightarrow> Some ''webpubsub:echo:inprogress''
      | ORabbit _ \<Rightarrow> Some ''rabbitmq:massive_queue:inprogress''
      | OKafka _ \<Rightarrow> Some ''kafka:producer:inprogress''
      | OPulsar _ \<Rightarrow> None
      | ODummy _ \<Rightarrow> None)"

lemma gauge_key_Name: "obj_Name x = obj_Name y \<Longrightarrow> gauge_key x = gauge_key y"
  by (cases x; cases y) (simp_all add: gauge_key_def obj_Name_def)

lemma instance_key_not_gauge: "gauge_key x = Some key \<Longrightarrow> key \<noteq> cbs_instance_key i"
  by (cases x) (auto simp: gauge_key_def cbs_instance_key_def)

lemma cbs_gauge_value:
  assumes "gauge_key x = Some key" and "cbs_Counters s = Return m"
  shows "cnt_get m key = (if obj_Name (OCore s) = obj_Name x then b_cntInProgress s else 0)"
proof -
  let ?base = "[''signalrcore:broadcast:inprogress'' \<mapsto> b_cntInProgress s,
        ''signalrcore:broadcast:connected'' \<mapsto> b_cntConnected s,
        ''signalrcore:broadcast:success'' \<mapsto> b_cntSuccess s,
        ''signalrcore:broadcast:error'' \<mapsto> b_cntError s,
        ''signalrcore:broadcast:closeerror'' \<mapsto> b_cntCloseError s,
        ''signalrcore:broadcast:messages:recv'' \<mapsto> b_cntMessagesRecv s,
        ''signalrcore:broadcast:messages:send'' \<mapsto> b_cntMessagesSend s,
        ''signalrcore:broadcast:latency:<100'' \<mapsto> b_cntLatencyLessThan100ms s,
        ''signalrcore:broadcast:latency:<500'' \<mapsto> b_cntLatencyLessThan500ms s,
        ''signalrcore:broadcast:latency:<1000'' \<mapsto> b_cntLatencyLessThan1000ms s,
        ''signalrcore:broadcast:latency:>=1000'' \<mapsto> b_cntLatencyMoreThan1000ms s]"
  have "m = cbs_instance_counters 0 (take MaxInstances (b_cntInstances s)) ?base"
    using assms(2) by (simp add: cbs_Counters_def Let_def split: if_splits)
  then have "cnt_get m key = cnt_get ?base key"
    using instance_key_not_gauge[OF assms(1)] by (simp only: cbs_instance_counters_other simp_thms)
  also have "\<dots> = (if obj_Name (OCore s) = obj_Name x then b_cntInProgress s else 0)"
    using assms(1) by (cases x; clarsimp simp: gauge_key_def; simp add: obj_Name_def)
  finally show ?thesis .
qed

lemma gauge_key_value:
  assumes "gauge_key x = Some key" and "obj_Counters y = Return m"
  shows "cnt_get m key = (if obj_Name y = obj_Name x then obj_user_gauge y else 0)"
proof (cases "\<exists>s. y = OCore s")
  case True
  then obtain s where y: "y = OCore s" by blast
  then have "cbs_Counters s = Return m" using assms(2) by (simp add: obj_Counters_def)
  with cbs_gauge_value[OF assms(1)] show ?thesis by (simp add: y obj_user_gauge_def obj_inprogress_def)
next
  case False
  then show ?thesis using assms
    by (cases y; cases x)
      (auto simp: gauge_key_def obj_Name_def obj_user_gauge_def obj_inprogress_def obj_Counters_def echo_Counters_def fx_Counters_def
        redis_Counters_def http_Counters_def wps_Counters_def rabbit_Counters_def kafka_Counters_def
        pulsar_Counters_def dummy_Counters_def)
qed

lemma SessionMap_names_distinct: "distinct (map (\<lambda>k. obj_Name (the (SessionMap k))) SessionNamesList)"
  by (simp add: SessionNamesList_def SessionMap_def obj_Name_def)

lemma SessionMap_inj:
  assumes "SessionMap k = Some x" and "SessionMap k' = Some y" and "obj_Name x = obj_Name y"
  shows "k = k'"
proof -
  have "k \<in> set SessionNamesList" "k' \<in> set SessionNamesList"
    using assms(1,2) dom_SessionMap by blast+
  moreover have "inj_on (\<lambda>k. obj_Name (the (SessionMap k))) (set SessionNamesList)"
    using SessionMap_names_distinct by (simp add: distinct_map)
  ultimately show ?thesis using assms by (metis (no_types, lifting) inj_onD option.sel)
qed

text \<open>What the entries of a job's sessions contribute to one counter.\<close>

definition session_value :: "registry \<Rightarrow> string \<Rightarrow> string \<Rightarrow> int64" where
  "session_value st key n =
     (case st n of None \<Rightarrow> 0 | Some x \<Rightarrow> (case obj_Counters x of Return c \<Rightarrow> cnt_get c key | _ \<Rightarrow> 0))"

lemma list_session_counters_get:
  "list_session_counters st names r = Return m \<Longrightarrow>
     cnt_get m key = cnt_get r key + sum_list (map (session_value st key) names)"
proof (induction st names r rule: list_session_counters.induct)
  case (2 st n ns r)
  then show ?case by (cases "st n") (auto simp: session_value_def)
qed simp

lemma list_session_counters_Return:
  "list_session_counters st names r = Return m \<Longrightarrow> n \<in> set names \<Longrightarrow> st n = Some x \<Longrightarrow> \<exists>c. obj_Counters x = Return c"
  by (induction st names r rule: list_session_counters.induct) (auto split: option.splits)

lemma sum_list_map_zero: "(\<And>x. x \<in> set xs \<Longrightarrow> f x = 0) \<Longrightarrow> sum_list (map f xs) = 0"
  by (induction xs) auto

lemma sum_list_only:
  assumes "distinct xs" and "k \<in> set xs" and "\<And>x. x \<in> set xs \<Longrightarrow> x \<noteq> k \<Longrightarrow> f x = 0"
  shows "sum_list (map f xs) = f k"
  using assms
proof (induction xs)
  case (Cons y ys)
  show ?case
  proof (cases "y = k")
    case True
    then have "sum_list (map f ys) = 0" using Cons.prems(1,3) by (intro sum_list_map_zero) auto
    with True show ?thesis by simp
  next
    case False
    with Cons show ?thesis by auto
  qed
qed simp

lemma system_counters_other: "gauge_key x = Some key \<Longrightarrow> get_system_counters cput key = None"
  by (cases x; clarsimp simp: gauge_key_def get_system_counters_def split: option.splits)

lemma sum_list_swap:
  "sum_list (map (\<lambda>x. sum_list (map (f x) ys)) xs) = sum_list (map (\<lambda>y. sum_list (map (\<lambda>x. f x y) xs)) ys)"
  for f :: "'a \<Rightarrow> 'b \<Rightarrow> 'c :: comm_monoid_add"
  by (induction xs) (simp_all add: sum_list_addf)

text \<open>
  A value \<open>val\<close> of a session that its counters report as the sum of some entries \<open>keys\<close>,
  which no other session has, is found in the answer of the agent.
\<close>

lemma ListCounters_sum:
  assumes typed: "registry_typed st" and names: "distinct names" "k \<in> set names" and k: "SessionMap k = Some x0"
    and val: "\<And>y m. obj_Counters y = Return m \<Longrightarrow>
      sum_list (map (cnt_get m) keys) = (if obj_Name y = obj_Name x0 then val y else 0)"
    and sys: "\<And>key. key \<in> set keys \<Longrightarrow> get_system_counters cput key = None"
    and list: "agent_ListCounters cput st names = Return m"
  shows "sum_list (map (cnt_get m) keys) = store_read val st k"
proof -
  obtain r where r: "list_session_counters st names Map.empty = Return r" "m = r ++ get_system_counters cput"
    using list by (auto simp: agent_ListCounters_def)
  let ?v = "\<lambda>n. sum_list (map (\<lambda>key. session_value st key n) keys)"
  have v: "?v n = (if obj_Name y = obj_Name x0 then val y else 0)" if n: "n \<in> set names" "st n = Some y" for n y
  proof -
    obtain c where "obj_Counters y = Return c" using list_session_counters_Return[OF r(1) n] by blast
    with val[of y c] n(2) show ?thesis by (simp add: session_value_def)
  qed
  have "?v n = 0" if n: "n \<in> set names" "n \<noteq> k" for n
  proof (cases "st n")
    case (Some y)
    obtain y0 where "SessionMap n = Some y0" "obj_Name y = obj_Name y0" by (rule registry_typedE[OF typed Some])
    then have "obj_Name y \<noteq> obj_Name x0" using SessionMap_inj[OF _ k] n(2) by auto
    with v[OF n(1) Some] show ?thesis by simp
  qed (simp add: session_value_def)
  then have "sum_list (map ?v names) = ?v k" by (rule sum_list_only[OF names])
  moreover have "?v k = store_read val st k"
  proof (cases "st k")
    case (Some x)
    then show ?thesis using v[OF names(2) Some] registry_typedE[OF typed Some] k by (fastforce simp: store_read_def)
  qed (simp add: session_value_def store_read_def)
  moreover have "sum_list (map (cnt_get r) keys) = sum_list (map ?v names)"
  proof -
    have "map (cnt_get r) keys = map (\<lambda>key. sum_list (map (session_value st key) names)) keys"
      using list_session_counters_get[OF r(1)] by (intro map_cong refl) simp
    then show ?thesis by (simp only: sum_list_swap[of _ names keys])
  qed
  moreover have "map (cnt_get m) keys = map (cnt_get r) keys"
    using sys by (simp add: r(2) cnt_get_def map_add_def)
  ultimately show ?thesis by (simp only:)
qed

lemma ListCounters_gauge:
  assumes "registry_typed st" and "distinct names" "k \<in> set names"
    and "SessionMap k = Some x0" "gauge_key x0 = Some key" and "agent_ListCounters cput st names = Return m"
  shows "cnt_get m key = store_users st k"
  using ListCounters_sum[OF assms(1-4), of "[key]" obj_user_gauge cput m] gauge_key_value[OF assms(5)]
    system_counters_other[OF assms(5)] assms(6)
  by (simp add: store_read_users)

subsection \<open>An agent at work\<close>

text \<open>
  A state that an agent can be in: its sessions were set up for the job from some registry, and
  then it has run its share of the job for some time.
\<close>

definition run_args :: "job \<Rightarrow> goint \<Rightarrow> goint \<Rightarrow> agent_run_args" where
  "run_args j n i = \<lparr>ra_Job = j, ra_AgentCount = n, ra_AgentIdx = i\<rparr>"

definition agent_at :: "session_env \<Rightarrow> job \<Rightarrow> goint \<Rightarrow> goint \<Rightarrow> registry \<Rightarrow> agent_run \<Rightarrow> bool" where
  "agent_at env j n i st a \<longleftrightarrow>
     (\<exists>order st0 st1 es. registry_typed st0 \<and> set order = dom st0
        \<and> agent_Setup env order (SessionNames j) (SessionParams j) st0 = Return (st1, None)
        \<and> run_events (agent_step env (run_args j n i)) st1 agent_start es = Next st a)"

lemma agent_atE:
  assumes "agent_at env j n i st a"
  obtains order st0 st1 es where "registry_typed st0" "set order = dom st0"
    "agent_Setup env order (SessionNames j) (SessionParams j) st0 = Return (st1, None)"
    "run_events (agent_step env (run_args j n i)) st1 agent_start es = Next st a"
  using assms unfolding agent_at_def by blast

lemma agent_at_start:
  assumes "registry_typed st0" and "set order = dom st0"
    and "agent_Setup env order (SessionNames j) (SessionParams j) st0 = Return (st, None)"
  shows "agent_at env j n i st agent_start"
proof -
  have "run_events (agent_step env (run_args j n i)) st agent_start [] = Next st agent_start" by simp
  with assms show ?thesis unfolding agent_at_def by blast
qed

lemma agent_at_step:
  assumes "agent_at env j n i st a" and "agent_step env (run_args j n i) st a e = Next st' a'"
  shows "agent_at env j n i st' a'"
proof (rule agent_atE[OF assms(1)])
  fix order st0 st1 es
  assume st0: "registry_typed st0" "set order = dom st0"
    and up: "agent_Setup env order (SessionNames j) (SessionParams j) st0 = Return (st1, None)"
    and run: "run_events (agent_step env (run_args j n i)) st1 agent_start es = Next st a"
  have "run_events (agent_step env (run_args j n i)) st1 agent_start (es @ [e]) = Next st' a'"
    using run assms(2) by (simp add: run_events_append)
  with st0 up show ?thesis unfolding agent_at_def by blast
qed

lemma agent_at_inv: "agent_at env j n i st a \<Longrightarrow> agent_inv (run_args j n i) a"
  by (erule agent_atE) (rule agent_reach_inv)

lemma agent_at_typed: "agent_at env j n i st a \<Longrightarrow> registry_typed st"
  by (erule agent_atE) (auto simp: agent_Setup_def dest: agent_setup_loop_typed agent_run_typed)

lemma agent_at_gauge:
  assumes "agent_at env j n i st a" and "k \<in> set (SessionNames j)"
  shows "store_users st k = word_of_nat (agent_active k a)"
    "ar_phases a \<noteq> [] \<Longrightarrow> int (agent_active k a) \<le> phase_users k (last (ar_phases a))"
  using assms agent_gauge[where args = "run_args j n i"]
  by (force simp: run_args_def elim!: agent_atE)+

lemma agent_at_returned:
  assumes "agent_at env j n i st a" and "ar_returned a"
  shows "agent_active k a = 0"
proof -
  have "phase_active k ph = 0" if ph: "ph \<in> set (ar_phases a)" for ph
  proof -
    obtain m where "m < length (ar_phases a)" "ph = ar_phases a ! m" using ph by (auto simp: in_set_conv_nth)
    with agent_at_inv[OF assms(1)] assms(2) show ?thesis by (auto simp: agent_inv_def intro!: phase_returned_active)
  qed
  then show ?thesis by (simp add: agent_active_def)
qed

lemma agent_at_listed:
  assumes "agent_at env j n i st a" and "distinct (SessionNames j)" and "k \<in> set (SessionNames j)"
    and "SessionMap k = Some x" and "gauge_key x = Some key"
    and "agent_ListCounters cput st (SessionNames j) = Return m"
  shows "cnt_get m key = word_of_nat (agent_active k a)"
  using ListCounters_gauge[OF agent_at_typed[OF assms(1)] assms(2-6)] agent_at_gauge(1)[OF assms(1,3)] by simp

lemma phase_users_unlaunched:
  assumes "phase_inv j n i ph" and "distinct (SessionNames j)" and "s < length (SessionNames j)"
    and "length (ph_runs ph) \<le> s"
  shows "phase_users (SessionNames j ! s) ph = 0"
proof -
  have "fst nr \<noteq> SessionNames j ! s" if nr: "nr \<in> set (ph_runs ph)" for nr
  proof -
    obtain m where "m < length (ph_runs ph)" "nr = ph_runs ph ! m" using nr by (auto simp: in_set_conv_nth)
    then show ?thesis using assms by (auto simp: phase_inv_def slot_ok_def nth_eq_iff_index_eq)
  qed
  then show ?thesis by (auto simp: phase_users_def intro!: sum_list_map_zero)
qed

lemma agent_at_share:
  assumes at: "agent_at env j n i st a" and names: "distinct (SessionNames j)" "s < length (SessionNames j)"
    and phase: "ar_phases a = [] \<or> ph_phase (last (ar_phases a)) = p"
    and share: "get_session_users p (SessionPercentages j ! s) n i = Some (Return u)" "0 \<le> sint u"
  shows "int (agent_active (SessionNames j ! s) a) \<le> sint u"
proof (cases "ar_phases a = []")
  case True
  with share(2) show ?thesis by (simp add: agent_active_def)
next
  case False
  let ?k = "SessionNames j ! s" and ?ph = "last (ar_phases a)"
  have inv: "phase_inv j n i ?ph" using agent_last_inv[OF agent_at_inv[OF at] False] by (simp add: run_args_def)
  have "phase_users ?k ?ph \<le> sint u"
  proof (cases "s < length (ph_runs ?ph)")
    case True
    have "get_session_users p (SessionPercentages j ! s) n i = Some (Return (run_users (snd (ph_runs ?ph ! s))))"
      using inv True phase False by (auto simp: phase_inv_def slot_ok_def)
    with phase_users_distinct[OF inv names(1) True] share(1) show ?thesis by simp
  next
    case False
    with phase_users_unlaunched[OF inv names] share(2) show ?thesis by simp
  qed
  with agent_at_gauge(2)[OF at nth_mem[OF names(2)] False] show ?thesis by simp
qed

text \<open>The aggregators of the sessions leave the gauges as the sum of what the agents answered.\<close>

lemma gauge_collected:
  assumes "collectCounters j clock answers = Return m" and "gauge_key x = Some key"
  shows "cnt_get m key = sum_list (map (\<lambda>a. answered a key) answers)"
proof -
  have "key \<noteq> ''rps''" using assms(2) by (cases x) (auto simp: gauge_key_def)
  with aggregate_sessions_keeps[OF assms(1)[unfolded collectCounters_def]]
  have "m key = collect_agents answers Map.empty key" by simp
  then show ?thesis using collect_agents_get[of answers Map.empty key] by (simp add: cnt_get_def)
qed

end
