(* ===== verification/System.thy ===== *)
theory System
  imports Composition
begin

text \<open>
  The whole system during one job: a master and its agents as one transition system. A remote
  call of the master is an event in which the agent serves it and the master gets its answer:
  \<^verbatim>\<open>Setup\<close>, \<^verbatim>\<open>Run\<close> (which begins with one event and returns with another, with
  the steps of the agent's goroutines between them) and \<^verbatim>\<open>ListCounters\<close>, which the main
  line and the watcher ask one agent after the other. A panic ends the process of an agent; the
  connection of a call may be lost at any time, also when the agent goes on.
\<close>

subsection \<open>State\<close>

record agent_node =
  nd_up :: bool
  nd_registry :: registry
  nd_run :: "agent_run option"

record system =
  sy_master :: master_run
  sy_nodes :: "agent_node list"
  sy_main :: "(goerror + counters) list"
  sy_watch :: "(goerror + counters) list"

text \<open>\<open>sy_main\<close> and \<open>sy_watch\<close> are the answers of the agents asked so far by each caller of \<^verbatim>\<open>collectCounters\<close>.\<close>

datatype asker = AskMain | AskWatch

datatype system_event =
    SyMaster master_event
  | SySetup nat "string list"
  | SyCall nat
  | SyAgent nat agent_event
  | SyReturn nat
  | SyLost nat goerror
  | SyAsk asker "goerror + cpu_times option"
  | SyCollect "nat \<Rightarrow> gotime"
  | SyTick "nat \<Rightarrow> gotime"

subsection \<open>Steps\<close>

text \<open>What a client of \<^verbatim>\<open>net/rpc\<close> returns when the connection is closed during a call.\<close>

definition eof_error :: goerror where
  "eof_error = ''unexpected EOF''"

definition system_start :: "job \<Rightarrow> registry list \<Rightarrow> system" where
  "system_start j regs =
     \<lparr>sy_master = master_start j, sy_nodes = map (\<lambda>reg. \<lparr>nd_up = True, nd_registry = reg, nd_run = None\<rparr>) regs,
      sy_main = [], sy_watch = []\<rparr>"

definition master_next :: "system \<Rightarrow> (world, master_run) step_result \<Rightarrow> (world, system) step_result" where
  "master_next sy r =
     (case r of Next w m \<Rightarrow> Next w (sy\<lparr>sy_master := m\<rparr>) | Crash p \<Rightarrow> Crash p | Disabled \<Rightarrow> Disabled)"

definition node_update :: "nat \<Rightarrow> agent_node \<Rightarrow> system \<Rightarrow> system" where
  "node_update i nd sy = sy\<lparr>sy_nodes := (sy_nodes sy)[i := nd]\<rparr>"

text \<open>The events of the master that involve no agent; the watcher leaves its loop only between two ticks.\<close>

definition internal :: "system \<Rightarrow> master_event \<Rightarrow> bool" where
  "internal sy e =
     (case e of
        MvSetup _ _ \<Rightarrow> False
      | MvRun _ _ \<Rightarrow> False
      | MvCollect _ _ \<Rightarrow> False
      | WvTick _ _ \<Rightarrow> False
      | WvStop \<Rightarrow> sy_watch sy = []
      | _ \<Rightarrow> True)"

definition serve_setup ::
  "snapshot_env \<Rightarrow> session_env \<Rightarrow> master_controller \<Rightarrow> world \<Rightarrow> system \<Rightarrow> nat \<Rightarrow> string list \<Rightarrow> (world, system) step_result" where
  "serve_setup se env c w sy i order =
     (let m = sy_master sy; nd = sy_nodes sy ! i in
      if nd_up nd \<and> mset order = mset SessionNamesList then
        (case agent_Setup env order (SessionNames (mr_job m)) (SessionParams (mr_job m)) (nd_registry nd) of
           Return (reg, err) \<Rightarrow>
             master_next (node_update i (nd\<lparr>nd_registry := reg\<rparr>) sy) (master_step se c w m (MvSetup i err))
         | _ \<Rightarrow> master_next (node_update i (nd\<lparr>nd_up := False\<rparr>) sy) (master_step se c w m (MvSetup i (Some eof_error))))
      else Disabled)"

definition serve_agent ::
  "session_env \<Rightarrow> master_controller \<Rightarrow> world \<Rightarrow> system \<Rightarrow> nat \<Rightarrow> agent_event \<Rightarrow> (world, system) step_result" where
  "serve_agent env c w sy i e =
     (let nd = sy_nodes sy ! i in
      case nd_run nd of
        None \<Rightarrow> Disabled
      | Some a \<Rightarrow>
          if nd_up nd then
            (case agent_step env (run_args (mr_job (sy_master sy)) (word_of_nat (length (mc_Agents c))) (word_of_nat i))
                    (nd_registry nd) a e of
               Next reg a' \<Rightarrow> Next w (node_update i (nd\<lparr>nd_registry := reg, nd_run := Some a'\<rparr>) sy)
             | Crash p \<Rightarrow> Next w (node_update i (nd\<lparr>nd_up := False\<rparr>) sy)
             | Disabled \<Rightarrow> Disabled)
          else Disabled)"

text \<open>One iteration of the loop of \<^verbatim>\<open>collectCounters\<close>: the next agent is asked for its counters.\<close>

definition asked :: "system \<Rightarrow> asker \<Rightarrow> (goerror + counters) list" where
  "asked sy who = (case who of AskMain \<Rightarrow> sy_main sy | AskWatch \<Rightarrow> sy_watch sy)"

definition asking :: "system \<Rightarrow> asker \<Rightarrow> bool" where
  "asking sy who =
     (case who of AskMain \<Rightarrow> mr_pc (sy_master sy) = MCollect | AskWatch \<Rightarrow> mr_watch (sy_master sy) = WatchSelect)"

definition add_answer :: "asker \<Rightarrow> goerror + counters \<Rightarrow> system \<Rightarrow> system" where
  "add_answer who a sy =
     (case who of AskMain \<Rightarrow> sy\<lparr>sy_main := sy_main sy @ [a]\<rparr> | AskWatch \<Rightarrow> sy\<lparr>sy_watch := sy_watch sy @ [a]\<rparr>)"

definition serve_ask :: "world \<Rightarrow> system \<Rightarrow> asker \<Rightarrow> goerror + cpu_times option \<Rightarrow> (world, system) step_result" where
  "serve_ask w sy who res =
     (let i = length (asked sy who); nd = sy_nodes sy ! i in
      if asking sy who \<and> i < length (sy_nodes sy) then
        (case res of
           Inl err \<Rightarrow> Next w (add_answer who (Inl err) sy)
         | Inr cput \<Rightarrow>
             if nd_up nd then
               (case agent_ListCounters cput (nd_registry nd) (SessionNames (mr_job (sy_master sy))) of
                  Return cs \<Rightarrow> Next w (add_answer who (Inr cs) sy)
                | _ \<Rightarrow> Next w (add_answer who (Inl eof_error) (node_update i (nd\<lparr>nd_up := False\<rparr>) sy)))
             else Disabled)
      else Disabled)"

definition system_step ::
  "snapshot_env \<Rightarrow> (nat \<Rightarrow> session_env) \<Rightarrow> master_controller \<Rightarrow> world \<Rightarrow> system \<Rightarrow> system_event \<Rightarrow> (world, system) step_result" where
  "system_step se envs c w sy e =
     (let m = sy_master sy; nodes = sy_nodes sy in
      case e of
        SyMaster me \<Rightarrow> if internal sy me then master_next sy (master_step se c w m me) else Disabled
      | SySetup i order \<Rightarrow>
          if i < length nodes \<and> i < length (mr_setup m) \<and> \<not> mr_setup m ! i
          then serve_setup se (envs i) c w sy i order else Disabled
      | SyCall i \<Rightarrow>
          if i < length nodes \<and> i < length (mr_calls m) \<and> nd_up (nodes ! i) \<and> nd_run (nodes ! i) = None
          then Next w (node_update i ((nodes ! i)\<lparr>nd_run := Some agent_start\<rparr>) sy) else Disabled
      | SyAgent i ae \<Rightarrow> if i < length nodes then serve_agent (envs i) c w sy i ae else Disabled
      | SyReturn i \<Rightarrow>
          if i < length nodes \<and> nd_up (nodes ! i) \<and> (\<exists>a \<in> set_option (nd_run (nodes ! i)). ar_returned a)
          then master_next sy (master_step se c w m (MvRun i None)) else Disabled
      | SyLost i err \<Rightarrow> master_next sy (master_step se c w m (MvRun i (Some err)))
      | SyAsk who res \<Rightarrow> serve_ask w sy who res
      | SyCollect clock \<Rightarrow> master_next sy (master_step se c w m (MvCollect (sy_main sy) clock))
      | SyTick clock \<Rightarrow> master_next (sy\<lparr>sy_watch := []\<rparr>) (master_step se c w m (WvTick (sy_watch sy) clock)))"

text \<open>The states that the system can reach with events of \<open>ok\<close>, from idle agents and any world.\<close>

definition fresh_registry :: "registry \<Rightarrow> bool" where
  "fresh_registry reg \<longleftrightarrow> registry_typed reg \<and> dom reg = dom SessionMap"

inductive system_reach ::
  "snapshot_env \<Rightarrow> (nat \<Rightarrow> session_env) \<Rightarrow> master_controller \<Rightarrow> job \<Rightarrow> (system_event \<Rightarrow> bool) \<Rightarrow> world \<Rightarrow> system \<Rightarrow> bool"
  for se envs c j ok where
  start: "length regs = length (mc_Agents c) \<Longrightarrow> list_all fresh_registry regs \<Longrightarrow>
    system_reach se envs c j ok w (system_start j regs)"
| step: "system_reach se envs c j ok w sy \<Longrightarrow> ok e \<Longrightarrow> system_step se envs c w sy e = Next w' sy' \<Longrightarrow>
    system_reach se envs c j ok w' sy'"

subsection \<open>Case analysis of a step\<close>

lemma master_next_Next: "master_next sy r = Next w sy' \<longleftrightarrow> (\<exists>m. r = Next w m \<and> sy' = sy\<lparr>sy_master := m\<rparr>)"
  by (auto simp: master_next_def split: step_result.splits)

lemma setup_succeeded: "master_step se c w m (MvSetup i res) = Next w' m' \<Longrightarrow> res = None"
  by (cases res) (simp_all add: master_step_def call_step_def split: if_splits)

lemma serve_setup_Next:
  assumes "serve_setup se env c w sy i order = Next w' sy'"
  obtains reg m where "set order = dom SessionMap"
    "agent_Setup env order (SessionNames (mr_job (sy_master sy))) (SessionParams (mr_job (sy_master sy)))
       (nd_registry (sy_nodes sy ! i)) = Return (reg, None)"
    "master_step se c w (sy_master sy) (MvSetup i None) = Next w' m"
    "sy' = (node_update i ((sy_nodes sy ! i)\<lparr>nd_registry := reg\<rparr>) sy)\<lparr>sy_master := m\<rparr>"
proof -
  obtain reg err m where up: "agent_Setup env order (SessionNames (mr_job (sy_master sy)))
      (SessionParams (mr_job (sy_master sy))) (nd_registry (sy_nodes sy ! i)) = Return (reg, err)"
    and o: "mset order = mset SessionNamesList"
    and m: "master_step se c w (sy_master sy) (MvSetup i err) = Next w' m"
      "sy' = (node_update i ((sy_nodes sy ! i)\<lparr>nd_registry := reg\<rparr>) sy)\<lparr>sy_master := m\<rparr>"
    using assms by (fastforce simp: serve_setup_def Let_def master_next_Next split: if_splits go.splits dest: setup_succeeded)
  have "set order = dom SessionMap" using mset_eq_setD[OF o] dom_SessionMap by simp
  with that up m setup_succeeded[OF m(1)] show thesis by simp
qed

lemma system_step_cases:
  assumes "system_step se envs c w sy e = Next w' sy'"
  obtains (internal) me m where "internal sy me" "master_step se c w (sy_master sy) me = Next w' m"
      "sy' = sy\<lparr>sy_master := m\<rparr>"
  | (setup_agent) i order reg m where "i < length (sy_nodes sy)" "set order = dom SessionMap"
      "agent_Setup (envs i) order (SessionNames (mr_job (sy_master sy))) (SessionParams (mr_job (sy_master sy)))
         (nd_registry (sy_nodes sy ! i)) = Return (reg, None)"
      "i < length (mr_setup (sy_master sy))" "\<not> mr_setup (sy_master sy) ! i"
      "master_step se c w (sy_master sy) (MvSetup i None) = Next w' m"
      "sy' = (node_update i ((sy_nodes sy ! i)\<lparr>nd_registry := reg\<rparr>) sy)\<lparr>sy_master := m\<rparr>"
  | (call) i where "i < length (sy_nodes sy)" "i < length (mr_calls (sy_master sy))" "nd_run (sy_nodes sy ! i) = None"
      "sy' = node_update i ((sy_nodes sy ! i)\<lparr>nd_run := Some agent_start\<rparr>) sy"
  | (agent) i a ae reg a' where "i < length (sy_nodes sy)" "nd_run (sy_nodes sy ! i) = Some a"
      "agent_step (envs i) (run_args (mr_job (sy_master sy)) (word_of_nat (length (mc_Agents c))) (word_of_nat i))
         (nd_registry (sy_nodes sy ! i)) a ae = Next reg a'"
      "sy' = node_update i ((sy_nodes sy ! i)\<lparr>nd_registry := reg, nd_run := Some a'\<rparr>) sy"
  | (down) i where "i < length (sy_nodes sy)" "sy' = node_update i ((sy_nodes sy ! i)\<lparr>nd_up := False\<rparr>) sy"
  | (finished) i a m where "i < length (sy_nodes sy)" "nd_run (sy_nodes sy ! i) = Some a" "ar_returned a"
      "master_step se c w (sy_master sy) (MvRun i None) = Next w' m" "sy' = sy\<lparr>sy_master := m\<rparr>"
  | (lost) i err m where "e = SyLost i err" "master_step se c w (sy_master sy) (MvRun i (Some err)) = Next w' m"
      "sy' = sy\<lparr>sy_master := m\<rparr>"
  | (answer) who cput cs where "asking sy who" "length (asked sy who) < length (sy_nodes sy)"
      "agent_ListCounters cput (nd_registry (sy_nodes sy ! length (asked sy who))) (SessionNames (mr_job (sy_master sy))) = Return cs"
      "sy' = add_answer who (Inr cs) sy"
  | (no_answer) who err sy1 where "asking sy who" "length (asked sy who) < length (sy_nodes sy)"
      "sy' = add_answer who (Inl err) sy1"
      "sy1 = sy \<or> (\<exists>i < length (sy_nodes sy). sy1 = node_update i ((sy_nodes sy ! i)\<lparr>nd_up := False\<rparr>) sy)"
  | (collect) clock m where "master_step se c w (sy_master sy) (MvCollect (sy_main sy) clock) = Next w' m"
      "sy' = sy\<lparr>sy_master := m\<rparr>"
  | (tick) clock m where "master_step se c w (sy_master sy) (WvTick (sy_watch sy) clock) = Next w' m"
      "sy' = sy\<lparr>sy_watch := [], sy_master := m\<rparr>"
proof (cases e)
  case (SyMaster me)
  with assms internal[of me] show ?thesis by (auto simp: system_step_def Let_def master_next_Next split: if_splits)
next
  case (SySetup i order)
  with assms have s: "serve_setup se (envs i) c w sy i order = Next w' sy'"
    and i: "i < length (sy_nodes sy)" "i < length (mr_setup (sy_master sy))" "\<not> mr_setup (sy_master sy) ! i"
    by (auto simp: system_step_def Let_def split: if_splits)
  from serve_setup_Next[OF s] setup_agent[OF i(1) _ _ i(2,3)] show ?thesis by metis
next
  case (SyCall i)
  with assms call[of i] show ?thesis by (auto simp: system_step_def Let_def split: if_splits)
next
  case (SyAgent i ae)
  with assms have s: "serve_agent (envs i) c w sy i ae = Next w' sy'" and i: "i < length (sy_nodes sy)"
    by (auto simp: system_step_def Let_def split: if_splits)
  from s show ?thesis
    by (auto simp: serve_agent_def Let_def split: option.splits if_splits step_result.splits intro: agent[OF i] down[OF i])
next
  case (SyReturn i)
  with assms finished[of i] show ?thesis by (auto simp: system_step_def Let_def master_next_Next split: if_splits)
next
  case (SyLost i err)
  with assms lost[of i err] show ?thesis by (auto simp: system_step_def Let_def master_next_Next)
next
  case (SyAsk who res)
  with assms have s: "serve_ask w sy who res = Next w' sy'" by (simp add: system_step_def Let_def)
  then have i: "asking sy who" "length (asked sy who) < length (sy_nodes sy)"
    by (auto simp: serve_ask_def Let_def split: if_splits)
  from s show ?thesis
    by (auto simp: serve_ask_def Let_def split: sum.splits if_splits go.splits intro: answer[OF i] no_answer[OF i])
next
  case (SyCollect clock)
  with assms collect[of clock] show ?thesis by (auto simp: system_step_def Let_def master_next_Next)
next
  case (SyTick clock)
  with assms tick[of clock] show ?thesis by (auto simp: system_step_def Let_def master_next_Next)
qed

subsection \<open>The agents and the master's view of them\<close>

definition setup_done :: "master_run \<Rightarrow> nat \<Rightarrow> bool" where
  "setup_done m i \<longleftrightarrow> i < length (mr_setup m) \<and> mr_setup m ! i"

abbreviation agent_count :: "master_controller \<Rightarrow> goint" where
  "agent_count c \<equiv> word_of_nat (length (mc_Agents c))"

definition node_ok :: "(nat \<Rightarrow> session_env) \<Rightarrow> master_controller \<Rightarrow> master_run \<Rightarrow> nat \<Rightarrow> agent_node \<Rightarrow> bool" where
  "node_ok envs c m i nd \<longleftrightarrow>
     (\<forall>a. nd_run nd = Some a \<longrightarrow>
        i < length (mr_calls m) \<and> agent_at (envs i) (mr_job m) (agent_count c) (word_of_nat i) (nd_registry nd) a)
     \<and> (nd_run nd = None \<and> setup_done m i \<longrightarrow>
        agent_at (envs i) (mr_job m) (agent_count c) (word_of_nat i) (nd_registry nd) agent_start)
     \<and> (\<not> setup_done m i \<longrightarrow> fresh_registry (nd_registry nd))"

definition linked :: "(nat \<Rightarrow> session_env) \<Rightarrow> master_controller \<Rightarrow> job \<Rightarrow> system \<Rightarrow> bool" where
  "linked envs c j sy \<longleftrightarrow>
     master_inv c (sy_master sy) \<and> length (sy_nodes sy) = length (mc_Agents c)
     \<and> (\<exists>now. mr_job (sy_master sy) = j\<lparr>StartTime := now\<rparr>)
     \<and> (\<forall>i < length (sy_nodes sy). node_ok envs c (sy_master sy) i (sy_nodes sy ! i))"

lemma linked_nodeD: "linked envs c j sy \<Longrightarrow> i < length (sy_nodes sy) \<Longrightarrow> node_ok envs c (sy_master sy) i (sy_nodes sy ! i)"
  by (simp add: linked_def)

lemma node_typed:
  assumes "node_ok envs c m i nd"
  shows "registry_typed (nd_registry nd)"
  using assms agent_at_typed by (cases "nd_run nd") (auto simp: node_ok_def fresh_registry_def)

lemma calls_setup_done:
  assumes "master_inv c m" and "i < length (mr_calls m)"
  shows "setup_done m i"
  using assms by (cases "mr_pc m") (auto simp: master_inv_def calls_inv_def agents_done_def setup_done_def list_all_length)

text \<open>What the events of the master keep of what the nodes depend on.\<close>

lemma master_step_frame:
  assumes "master_step se c w m e = Next w' m'" and "master_inv c m" and "\<And>i res. e \<noteq> MvSetup i res"
  shows "mr_job m' = mr_job m \<and> mr_setup m' = mr_setup m \<and> length (mr_calls m) \<le> length (mr_calls m')
    \<or> (\<exists>now. mr_job m' = (mr_job m)\<lparr>StartTime := now\<rparr>) \<and> (\<forall>i. \<not> setup_done m i \<and> \<not> setup_done m' i)
        \<and> mr_calls m = []"
  using assms
  by (cases "mr_pc m"; cases e)
    (auto simp: master_step_defs master_inv_def setup_done_def split: if_splits option.splits watch_pc.splits go.splits)

lemma node_ok_frame:
  assumes "node_ok envs c m i nd" and "master_step se c w m e = Next w' m'" and "master_inv c m" and "\<And>i res. e \<noteq> MvSetup i res"
  shows "node_ok envs c m' i nd"
  using assms(1) master_step_frame[OF assms(2-4)] by (auto simp: node_ok_def setup_done_def)

lemma linked_master:
  assumes "linked envs c j sy" and "master_step se c w (sy_master sy) e = Next w' m" and "\<And>i res. e \<noteq> MvSetup i res"
  shows "linked envs c j (sy\<lparr>sy_master := m\<rparr>)"
proof -
  have inv: "master_inv c (sy_master sy)" using assms(1) by (simp add: linked_def)
  have "\<exists>now. mr_job m = j\<lparr>StartTime := now\<rparr>"
    using master_step_frame[OF assms(2) inv assms(3)] assms(1) by (auto simp: linked_def)
  with master_step_inv[OF assms(2) inv] node_ok_frame[OF _ assms(2) inv assms(3)] assms(1) show ?thesis
    by (auto simp: linked_def)
qed

lemma linked_node:
  assumes "linked envs c j sy" and "i < length (sy_nodes sy)" and "node_ok envs c (sy_master sy) i nd"
  shows "linked envs c j (node_update i nd sy)"
  using assms by (auto simp: linked_def node_update_def nth_list_update)

lemma linked_cong:
  "sy_master sy' = sy_master sy \<Longrightarrow> sy_nodes sy' = sy_nodes sy \<Longrightarrow> linked envs c j sy' = linked envs c j sy"
  by (simp add: linked_def)

lemma add_answer_simps [simp]:
  "sy_master (add_answer who a sy) = sy_master sy" "sy_nodes (add_answer who a sy) = sy_nodes sy"
  by (simp_all add: add_answer_def split: asker.splits)

lemma node_update_simps [simp]:
  "sy_master (node_update i nd sy) = sy_master sy" "sy_nodes (node_update i nd sy) = (sy_nodes sy)[i := nd]"
  "sy_main (node_update i nd sy) = sy_main sy" "sy_watch (node_update i nd sy) = sy_watch sy"
  by (simp_all add: node_update_def)

lemma node_ok_down: "node_ok envs c m i nd \<Longrightarrow> node_ok envs c m i (nd\<lparr>nd_up := False\<rparr>)"
  by (simp add: node_ok_def)

lemma linked_setup:
  assumes inv: "linked envs c j sy" and i: "i < length (sy_nodes sy)" and order: "set order = dom SessionMap"
    and up: "agent_Setup (envs i) order (SessionNames (mr_job (sy_master sy))) (SessionParams (mr_job (sy_master sy)))
         (nd_registry (sy_nodes sy ! i)) = Return (reg, None)"
    and new: "\<not> mr_setup (sy_master sy) ! i"
    and m: "master_step se c w (sy_master sy) (MvSetup i None) = Next w' m"
  shows "linked envs c j ((node_update i ((sy_nodes sy ! i)\<lparr>nd_registry := reg\<rparr>) sy)\<lparr>sy_master := m\<rparr>)"
proof -
  have m': "m = (sy_master sy)\<lparr>mr_setup := (mr_setup (sy_master sy))[i := True]\<rparr>" "i < length (mr_setup (sy_master sy))"
    using m by (auto simp: master_step_defs split: if_splits)
  have ok: "node_ok envs c (sy_master sy) i (sy_nodes sy ! i)" using linked_nodeD[OF inv i] .
  have nd: "\<not> setup_done (sy_master sy) i" using new by (simp add: setup_done_def)
  have minv: "master_inv c (sy_master sy)" using inv by (simp add: linked_def)
  have idle: "nd_run (sy_nodes sy ! i) = None"
    using ok nd calls_setup_done[OF minv] by (cases "nd_run (sy_nodes sy ! i)") (auto simp: node_ok_def)
  have "fresh_registry (nd_registry (sy_nodes sy ! i))" using ok nd by (simp add: node_ok_def)
  then have "agent_at (envs i) (mr_job (sy_master sy)) (agent_count c) (word_of_nat i) reg agent_start"
    using agent_at_start[OF _ _ up] order by (simp add: fresh_registry_def)
  then have "node_ok envs c m i ((sy_nodes sy ! i)\<lparr>nd_registry := reg\<rparr>)"
    using idle m'(2) by (simp add: node_ok_def m' setup_done_def)
  moreover have "node_ok envs c m k nd" if "node_ok envs c (sy_master sy) k nd" "k \<noteq> i" for k nd
    using that by (simp add: node_ok_def m' setup_done_def)
  ultimately show ?thesis
    using inv i master_step_inv[OF m minv] by (auto simp: linked_def nth_list_update m'(1))
qed

lemma linked_begin:
  assumes inv: "linked envs c j sy" and i: "i < length (sy_nodes sy)" "i < length (mr_calls (sy_master sy))"
    and idle: "nd_run (sy_nodes sy ! i) = None"
  shows "linked envs c j (node_update i ((sy_nodes sy ! i)\<lparr>nd_run := Some agent_start\<rparr>) sy)"
proof (rule linked_node[OF inv i(1)])
  have "master_inv c (sy_master sy)" using inv by (simp add: linked_def)
  then show "node_ok envs c (sy_master sy) i ((sy_nodes sy ! i)\<lparr>nd_run := Some agent_start\<rparr>)"
    using linked_nodeD[OF inv i(1)] calls_setup_done[of c _ i] i(2) idle by (simp add: node_ok_def)
qed

lemma linked_agent:
  assumes inv: "linked envs c j sy" and i: "i < length (sy_nodes sy)" and run: "nd_run (sy_nodes sy ! i) = Some a"
    and step: "agent_step (envs i) (run_args (mr_job (sy_master sy)) (agent_count c) (word_of_nat i))
      (nd_registry (sy_nodes sy ! i)) a e = Next reg a'"
  shows "linked envs c j (node_update i ((sy_nodes sy ! i)\<lparr>nd_registry := reg, nd_run := Some a'\<rparr>) sy)"
proof (rule linked_node[OF inv i])
  have "master_inv c (sy_master sy)" using inv by (simp add: linked_def)
  then show "node_ok envs c (sy_master sy) i ((sy_nodes sy ! i)\<lparr>nd_registry := reg, nd_run := Some a'\<rparr>)"
    using linked_nodeD[OF inv i] calls_setup_done[of c _ i] run agent_at_step[OF _ step]
    by (simp add: node_ok_def)
qed

lemma linked_step:
  assumes step: "system_step se envs c w sy e = Next w' sy'" and inv: "linked envs c j sy"
  shows "linked envs c j sy'"
  using step
proof (cases rule: system_step_cases)
  case (internal me m)
  then have "\<And>i res. me \<noteq> MvSetup i res" by (auto simp: internal_def)
  with linked_master[OF inv internal(2)] internal(3) show ?thesis by simp
next
  case (setup_agent i order reg m)
  with linked_setup[OF inv] show ?thesis by simp
next
  case (call i)
  with linked_begin[OF inv] show ?thesis by simp
next
  case (agent i a ae reg a')
  with linked_agent[OF inv] show ?thesis by simp
next
  case (down i)
  with linked_node[OF inv down(1) node_ok_down] linked_nodeD[OF inv] show ?thesis by simp
next
  case (finished i a m)
  with linked_master[OF inv finished(4)] show ?thesis by simp
next
  case (lost i err m)
  with linked_master[OF inv lost(2)] show ?thesis by simp
next
  case (answer who cput cs)
  with inv linked_cong[of sy' sy] show ?thesis by simp
next
  case (no_answer who err sy1)
  have "linked envs c j sy1"
    using no_answer(4) inv linked_node[OF inv _ node_ok_down] linked_nodeD[OF inv] by auto
  with linked_cong[of sy' sy1] no_answer(3) show ?thesis by simp
next
  case (collect clock m)
  with linked_master[OF inv collect(1)] show ?thesis by simp
next
  case (tick clock m)
  have "linked envs c j (sy\<lparr>sy_master := m\<rparr>)" using linked_master[OF inv tick(1)] by simp
  with linked_cong[of sy' "sy\<lparr>sy_master := m\<rparr>"] tick(2) show ?thesis by simp
qed

lemma system_reach_linked:
  assumes "system_reach se envs c j ok w sy"
  shows "linked envs c j sy"
  using assms
proof (induction rule: system_reach.induct)
  case (start regs w)
  have "mr_job (master_start j) = j\<lparr>StartTime := StartTime j\<rparr>" by (simp add: master_start_def)
  then have "\<exists>now. mr_job (master_start j) = j\<lparr>StartTime := now\<rparr>" by (rule exI)
  then show ?case using start
    by (auto simp: linked_def system_start_def node_ok_def setup_done_def master_start_def list_all_length
        master_inv_def)
next
  case (step w sy e w' sy')
  with linked_step show ?case by blast
qed

subsection \<open>The gauge of a session in the collected counters\<close>

lemma sum_answers_bound:
  assumes "list_all (\<lambda>a. 0 \<le> sint (answered a key) \<and> sint (answered a key) \<le> B) as"
    and "int (length as) * B < 2 ^ 63"
  shows "0 \<le> sint (sum_list (map (\<lambda>a. answered a key) as))
    \<and> sint (sum_list (map (\<lambda>a. answered a key) as)) \<le> int (length as) * B"
  using assms
proof (induction as)
  case (Cons a as)
  have B: "0 \<le> B" using Cons.prems(1) by auto
  then have "int (length as) * B < 2 ^ 63"
    using Cons.prems(2) by (simp add: algebra_simps)
  with Cons have IH: "0 \<le> sint (sum_list (map (\<lambda>a. answered a key) as))"
    "sint (sum_list (map (\<lambda>a. answered a key) as)) \<le> int (length as) * B"
    by auto
  have "sint (answered a key + sum_list (map (\<lambda>a. answered a key) as)) =
      sint (answered a key) + sint (sum_list (map (\<lambda>a. answered a key) as))"
    using IH Cons.prems by (intro sint_add_exact) (auto simp: in_int64_def algebra_simps)
  with IH Cons.prems(1) show ?case by (simp add: algebra_simps)
qed simp

text \<open>
  \<open>B\<close> bounds the gauge in the answers that the main line, or the watcher, has collected; a
  snapshot that was added up is within that many times the number of agents.
\<close>

definition snapshot_of :: "master_run \<Rightarrow> asker \<Rightarrow> counters \<Rightarrow> bool" where
  "snapshot_of m who cs \<longleftrightarrow>
     (case who of AskMain \<Rightarrow> mr_pc m = MWrite cs \<or> mr_pc m = MPrint cs | AskWatch \<Rightarrow> mr_watch m = WatchWrite cs)"

definition within :: "master_controller \<Rightarrow> string \<Rightarrow> asker \<Rightarrow> int \<Rightarrow> system \<Rightarrow> bool" where
  "within c key who B sy \<longleftrightarrow>
     list_all (\<lambda>a. 0 \<le> sint (answered a key) \<and> sint (answered a key) \<le> B) (asked sy who)
     \<and> (\<forall>cs. snapshot_of (sy_master sy) who cs \<longrightarrow>
          0 \<le> sint (cnt_get cs key) \<and> sint (cnt_get cs key) \<le> int (length (mc_Agents c)) * B)"

lemma master_step_snapshot:
  assumes "master_step se c w m e = Next w' m'" and "snapshot_of m' who cs"
  shows "snapshot_of m who cs
    \<or> (\<exists>answers clock. e = (case who of AskMain \<Rightarrow> MvCollect answers clock | AskWatch \<Rightarrow> WvTick answers clock)
        \<and> length answers = length (mc_Agents c) \<and> collectCounters (mr_job m) clock answers = Return cs)"
  using assms
  by (cases "mr_pc m"; cases e; cases who)
    (auto simp: master_step_defs snapshot_of_def split: if_splits option.splits watch_pc.splits go.splits)

lemma within_master:
  assumes inv: "within c key who B sy" and step: "master_step se c w (sy_master sy) e = Next w' m"
    and key: "gauge_key x = Some key" and B: "0 \<le> B" "int (length (mc_Agents c)) * B < 2 ^ 63"
    and answers: "\<And>as clock. e = MvCollect as clock \<Longrightarrow> as = sy_main sy" "\<And>as clock. e = WvTick as clock \<Longrightarrow> as = sy_watch sy"
    and sy': "sy_master sy' = m" "asked sy' who = asked sy who \<or> asked sy' who = []"
  shows "within c key who B sy'"
proof -
  have "0 \<le> sint (cnt_get cs key) \<and> sint (cnt_get cs key) \<le> int (length (mc_Agents c)) * B"
    if snap: "snapshot_of m who cs" for cs
  proof (cases "snapshot_of (sy_master sy) who cs")
    case True
    with inv show ?thesis by (simp add: within_def)
  next
    case False
    with master_step_snapshot[OF step snap] obtain as clock
      where e: "e = (case who of AskMain \<Rightarrow> MvCollect as clock | AskWatch \<Rightarrow> WvTick as clock)"
        and len: "length as = length (mc_Agents c)" and cs: "collectCounters (mr_job (sy_master sy)) clock as = Return cs"
      by blast
    have "as = asked sy who" using e answers by (cases who) (auto simp: asked_def)
    then have "list_all (\<lambda>a. 0 \<le> sint (answered a key) \<and> sint (answered a key) \<le> B) as"
      using inv by (simp add: within_def)
    from sum_answers_bound[OF this] B(2) len gauge_collected[OF cs key] show ?thesis by simp
  qed
  with inv sy' show ?thesis by (auto simp: within_def)
qed

lemma within_cong:
  assumes "within c key who B sy" and "sy_master sy' = sy_master sy" and "asked sy' who = asked sy who"
  shows "within c key who B sy'"
  using assms by (simp add: within_def)

lemma asked_add_answer [simp]:
  "asked (add_answer who a sy) who' = (if who' = who then asked sy who @ [a] else asked sy who')"
  by (cases who; cases who') (simp_all add: asked_def add_answer_def)

lemma asked_simps [simp]:
  "asked (sy\<lparr>sy_master := m\<rparr>) who = asked sy who" "asked (node_update i nd sy) who = asked sy who"
  by (simp_all add: asked_def split: asker.splits)

lemma within_answer:
  assumes "within c key who B sy" and "who' = who \<Longrightarrow> 0 \<le> sint (answered a key) \<and> sint (answered a key) \<le> B"
  shows "within c key who B (add_answer who' a sy)"
  using assms by (auto simp: within_def)

text \<open>The bound is kept by every step, when the agents' answers meet it.\<close>

lemma within_step:
  assumes step: "system_step se envs c w sy e = Next w' sy'" and inv: "within c key who B sy"
    and key: "gauge_key x = Some key" and B: "0 \<le> B" "int (length (mc_Agents c)) * B < 2 ^ 63"
    and agents: "\<And>i cput cs. asking sy who \<Longrightarrow> i < length (sy_nodes sy) \<Longrightarrow>
      agent_ListCounters cput (nd_registry (sy_nodes sy ! i)) (SessionNames (mr_job (sy_master sy))) = Return cs \<Longrightarrow>
      0 \<le> sint (cnt_get cs key) \<and> sint (cnt_get cs key) \<le> B"
  shows "within c key who B sy'"
  using step
proof (cases rule: system_step_cases)
  case (internal me m)
  show ?thesis
    by (rule within_master[OF inv internal(2) key B]) (use internal(1,3) in \<open>auto simp: internal_def\<close>)
next
  case (setup_agent i order reg m)
  show ?thesis by (rule within_master[OF inv setup_agent(6) key B]) (use setup_agent(7) in auto)
next
  case (finished i a m)
  show ?thesis by (rule within_master[OF inv finished(4) key B]) (use finished(5) in auto)
next
  case (lost i err m)
  show ?thesis by (rule within_master[OF inv lost(2) key B]) (use lost(3) in auto)
next
  case (collect clock m)
  show ?thesis by (rule within_master[OF inv collect(1) key B]) (use collect(2) in auto)
next
  case (tick clock m)
  have "asked sy' who = asked sy who \<or> asked sy' who = []"
    by (cases who) (simp_all add: tick(2) asked_def)
  then show ?thesis by (intro within_master[OF inv tick(1) key B]) (use tick(2) in auto)
next
  case (answer who' cput cs)
  have "within c key who B (add_answer who' (Inr cs) sy)"
    by (rule within_answer[OF inv]) (use answer agents[of "length (asked sy who')" cput cs] in \<open>auto simp: answered_def\<close>)
  with answer(4) show ?thesis by simp
next
  case (no_answer who' err sy1)
  then have "within c key who B sy1" by (auto intro: within_cong[OF inv])
  with no_answer(3) within_answer[of c key who B sy1 who' "Inl err"] B(1) show ?thesis by (simp add: answered_def)
qed (auto intro: within_cong[OF inv])

lemma within_start: "within c key who B (system_start j regs)"
  by (simp add: within_def system_start_def asked_def snapshot_of_def master_start_def split: asker.splits)

lemma asking_setup_done:
  assumes "linked envs c j sy" and "asking sy who" and "i < length (sy_nodes sy)"
  shows "setup_done (sy_master sy) i"
  using assms
  by (cases who; cases "mr_pc (sy_master sy)")
    (auto simp: linked_def asking_def master_inv_def agents_done_def setup_done_def list_all_length)

text \<open>A node that answers has the gauge of an agent at work, or of one whose \<^verbatim>\<open>Run\<close> has not begun.\<close>

lemma node_gauge:
  assumes "linked envs c j sy" and "i < length (sy_nodes sy)" and "setup_done (sy_master sy) i"
    and "distinct (SessionNames j)" and "k \<in> set (SessionNames j)" and "SessionMap k = Some x" and "gauge_key x = Some key"
    and "agent_ListCounters cput (nd_registry (sy_nodes sy ! i)) (SessionNames (mr_job (sy_master sy))) = Return cs"
  obtains now a where "agent_at (envs i) (j\<lparr>StartTime := now\<rparr>) (agent_count c) (word_of_nat i) (nd_registry (sy_nodes sy ! i)) a"
    "cnt_get cs key = word_of_nat (agent_active k a)" "\<forall>a'. nd_run (sy_nodes sy ! i) = Some a' \<longrightarrow> a = a'"
proof -
  obtain now where job: "mr_job (sy_master sy) = j\<lparr>StartTime := now\<rparr>" using assms(1) by (auto simp: linked_def)
  let ?a = "case nd_run (sy_nodes sy ! i) of None \<Rightarrow> agent_start | Some a \<Rightarrow> a"
  have at: "agent_at (envs i) (j\<lparr>StartTime := now\<rparr>) (agent_count c) (word_of_nat i) (nd_registry (sy_nodes sy ! i)) ?a"
    using linked_nodeD[OF assms(1,2)] assms(3) by (auto simp: node_ok_def job split: option.splits)
  have "cnt_get cs key = word_of_nat (agent_active k ?a)"
    by (rule agent_at_listed[OF at _ _ assms(6,7), of cput]) (use assms(4,5,8) in \<open>simp_all add: job\<close>)
  with that[OF at] show thesis by (auto split: option.splits)
qed

subsection \<open>The bound during a job\<close>

lemma ceil_div_mono: "t \<le> t' \<Longrightarrow> 0 < n \<Longrightarrow> ceil_div t n \<le> ceil_div t' n"
  by (simp add: ceil_div_def zdiv_mono1)

lemma ceil_div_times: "0 < n \<Longrightarrow> n * ceil_div t n < t + n"
  unfolding ceil_div_def using pos_mod_sign[of n "t + n - 1"] mult_div_mod_eq[of n "t + n - 1"] by linarith

text \<open>Every phase of the job asks for at most \<open>T\<close> users of the session, and the numbers fit in 64 bits.\<close>

definition demand_fits :: "master_controller \<Rightarrow> job \<Rightarrow> nat \<Rightarrow> int \<Rightarrow> bool" where
  "demand_fits c j s T \<longleftrightarrow>
     mc_Agents c \<noteq> [] \<and> 0 \<le> T \<and> T + int (length (mc_Agents c)) < 2 ^ 63
     \<and> list_all (\<lambda>p. 0 \<le> sint (total_session_users p (SessionPercentages j ! s))
          \<and> sint (total_session_users p (SessionPercentages j ! s)) \<le> T) (Phases j)"

lemma agent_at_demand:
  assumes at: "agent_at env (j\<lparr>StartTime := now\<rparr>) (agent_count c) (word_of_nat i) st a" and i: "i < length (mc_Agents c)"
    and names: "distinct (SessionNames j)" "s < length (SessionNames j)" and fits: "demand_fits c j s T"
  shows "int (agent_active (SessionNames j ! s) a) \<le> ceil_div T (int (length (mc_Agents c)))"
proof (cases "ar_phases a = []")
  case True
  with fits show ?thesis by (auto simp: agent_active_def demand_fits_def intro: ceil_div_nonneg)
next
  case False
  let ?N = "int (length (mc_Agents c))" and ?p = "ph_phase (last (ar_phases a))" and ?pct = "SessionPercentages j ! s"
  have N: "0 < ?N" "?N < 2 ^ 63" using fits by (auto simp: demand_fits_def)
  have sn: "sint (agent_count c) = ?N" "sint (word_of_nat i :: goint) = int i"
    using N i sint_of_int_exact[of ?N] sint_of_int_exact[of "int i"] by (simp_all add: in_int64_def)
  let ?k = "length (ar_phases a) - 1"
  have "last (ar_phases a) = ar_phases a ! ?k" "?k < length (ar_phases a)" using False by (simp_all add: last_conv_nth)
  then have "?p \<in> set (Phases j)"
    using agent_at_inv[OF at] by (auto simp: agent_inv_def run_args_def)
  with fits have p: "0 \<le> sint (total_session_users ?p ?pct)" "sint (total_session_users ?p ?pct) \<le> T" "T + ?N < 2 ^ 63"
    by (auto simp: demand_fits_def list_all_iff)
  then have "shares_fit (total_session_users ?p ?pct) (agent_count c)" using N by (simp add: shares_fit_def sn)
  then obtain u where u: "get_session_users ?p ?pct (agent_count c) (word_of_nat i) = Some (Return u)"
    "sint u = greedy_share (sint (total_session_users ?p ?pct)) ?N (int i)"
    using get_session_users_greedy[of ?p ?pct "agent_count c" "word_of_nat i"] i by (auto simp: sn)
  have "sint u \<le> ceil_div (sint (total_session_users ?p ?pct)) ?N" "0 \<le> sint u"
    using ceil_div_nonneg[OF p(1) N(1)] by (simp_all add: u(2) greedy_share_def)
  moreover have "int (agent_active (SessionNames j ! s) a) \<le> sint u"
    using agent_at_share[OF at _ _ _ _ \<open>0 \<le> sint u\<close>, of s ?p] names u(1) by simp
  ultimately show ?thesis using ceil_div_mono[OF p(2) N(1)] by simp
qed

lemma reach_within_demand:
  assumes "system_reach se envs c j ok w sy" and names: "distinct (SessionNames j)" "s < length (SessionNames j)"
    and key: "SessionMap (SessionNames j ! s) = Some x" "gauge_key x = Some key" and fits: "demand_fits c j s T"
  shows "within c key who (ceil_div T (int (length (mc_Agents c)))) sy"
  using assms(1)
proof (induction rule: system_reach.induct)
  case (start regs w)
  show ?case by (rule within_start)
next
  case (step w sy e w' sy')
  let ?N = "int (length (mc_Agents c))"
  note lk = system_reach_linked[OF step(1)]
  have N: "0 < ?N" "0 \<le> T" "T + ?N < 2 ^ 63" using fits by (auto simp: demand_fits_def)
  have B: "0 \<le> ceil_div T ?N" "?N * ceil_div T ?N < 2 ^ 63"
    using ceil_div_nonneg[OF N(2,1)] ceil_div_times[OF N(1), of T] N(3) by simp_all
  show ?case
  proof (rule within_step[OF step(3,4) key(2) B])
    fix i cput cs
    assume ask: "asking sy who" "i < length (sy_nodes sy)"
      and cs: "agent_ListCounters cput (nd_registry (sy_nodes sy ! i)) (SessionNames (mr_job (sy_master sy))) = Return cs"
    have i: "i < length (mc_Agents c)" using lk ask(2) by (simp add: linked_def)
    obtain now a where at: "agent_at (envs i) (j\<lparr>StartTime := now\<rparr>) (agent_count c) (word_of_nat i) (nd_registry (sy_nodes sy ! i)) a"
      and v: "cnt_get cs key = word_of_nat (agent_active (SessionNames j ! s) a)"
      by (rule node_gauge[OF lk ask(2) asking_setup_done[OF lk ask] names(1) nth_mem[OF names(2)] key cs])
    have a: "int (agent_active (SessionNames j ! s) a) \<le> ceil_div T ?N"
      by (rule agent_at_demand[OF at i names fits])
    have "ceil_div T ?N \<le> ?N * ceil_div T ?N" using mult_right_mono[OF _ B(1), of 1 ?N] N(1) by simp
    with a B(2) have "sint (word_of_int (int (agent_active (SessionNames j ! s) a)) :: int64) = int (agent_active (SessionNames j ! s) a)"
      by (intro sint_of_int_exact) (auto simp: in_int64_def)
    with a v show "0 \<le> sint (cnt_get cs key) \<and> sint (cnt_get cs key) \<le> ceil_div T ?N" by simp
  qed
qed

subsection \<open>The end of a job\<close>

text \<open>The events that lose the connection of a running call.\<close>

definition loses :: "system_event \<Rightarrow> bool" where
  "loses e = (case e of SyLost _ _ \<Rightarrow> True | _ \<Rightarrow> False)"

definition node_returned :: "agent_node \<Rightarrow> bool" where
  "node_returned nd \<longleftrightarrow> (\<exists>a. nd_run nd = Some a \<and> ar_returned a)"

definition calls_returned :: "system \<Rightarrow> bool" where
  "calls_returned sy \<longleftrightarrow>
     (\<forall>i < length (sy_nodes sy). i < length (mr_calls (sy_master sy)) \<and> mr_calls (sy_master sy) ! i
        \<longrightarrow> node_returned (sy_nodes sy ! i))"

lemma agent_step_returned: "agent_step env args st a e = Next st' a' \<Longrightarrow> ar_returned a \<Longrightarrow> ar_returned a'"
  by (cases e) (auto simp: agent_step_def Let_def split: if_splits step_result.splits)

lemma master_step_calls:
  assumes "master_step se c w m e = Next w' m'" and "i < length (mr_calls m')" and "mr_calls m' ! i"
  shows "i < length (mr_calls m) \<and> mr_calls m ! i \<or> (\<exists>res. e = MvRun i res)"
  using assms
  by (cases "mr_pc m"; cases e)
    (auto simp: master_step_defs nth_list_update split: if_splits option.splits watch_pc.splits go.splits)

lemma calls_returned_master:
  assumes "calls_returned sy" and "master_step se c w (sy_master sy) e = Next w' m"
    and "\<And>i res. e = MvRun i res \<Longrightarrow> i < length (sy_nodes sy) \<Longrightarrow> node_returned (sy_nodes sy ! i)"
    and "sy_master sy' = m" and "sy_nodes sy' = sy_nodes sy"
  shows "calls_returned sy'"
  using assms master_step_calls[OF assms(2)] unfolding calls_returned_def by metis

lemma calls_returned_node:
  assumes "calls_returned sy" and "node_returned (sy_nodes sy ! i) \<Longrightarrow> node_returned nd"
  shows "calls_returned (node_update i nd sy)"
  unfolding calls_returned_def
proof (intro allI impI)
  fix m
  assume "m < length (sy_nodes (node_update i nd sy))"
    and "m < length (mr_calls (sy_master (node_update i nd sy))) \<and> mr_calls (sy_master (node_update i nd sy)) ! m"
  with assms show "node_returned (sy_nodes (node_update i nd sy) ! m)"
    by (cases "m = i") (auto simp: calls_returned_def)
qed

lemma calls_returned_cong:
  "calls_returned sy \<Longrightarrow> sy_master sy' = sy_master sy \<Longrightarrow> sy_nodes sy' = sy_nodes sy \<Longrightarrow> calls_returned sy'"
  by (simp add: calls_returned_def)

lemma calls_returned_step:
  assumes step: "system_step se envs c w sy e = Next w' sy'" and inv: "calls_returned sy" and e: "\<not> loses e"
  shows "calls_returned sy'"
  using step
proof (cases rule: system_step_cases)
  case (internal me m)
  show ?thesis by (rule calls_returned_master[OF inv internal(2)]) (use internal in \<open>auto simp: internal_def\<close>)
next
  case (setup_agent i order reg m)
  let ?sy = "node_update i ((sy_nodes sy ! i)\<lparr>nd_registry := reg\<rparr>) sy"
  have "calls_returned ?sy" by (rule calls_returned_node[OF inv]) (simp add: node_returned_def)
  from calls_returned_master[OF this, of se c w "MvSetup i None" w' m] setup_agent show ?thesis by simp
next
  case (call i)
  show ?thesis unfolding call(4) by (rule calls_returned_node[OF inv]) (use call(3) in \<open>simp add: node_returned_def\<close>)
next
  case (agent i a ae reg a')
  show ?thesis unfolding agent(4)
    by (rule calls_returned_node[OF inv]) (use agent(2) agent_step_returned[OF agent(3)] in \<open>simp add: node_returned_def\<close>)
next
  case (down i)
  show ?thesis unfolding down(2) by (rule calls_returned_node[OF inv]) (simp add: node_returned_def)
next
  case (finished i a m)
  show ?thesis by (rule calls_returned_master[OF inv finished(4)]) (use finished in \<open>auto simp: node_returned_def\<close>)
next
  case (lost i err m)
  with e show ?thesis by (simp add: loses_def)
next
  case (answer who cput cs)
  then show ?thesis by (auto intro: calls_returned_cong[OF inv])
next
  case (no_answer who err sy1)
  have "calls_returned sy1"
    using no_answer(4) inv by (auto intro!: calls_returned_node[OF inv] simp: node_returned_def)
  then show ?thesis by (rule calls_returned_cong) (simp_all add: no_answer(3))
next
  case (collect clock m)
  show ?thesis by (rule calls_returned_master[OF inv collect(1)]) (use collect in auto)
next
  case (tick clock m)
  show ?thesis by (rule calls_returned_master[OF inv tick(1)]) (use tick in auto)
qed

lemma reach_calls_returned:
  assumes "system_reach se envs c j (\<lambda>e. \<not> loses e) w sy"
  shows "calls_returned sy"
  using assms
proof (induction rule: system_reach.induct)
  case (start regs w)
  then show ?case by (simp add: calls_returned_def system_start_def master_start_def)
next
  case (step w sy e w' sy')
  with calls_returned_step show ?case by blast
qed

lemma finished_all_returned:
  assumes "linked envs c j sy" and "calls_returned sy" and "mr_stop (sy_master sy)" and "i < length (sy_nodes sy)"
  shows "node_returned (sy_nodes sy ! i)"
proof -
  have "agents_done c (mr_calls (sy_master sy))"
    using assms(1,3) by (cases "mr_pc (sy_master sy)") (auto simp: linked_def master_inv_def)
  with assms(1,2,4) show ?thesis by (auto simp: calls_returned_def linked_def agents_done_def list_all_length)
qed

lemma reach_final_quiet:
  assumes "system_reach se envs c j (\<lambda>e. \<not> loses e) w sy" and names: "distinct (SessionNames j)" "k \<in> set (SessionNames j)"
    and key: "SessionMap k = Some x" "gauge_key x = Some key"
  shows "within c key AskMain 0 sy"
  using assms(1)
proof (induction rule: system_reach.induct)
  case (start regs w)
  show ?case by (rule within_start)
next
  case (step w sy e w' sy')
  note lk = system_reach_linked[OF step(1)]
  show ?case
  proof (rule within_step[OF step(3,4) key(2)])
    fix i cput cs
    assume ask: "asking sy AskMain" "i < length (sy_nodes sy)"
      and cs: "agent_ListCounters cput (nd_registry (sy_nodes sy ! i)) (SessionNames (mr_job (sy_master sy))) = Return cs"
    have "mr_stop (sy_master sy)" using lk ask(1) by (simp add: linked_def asking_def master_inv_def)
    from finished_all_returned[OF lk reach_calls_returned[OF step(1)] this ask(2)]
    obtain a where a: "nd_run (sy_nodes sy ! i) = Some a" "ar_returned a" by (auto simp: node_returned_def)
    obtain now a' where at: "agent_at (envs i) (j\<lparr>StartTime := now\<rparr>) (agent_count c) (word_of_nat i) (nd_registry (sy_nodes sy ! i)) a'"
      and v: "cnt_get cs key = word_of_nat (agent_active k a')"
      and eq: "\<forall>b. nd_run (sy_nodes sy ! i) = Some b \<longrightarrow> a' = b"
      by (rule node_gauge[OF lk ask(2) asking_setup_done[OF lk ask] names key cs])
    have "agent_active k a' = 0" by (rule agent_at_returned[OF at]) (use eq a in simp)
    with v show "0 \<le> sint (cnt_get cs key) \<and> sint (cnt_get cs key) \<le> 0" by simp
  qed simp_all
qed

subsection \<open>Runs of the system\<close>

lemma system_run_reach:
  assumes "run_events (system_step se envs c) w sy es = Next w' sy'" and "system_reach se envs c j ok w sy" and "list_all ok es"
  shows "system_reach se envs c j ok w' sy'"
  using assms
proof (induction es arbitrary: w sy)
  case (Cons e es)
  then obtain w1 sy1 where s: "system_step se envs c w sy e = Next w1 sy1"
    "run_events (system_step se envs c) w1 sy1 es = Next w' sy'"
    by (auto split: step_result.splits)
  with Cons system_reach.step[OF Cons.prems(2) _ s(1)] show ?case by simp
qed simp

text \<open>A run of an agent is a run of the system.\<close>

lemma system_agent_run:
  assumes "run_events (agent_step (envs i) (run_args (mr_job (sy_master sy)) (agent_count c) (word_of_nat i))) reg a es = Next reg' a'"
    and "i < length (sy_nodes sy)" and "sy_nodes sy ! i = \<lparr>nd_up = True, nd_registry = reg, nd_run = Some a\<rparr>"
  shows "run_events (system_step se envs c) w sy (map (SyAgent i) es) =
    Next w (node_update i \<lparr>nd_up = True, nd_registry = reg', nd_run = Some a'\<rparr> sy)"
  using assms
proof (induction es arbitrary: sy reg a)
  case Nil
  then have nd: "sy_nodes sy ! i = \<lparr>nd_up = True, nd_registry = reg', nd_run = Some a'\<rparr>" by simp
  have "node_update i \<lparr>nd_up = True, nd_registry = reg', nd_run = Some a'\<rparr> sy = sy"
    unfolding node_update_def nd[symmetric] by simp
  then show ?case by simp
next
  case (Cons e es)
  let ?args = "run_args (mr_job (sy_master sy)) (agent_count c) (word_of_nat i)"
  obtain reg1 a1 where s: "agent_step (envs i) ?args reg a e = Next reg1 a1"
    and r: "run_events (agent_step (envs i) ?args) reg1 a1 es = Next reg' a'"
    using Cons.prems(1) by (auto split: step_result.splits)
  let ?sy = "node_update i \<lparr>nd_up = True, nd_registry = reg1, nd_run = Some a1\<rparr> sy"
  have "system_step se envs c w sy (SyAgent i e) = Next w ?sy"
    using Cons.prems(2,3) s by (simp add: system_step_def serve_agent_def Let_def)
  moreover have "run_events (system_step se envs c) w ?sy (map (SyAgent i) es) =
      Next w (node_update i \<lparr>nd_up = True, nd_registry = reg', nd_run = Some a'\<rparr> ?sy)"
    by (rule Cons.IH) (use Cons.prems(2) r in simp_all)
  ultimately show ?case by (simp add: node_update_def)
qed

end
