(* ===== verification/Outcomes.thy ===== *)
theory Outcomes
  imports System
begin

text \<open>
  The results of a job: the counters of a session that tell how many of its users returned
  without an error, in the registry of an agent and in the final snapshot of the master.
\<close>

subsection \<open>Users that returned without an error\<close>

text \<open>
  The sessions that count such users; the queue sessions count queues instead, and
  \<^verbatim>\<open>DummySession\<close> is not registered. \<^verbatim>\<open>HttpGetSession.Execute\<close> always returns nil and
  counts a failed request as an error; the broadcasting sessions count a user that got no answer
  to its close message apart.
\<close>

definition counted :: "user_obj \<Rightarrow> bool" where
  "counted u = (case u of URabbit _ \<Rightarrow> False | UPulsar _ \<Rightarrow> False | UDummy _ \<Rightarrow> False | _ \<Rightarrow> True)"

definition obj_ok :: "user_obj \<Rightarrow> bool" where
  "obj_ok u =
     (case u of
        UEcho l \<Rightarrow> echo_ok l | UCore l \<Rightarrow> cbs_ok l | UFx l \<Rightarrow> fx_ok l | URedis l \<Rightarrow> redis_ok l
      | UHttp l \<Rightarrow> http_ok l \<or> http_failed l | UWps l \<Rightarrow> wps_ok l | UKafka l \<Rightarrow> kafka_ok l | _ \<Rightarrow> False)"

definition obj_successes :: "session_obj \<Rightarrow> int64" where
  "obj_successes x =
     (case x of
        OEcho s \<Rightarrow> e_cntSuccess s | OCore s \<Rightarrow> b_cntSuccess s + b_cntCloseError s
      | OFx s \<Rightarrow> f_cntSuccess s + f_cntCloseError s | ORedis s \<Rightarrow> r_cntSuccess s
      | OHttp s \<Rightarrow> h_counterCompleted s + h_counterError s | OWps s \<Rightarrow> w_cntSuccess s
      | OKafka s \<Rightarrow> k_cntSuccess s | ORabbit _ \<Rightarrow> 0 | OPulsar _ \<Rightarrow> 0 | ODummy _ \<Rightarrow> 0)"

definition success_keys :: "session_obj \<Rightarrow> string list" where
  "success_keys x =
     (case x of
        OEcho _ \<Rightarrow> [''signalrcore:echo:success'']
      | OCore _ \<Rightarrow> [''signalrcore:broadcast:success'', ''signalrcore:broadcast:closeerror'']
      | OFx _ \<Rightarrow> [''signalrfx:broadcast:success'', ''signalrfx:broadcast:closeerror'']
      | ORedis _ \<Rightarrow> [''redis:pubsub:success'']
      | OHttp _ \<Rightarrow> [''completed'', ''error'']
      | OWps _ \<Rightarrow> [''webpubsub:echo:success'']
      | OKafka _ \<Rightarrow> [''kafka:producer:success'']
      | ORabbit _ \<Rightarrow> [] | OPulsar _ \<Rightarrow> [] | ODummy _ \<Rightarrow> [])"

lemma obj_ok_result: "obj_result u = Some r \<Longrightarrow> obj_ok u \<longleftrightarrow> counted u \<and> r = None"
  by (cases u) (auto simp: obj_ok_def counted_def obj_result_def session_defs echo_result_def cbs_result_def fx_result_def
      redis_result_def http_result_def wps_result_def kafka_result_def
      split: echo_pc.splits cbs_pc.splits fx_pc.splits redis_pc.splits http_pc.splits wps_pc.splits kafka_pc.splits)

lemma obj_step_counted: "obj_step env x u e = Next x' u' \<Longrightarrow> counted u' = counted u"
  by (erule obj_step_cases) (simp_all add: counted_def)

lemma obj_ok_start: "\<not> obj_ok (obj_start x ctx)"
proof -
  have "of_bool (obj_ok (obj_start x ctx)) = (0 :: int64)"
    using http_errors.start_weight[of ctx] http_completed.start_weight[of ctx]
    by (cases x) (simp_all add: obj_ok_def obj_start_def echo_success.start_weight[simplified] cbs_closed.start_weight[simplified]
        fx_closed.start_weight[simplified] redis_success.start_weight[simplified]
        wps_success.start_weight[simplified] kafka_success.start_weight[simplified])
  then show ?thesis by simp
qed

lemma obj_step_success:
  assumes "obj_step env x u e = Next x' u'" and "obj_inv u"
  shows "obj_successes x' = obj_successes x + (of_bool (obj_ok u') - of_bool (obj_ok u))"
  using assms(1)
proof (cases rule: obj_step_cases)
  case echo
  with assms(2) echo_success.step_weight[OF echo(3)] show ?thesis
    by (simp add: obj_successes_def obj_ok_def obj_inv_def)
next
  case core
  with assms(2) cbs_closed.step_weight[OF core(3)] show ?thesis
    by (simp add: obj_successes_def obj_ok_def obj_inv_def)
next
  case fx
  with assms(2) fx_closed.step_weight[OF fx(3)] show ?thesis
    by (simp add: obj_successes_def obj_ok_def obj_inv_def)
next
  case redis
  with assms(2) redis_success.step_weight[OF redis(3)] show ?thesis
    by (simp add: obj_successes_def obj_ok_def obj_inv_def)
next
  case wps
  with assms(2) wps_success.step_weight[OF wps(3)] show ?thesis
    by (simp add: obj_successes_def obj_ok_def obj_inv_def)
next
  case (http s l ev s' l')
  have "of_bool (http_ok l \<or> http_failed l) = (of_bool (http_ok l) + of_bool (http_failed l) :: int64)" for l
    by (auto simp: http_ok_def http_failed_def)
  with http http_completed.step_weight[OF http(3)] http_errors.step_weight[OF http(3)] show ?thesis
    by (simp add: obj_successes_def obj_ok_def)
next
  case kafka
  with kafka_success.step_weight[OF kafka(3)] show ?thesis by (simp add: obj_successes_def obj_ok_def)
qed (simp_all add: obj_successes_def obj_ok_def)

interpretation successes: agent_tally obj_successes "\<lambda>u. of_bool (obj_ok u)"
  by unfold_locales (simp_all add: obj_ok_start obj_step_success)

subsection \<open>The counters of the results\<close>

lemma instance_key_not_success: "key \<in> set (success_keys x) \<Longrightarrow> key \<noteq> cbs_instance_key i"
  by (cases x) (auto simp: success_keys_def cbs_instance_key_def)

lemma cbs_success_value:
  assumes "success_keys x \<noteq> []" and "cbs_Counters s = Return m"
  shows "sum_list (map (cnt_get m) (success_keys x)) =
    (if obj_Name (OCore s) = obj_Name x then b_cntSuccess s + b_cntCloseError s else 0)"
proof -
  let ?base = "[''signalrcore:broadcast:inprogress'' \<mapsto> b_cntInProgress s,
        ''signalrcore:broadcast:connected'' \<mapsto> b_cntConnected s,
        ''signalrcore:broadcast:success'' \<mapsto> b_cntSuccess s,
        ''signalrcore:broadcast:error'' \<mapsto> b_cntError s,
        ''signalrcore:broadcast:closeerror'' \<mapsto> b_cntCloseError s,
        ''signalrcore:broadcast:messages:recv'' \<mapsto> b_cntMessagesRecv s,
        ''signalrcore:broadcast:messages:send'' \<mapsto> b_cntMessagesSend s,
        ''signalrcore:broadcast:latency:<100'' \<mapsto> b_cntLatencyLessThan100ms s,
        ''signalrcore:broadcast:latency:<500'' \<mapsto> b_cntLatencyLessThan500ms s,
        ''signalrcore:broadcast:latency:<1000'' \<mapsto> b_cntLatencyLessThan1000ms s,
        ''signalrcore:broadcast:latency:>=1000'' \<mapsto> b_cntLatencyMoreThan1000ms s]"
  have "m = cbs_instance_counters 0 (take MaxInstances (b_cntInstances s)) ?base"
    using assms(2) by (simp add: cbs_Counters_def Let_def split: if_splits)
  then have "cnt_get m key = cnt_get ?base key" if "key \<in> set (success_keys x)" for key
    using instance_key_not_success[OF that] by (simp only: cbs_instance_counters_other simp_thms)
  then have "map (cnt_get m) (success_keys x) = map (cnt_get ?base) (success_keys x)" by (intro map_cong refl)
  moreover have "sum_list (map (cnt_get ?base) (success_keys x)) =
      (if obj_Name (OCore s) = obj_Name x then b_cntSuccess s + b_cntCloseError s else 0)"
    using assms(1) by (cases x) (simp_all add: success_keys_def obj_Name_def)
  ultimately show ?thesis by (simp only:)
qed

lemmas success_value_defs = success_keys_def obj_Name_def obj_successes_def obj_Counters_def echo_Counters_def fx_Counters_def
  redis_Counters_def http_Counters_def wps_Counters_def rabbit_Counters_def kafka_Counters_def
  pulsar_Counters_def dummy_Counters_def

lemma success_keys_value:
  assumes "success_keys x \<noteq> []" and "obj_Counters y = Return m"
  shows "sum_list (map (cnt_get m) (success_keys x)) = (if obj_Name y = obj_Name x then obj_successes y else 0)"
proof (cases y)
  case (OCore s)
  then have "cbs_Counters s = Return m" using assms(2) by (simp add: obj_Counters_def)
  with cbs_success_value[OF assms(1)] show ?thesis by (simp add: OCore obj_successes_def)
next
  case (OEcho s)
  with assms show ?thesis by (cases x) (auto simp: success_value_defs)
next
  case (OFx s)
  with assms show ?thesis by (cases x) (auto simp: success_value_defs)
next
  case (OWps s)
  with assms show ?thesis by (cases x) (auto simp: success_value_defs)
qed (use assms in \<open>cases x; auto simp: success_value_defs\<close>)+

lemma success_keys_other:
  assumes "key \<in> set (success_keys x)"
  shows "get_system_counters cput key = None" "key \<noteq> ''rps''"
  using assms by (cases x; auto simp: success_keys_def get_system_counters_def split: option.splits)+

lemma zeroed_successes:
  assumes "zeroed x"
  shows "obj_successes x = 0"
proof (cases "success_keys x = []")
  case True
  then show ?thesis by (cases x) (simp_all add: success_keys_def obj_successes_def)
next
  case False
  obtain m where m: "obj_Counters x = Return m" "\<And>k. cnt_get m k = 0" using assms by (auto simp: zeroed_def)
  then have "sum_list (map (cnt_get m) (success_keys x)) = 0" by (intro sum_list_map_zero)
  with success_keys_value[OF False m(1)] show ?thesis by simp
qed

lemma agent_at_successes:
  assumes "agent_at env j n i st a" and "k \<in> set (SessionNames j)"
  shows "store_read obj_successes st k = agent_total (\<lambda>u. of_bool (obj_ok u)) k a"
proof (rule agent_atE[OF assms(1)])
  fix order st0 st1 es
  assume order: "set order = dom st0" and up: "agent_Setup env order (SessionNames j) (SessionParams j) st0 = Return (st1, None)"
    and run: "run_events (agent_step env (run_args j n i)) st1 agent_start es = Next st a"
  have "store_read obj_successes st1 k = 0"
    using agent_setup_loop_zeroed[OF up[unfolded agent_Setup_def] _ assms(2)] order zeroed_successes
    by (auto simp: store_read_def split: option.splits)
  moreover have "agent_total (\<lambda>u. of_bool (obj_ok u)) k agent_start = 0"
    by (simp add: agent_total_def agent_start_def)
  ultimately show ?thesis using successes.agent_run_tally[OF run, of k] by simp
qed

subsection \<open>The results of a run that has ended\<close>

definition thread_nil :: "user_obj thread \<Rightarrow> bool" where
  "thread_nil t = (case t of TUser UReturned l \<Rightarrow> counted l \<and> obj_result l = Some None | _ \<Rightarrow> False)"

definition run_nil :: "user_obj session_run \<Rightarrow> nat" where
  "run_nil r = length (filter thread_nil (run_threads r))"

definition phase_nil :: "string \<Rightarrow> phase_run \<Rightarrow> nat" where
  "phase_nil k ph = sum_list (map (\<lambda>(n, r). if n = k then run_nil r else 0) (ph_runs ph))"

text \<open>The users of the session \<open>k\<close>, over all phases, whose \<^verbatim>\<open>Execute\<close> has returned nil.\<close>

definition agent_nil :: "string \<Rightarrow> agent_run \<Rightarrow> nat" where
  "agent_nil k a = sum_list (map (phase_nil k) (ar_phases a))"

lemma run_nil_total:
  assumes "run_inv r" and "run_launcher r = LFinished"
  shows "run_tally (\<lambda>u. of_bool (obj_ok u)) r = word_of_nat (run_nil r)"
proof -
  have "thread_weight (\<lambda>u. of_bool (obj_ok u)) t = (of_bool (thread_nil t) :: int64)" if t: "t \<in> set (run_threads r)" for t
  proof -
    obtain l where "t = TUser UReturned l" "obj_result l \<noteq> None"
      using launch_inv_finished[of obj_result r t] assms t by (auto simp: run_inv_def)
    then show ?thesis using obj_ok_result[of l] by (auto simp: thread_nil_def)
  qed
  then have "run_tally (\<lambda>u. of_bool (obj_ok u)) r = sum_list (map (\<lambda>t. of_bool (thread_nil t)) (run_threads r))"
    unfolding run_tally_def by (intro arg_cong[of _ _ sum_list] map_cong refl)
  then show ?thesis by (simp add: run_nil_def sum_list_of_bool)
qed

lemma phase_nil_total:
  assumes "phase_inv j n i ph" and "ph_main ph = PReturned"
  shows "phase_tally (\<lambda>u. of_bool (obj_ok u)) k ph = word_of_nat (phase_nil k ph)"
proof -
  have "(if m = k then run_tally (\<lambda>u. of_bool (obj_ok u)) r else 0) = word_of_nat (if m = k then run_nil r else 0)"
    if "(m, r) \<in> set (ph_runs ph)" for m r
    using run_nil_total phase_returned[OF assms that] by simp
  then show ?thesis
    unfolding phase_tally_def phase_nil_def of_nat_sum_list
    by (intro arg_cong[of _ _ sum_list] map_cong refl) (auto simp: case_prod_unfold)
qed

lemma agent_nil_total:
  assumes "agent_inv args a" and "ar_returned a"
  shows "agent_total (\<lambda>u. of_bool (obj_ok u)) k a = word_of_nat (agent_nil k a)"
proof -
  have "phase_tally (\<lambda>u. of_bool (obj_ok u)) k ph = word_of_nat (phase_nil k ph)" if ph: "ph \<in> set (ar_phases a)" for ph
  proof -
    obtain m where "m < length (ar_phases a)" "ph = ar_phases a ! m" using ph by (auto simp: in_set_conv_nth)
    with assms show ?thesis by (auto simp: agent_inv_def intro!: phase_nil_total)
  qed
  then show ?thesis
    unfolding agent_total_def agent_nil_def of_nat_sum_list by (intro arg_cong[of _ _ sum_list] map_cong refl)
qed

text \<open>What left-over goroutines do after the end of a run does not change its results.\<close>

lemma thread_nil_stable:
  assumes "execute_session (obj_step env) start obj_result j p (x, chan, wg) (TUser UReturned l) e = Next (x', chan', wg') t'"
    and "obj_result l \<noteq> None"
  shows "thread_nil t' = thread_nil (TUser UReturned l)"
proof -
  obtain l' where l': "t' = TUser UReturned l'" and "obj_result l' = obj_result l" and "counted l' = counted l"
    using assms obj_result_stable obj_step_counted
    by (auto simp: execute_session_def split: thread_event.splits step_result.splits)
  then show ?thesis by (simp add: thread_nil_def)
qed

lemma run_nil_stable:
  assumes ls: "launch_step (obj_step env) start obj_result j p (x, swg) r e = Next (x', swg') r'"
    and r: "run_inv r" "run_launcher r = LFinished"
  shows "run_nil r' = run_nil r"
proof (cases e)
  case (LvThread i te)
  let ?ts = "run_threads r"
  obtain chan wg t where i: "i < length ?ts"
    and ex: "execute_session (obj_step env) start obj_result j p (x, run_chan r, run_wg r) (?ts ! i) te = Next (x', chan, wg) t"
    and r': "run_threads r' = ?ts[i := t]"
    using ls LvThread by (auto simp: launch_step_def split: if_splits step_result.splits)
  obtain l where l: "?ts ! i = TUser UReturned l" "obj_result l \<noteq> None"
    using launch_inv_finished[of obj_result r "?ts ! i"] r i by (auto simp: run_inv_def)
  have "thread_nil t = thread_nil (?ts ! i)" using thread_nil_stable[OF ex[unfolded l(1)] l(2)] l(1) by simp
  with length_filter_update[OF i, of thread_nil t] show ?thesis by (simp add: run_nil_def r')
qed (use ls r(2) in \<open>auto simp: launch_step_def run_nil_def split: if_splits\<close>)

lemma phase_nil_stable:
  assumes "phase_step env j n i st ph e = Next st' ph'" and "phase_inv j n i ph" and "ph_main ph = PReturned"
  shows "phase_nil k ph' = phase_nil k ph"
proof (cases e)
  case PvMain
  with assms phase_step_main_returned show ?thesis by blast
next
  case (PvRun m le)
  with assms(1) have "phase_step env j n i st ph (PvRun m le) = Next st' ph'" by simp
  then show ?thesis
  proof (rule phase_step_run[OF _ assms(2)])
    fix name r x x' swg r'
    assume m: "m < length (ph_runs ph)" and nr: "ph_runs ph ! m = (name, r)"
      and ls: "launch_step (obj_step env) (obj_start x) obj_result j (ph_phase ph) (x, ph_swg ph) r le = Next (x', swg) r'"
      and ph': "ph' = ph\<lparr>ph_swg := swg, ph_runs := (ph_runs ph)[m := (name, r')]\<rparr>" and r: "run_inv r"
    have "run_launcher r = LFinished" using phase_returned(1)[OF assms(2,3), of name r] m nr nth_mem[OF m] by simp
    from run_nil_stable[OF ls r this] have "map (\<lambda>(n, r). if n = k then run_nil r else 0) (ph_runs ph') =
        map (\<lambda>(n, r). if n = k then run_nil r else 0) (ph_runs ph)"
      using m nr by (intro nth_equalityI) (auto simp: ph' nth_list_update)
    then show ?thesis by (simp add: phase_nil_def)
  qed
qed

lemma agent_nil_stable:
  assumes "agent_step env args st a e = Next st' a'" and "agent_inv args a" and "ar_returned a"
  shows "agent_nil k a' = agent_nil k a"
proof (cases e)
  case AvMain
  with assms show ?thesis by (simp add: agent_step_def Let_def)
next
  case (AvPhase m pe)
  with assms(1) have "agent_step env args st a (AvPhase m pe) = Next st' a'" by simp
  then show ?thesis
  proof (rule agent_phase_step)
    fix ph
    assume m: "m < length (ar_phases a)" and a': "a' = a\<lparr>ar_phases := (ar_phases a)[m := ph]\<rparr>"
      and ps: "phase_step env (ra_Job args) (ra_AgentCount args) (ra_AgentIdx args) st (ar_phases a ! m) pe = Next st' ph"
    have "phase_nil k ph = phase_nil k (ar_phases a ! m)"
      by (rule phase_nil_stable[OF ps]) (use assms(2,3) m in \<open>auto simp: agent_inv_def\<close>)
    then have "map (phase_nil k) (ar_phases a') = map (phase_nil k) (ar_phases a)"
      using m by (intro nth_equalityI) (auto simp: a' nth_list_update)
    then show ?thesis by (simp add: agent_nil_def)
  qed
qed

subsection \<open>The results in the final snapshot\<close>

definition node_nil :: "string \<Rightarrow> agent_node \<Rightarrow> nat" where
  "node_nil k nd = (case nd_run nd of None \<Rightarrow> 0 | Some a \<Rightarrow> agent_nil k a)"

text \<open>An agent that did not answer the last question of the master contributes nothing.\<close>

definition listed_nil :: "string \<Rightarrow> goerror + counters \<Rightarrow> agent_node \<Rightarrow> nat" where
  "listed_nil k ans nd = (case ans of Inl _ \<Rightarrow> 0 | Inr _ \<Rightarrow> node_nil k nd)"

definition results_listed :: "string list \<Rightarrow> string \<Rightarrow> system \<Rightarrow> bool" where
  "results_listed keys k sy \<longleftrightarrow>
     length (sy_main sy) \<le> length (sy_nodes sy)
     \<and> (\<forall>i < length (sy_main sy). node_returned (sy_nodes sy ! i)
          \<and> sum_list (map (answered (sy_main sy ! i)) keys) = word_of_nat (listed_nil k (sy_main sy ! i) (sy_nodes sy ! i)))"

definition results_added :: "master_controller \<Rightarrow> string list \<Rightarrow> system \<Rightarrow> bool" where
  "results_added c keys sy \<longleftrightarrow>
     (\<forall>cs. snapshot_of (sy_master sy) AskMain cs \<longrightarrow> length (sy_main sy) = length (mc_Agents c)
        \<and> sum_list (map (cnt_get cs) keys) = sum_list (map (\<lambda>a. sum_list (map (answered a) keys)) (sy_main sy)))"

lemma keys_collected:
  assumes "collectCounters j clock answers = Return m" and "''rps'' \<notin> set keys"
  shows "sum_list (map (cnt_get m) keys) = sum_list (map (\<lambda>a. sum_list (map (answered a) keys)) answers)"
proof -
  have "cnt_get m key = sum_list (map (\<lambda>a. answered a key) answers)" if "key \<in> set keys" for key
  proof -
    have "key \<noteq> ''rps''" using that assms(2) by auto
    with aggregate_sessions_keeps[OF assms(1)[unfolded collectCounters_def]]
    have "m key = collect_agents answers Map.empty key" by simp
    then show ?thesis using collect_agents_get[of answers Map.empty key] by (simp add: cnt_get_def)
  qed
  then have "map (cnt_get m) keys = map (\<lambda>key. sum_list (map (\<lambda>a. answered a key) answers)) keys" by (intro map_cong refl)
  then show ?thesis by (simp only: sum_list_swap[of _ answers keys])
qed

lemma results_added_master:
  assumes "results_added c keys sy" and "master_step se c w (sy_master sy) e = Next w' m" and "''rps'' \<notin> set keys"
    and "\<And>as clock. e = MvCollect as clock \<Longrightarrow> as = sy_main sy" and "sy_master sy' = m" and "sy_main sy' = sy_main sy"
  shows "results_added c keys sy'"
  unfolding results_added_def
proof (intro allI impI)
  fix cs
  assume "snapshot_of (sy_master sy') AskMain cs"
  with assms(5) have snap: "snapshot_of m AskMain cs" by simp
  from master_step_snapshot[OF assms(2) snap] show "length (sy_main sy') = length (mc_Agents c)
      \<and> sum_list (map (cnt_get cs) keys) = sum_list (map (\<lambda>a. sum_list (map (answered a) keys)) (sy_main sy'))"
  proof (elim disjE exE conjE)
    assume "snapshot_of (sy_master sy) AskMain cs"
    with assms(1,6) show ?thesis by (simp add: results_added_def)
  next
    fix as clock
    assume "e = (case AskMain of AskMain \<Rightarrow> MvCollect as clock | AskWatch \<Rightarrow> WvTick as clock)"
      and len: "length as = length (mc_Agents c)" and cs: "collectCounters (mr_job (sy_master sy)) clock as = Return cs"
    then have "as = sy_main sy" using assms(4) by simp
    with len keys_collected[OF cs assms(3)] assms(6) show ?thesis by simp
  qed
qed

lemma results_added_cong:
  "results_added c keys sy \<Longrightarrow> sy_master sy' = sy_master sy \<Longrightarrow> sy_main sy' = sy_main sy \<Longrightarrow> results_added c keys sy'"
  by (simp add: results_added_def)

lemma results_added_answer:
  assumes "results_added c keys sy" and "asking sy who"
  shows "results_added c keys (add_answer who a sy)"
  using assms by (cases who) (auto simp: results_added_def asking_def snapshot_of_def add_answer_def)

lemma results_added_step:
  assumes step: "system_step se envs c w sy e = Next w' sy'" and inv: "results_added c keys sy" and keys: "''rps'' \<notin> set keys"
  shows "results_added c keys sy'"
  using step
proof (cases rule: system_step_cases)
  case (internal me m)
  show ?thesis by (rule results_added_master[OF inv internal(2) keys]) (use internal in \<open>auto simp: internal_def\<close>)
next
  case (setup_agent i order reg m)
  show ?thesis by (rule results_added_master[OF inv setup_agent(6) keys]) (use setup_agent(7) in simp_all)
next
  case (finished i a m)
  show ?thesis by (rule results_added_master[OF inv finished(4) keys]) (use finished(5) in simp_all)
next
  case (lost i err m)
  show ?thesis by (rule results_added_master[OF inv lost(2) keys]) (use lost(3) in simp_all)
next
  case (collect clock m)
  show ?thesis by (rule results_added_master[OF inv collect(1) keys]) (use collect(2) in simp_all)
next
  case (tick clock m)
  show ?thesis by (rule results_added_master[OF inv tick(1) keys]) (use tick(2) in simp_all)
next
  case (answer who cput cs)
  with results_added_answer[OF inv] show ?thesis by simp
next
  case (no_answer who err sy1)
  then have "results_added c keys sy1" by (auto intro: results_added_cong[OF inv])
  moreover have "asking sy1 who" using no_answer(1,4) by (cases who) (auto simp: asking_def)
  ultimately show ?thesis using no_answer(3) by (simp add: results_added_answer)
qed (auto intro: results_added_cong[OF inv])

lemma answered_Inr: "answered (Inr cs) = cnt_get cs"
  by (rule ext) (simp add: answered_def)

lemma node_listed:
  assumes "linked envs c j sy" and "i < length (sy_nodes sy)" and "node_returned (sy_nodes sy ! i)"
    and "distinct (SessionNames j)" and "k \<in> set (SessionNames j)" and "SessionMap k = Some x" and "success_keys x \<noteq> []"
    and "agent_ListCounters cput (nd_registry (sy_nodes sy ! i)) (SessionNames (mr_job (sy_master sy))) = Return cs"
  shows "sum_list (map (cnt_get cs) (success_keys x)) = word_of_nat (node_nil k (sy_nodes sy ! i))"
proof -
  let ?nd = "sy_nodes sy ! i"
  obtain now where job: "mr_job (sy_master sy) = j\<lparr>StartTime := now\<rparr>" using assms(1) by (auto simp: linked_def)
  obtain a where a: "nd_run ?nd = Some a" "ar_returned a" using assms(3) by (auto simp: node_returned_def)
  have at: "agent_at (envs i) (j\<lparr>StartTime := now\<rparr>) (agent_count c) (word_of_nat i) (nd_registry ?nd) a"
    using linked_nodeD[OF assms(1,2)] a(1) by (simp add: node_ok_def job)
  have "sum_list (map (cnt_get cs) (success_keys x)) = store_read obj_successes (nd_registry ?nd) k"
    using assms(4,5,8) success_keys_value[OF assms(7)] success_keys_other(1)
    by (intro ListCounters_sum[OF agent_at_typed[OF at] _ _ assms(6)]) (simp_all add: job)
  also have "\<dots> = agent_total (\<lambda>u. of_bool (obj_ok u)) k a" using agent_at_successes[OF at] assms(5) by simp
  also have "\<dots> = word_of_nat (node_nil k ?nd)"
    using agent_nil_total[OF agent_at_inv[OF at] a(2)] by (simp add: node_nil_def a(1))
  finally show ?thesis .
qed

lemma results_listed_node:
  assumes "results_listed keys k sy" and "i < length (sy_nodes sy)"
    and "node_returned (sy_nodes sy ! i) \<Longrightarrow> node_returned nd \<and> node_nil k nd = node_nil k (sy_nodes sy ! i)"
  shows "results_listed keys k (node_update i nd sy)"
  using assms by (auto simp: results_listed_def nth_list_update listed_nil_def split: sum.splits)

lemma results_listed_cong:
  "results_listed keys k sy \<Longrightarrow> sy_nodes sy' = sy_nodes sy \<Longrightarrow> sy_main sy' = sy_main sy \<Longrightarrow> results_listed keys k sy'"
  by (simp add: results_listed_def)

lemma results_listed_answer:
  assumes "results_listed keys k sy"
    and "who = AskMain \<Longrightarrow> length (sy_main sy) < length (sy_nodes sy) \<and> node_returned (sy_nodes sy ! length (sy_main sy))
      \<and> sum_list (map (answered a) keys) = word_of_nat (listed_nil k a (sy_nodes sy ! length (sy_main sy)))"
  shows "results_listed keys k (add_answer who a sy)"
  using assms by (cases who) (auto simp: results_listed_def add_answer_def nth_append less_Suc_eq)

lemma results_listed_agent:
  assumes inv: "results_listed keys k sy" and lk: "linked envs c j sy" and i: "i < length (sy_nodes sy)"
    and run: "nd_run (sy_nodes sy ! i) = Some a"
    and step: "agent_step (envs i) (run_args (mr_job (sy_master sy)) (agent_count c) (word_of_nat i))
      (nd_registry (sy_nodes sy ! i)) a e = Next reg a'"
  shows "results_listed keys k (node_update i ((sy_nodes sy ! i)\<lparr>nd_registry := reg, nd_run := Some a'\<rparr>) sy)"
proof (rule results_listed_node[OF inv i])
  have "agent_inv (run_args (mr_job (sy_master sy)) (agent_count c) (word_of_nat i)) a"
    using linked_nodeD[OF lk i] run agent_at_inv by (auto simp: node_ok_def)
  then show "node_returned (sy_nodes sy ! i) \<Longrightarrow>
      node_returned ((sy_nodes sy ! i)\<lparr>nd_registry := reg, nd_run := Some a'\<rparr>)
      \<and> node_nil k ((sy_nodes sy ! i)\<lparr>nd_registry := reg, nd_run := Some a'\<rparr>) = node_nil k (sy_nodes sy ! i)"
    using run agent_nil_stable[OF step] agent_step_returned[OF step] by (simp add: node_returned_def node_nil_def)
qed

text \<open>In a run that loses no call, whoever is asked for the final snapshot has ended its \<^verbatim>\<open>Run\<close>.\<close>

lemma results_listed_step:
  assumes step: "system_step se envs c w sy e = Next w' sy'" and inv: "results_listed (success_keys x) k sy"
    and lk: "linked envs c j sy" and calls: "calls_returned sy"
    and names: "distinct (SessionNames j)" "k \<in> set (SessionNames j)" and x: "SessionMap k = Some x" "success_keys x \<noteq> []"
  shows "results_listed (success_keys x) k sy'"
proof -
  have asked: "node_returned (sy_nodes sy ! i)" if "asking sy AskMain" "i < length (sy_nodes sy)" for i
  proof (rule finished_all_returned[OF lk calls])
    show "mr_stop (sy_master sy)" using lk that(1) by (simp add: linked_def asking_def master_inv_def)
  qed (rule that(2))
  from step show ?thesis
  proof (cases rule: system_step_cases)
    case (setup_agent i order reg m)
    have "results_listed (success_keys x) k (node_update i ((sy_nodes sy ! i)\<lparr>nd_registry := reg\<rparr>) sy)"
      by (rule results_listed_node[OF inv setup_agent(1)]) (simp add: node_returned_def node_nil_def)
    with setup_agent(7) show ?thesis by (auto intro: results_listed_cong)
  next
    case (call i)
    show ?thesis unfolding call(4)
      by (rule results_listed_node[OF inv call(1)]) (use call(3) in \<open>simp add: node_returned_def\<close>)
  next
    case (agent i a ae reg a')
    with results_listed_agent[OF inv lk] show ?thesis by simp
  next
    case (down i)
    show ?thesis unfolding down(2)
      by (rule results_listed_node[OF inv down(1)]) (simp add: node_returned_def node_nil_def)
  next
    case (answer who cput cs)
    show ?thesis unfolding answer(4)
    proof (rule results_listed_answer[OF inv])
      assume "who = AskMain"
      with answer have i: "length (sy_main sy) < length (sy_nodes sy)" and "asking sy AskMain"
        and "agent_ListCounters cput (nd_registry (sy_nodes sy ! length (sy_main sy))) (SessionNames (mr_job (sy_master sy))) = Return cs"
        by (simp_all add: asked_def)
      with node_listed[OF lk i _ names x] asked[OF _ i]
      show "length (sy_main sy) < length (sy_nodes sy) \<and> node_returned (sy_nodes sy ! length (sy_main sy))
          \<and> sum_list (map (answered (Inr cs)) (success_keys x)) =
            word_of_nat (listed_nil k (Inr cs) (sy_nodes sy ! length (sy_main sy)))"
        by (simp add: listed_nil_def answered_Inr)
    qed
  next
    case (no_answer who err sy1)
    have "results_listed (success_keys x) k sy1"
      using no_answer(4) inv by (auto intro!: results_listed_node[OF inv] simp: node_returned_def node_nil_def)
    moreover have "sy_main sy1 = sy_main sy" "length (sy_nodes sy1) = length (sy_nodes sy)"
      "node_returned (sy_nodes sy1 ! i) = node_returned (sy_nodes sy ! i)" for i
      using no_answer(4) by (auto simp: nth_list_update node_returned_def split: if_splits)
    ultimately show ?thesis unfolding no_answer(3)
      using no_answer(1,2) asked
      by (intro results_listed_answer) (auto simp: listed_nil_def answered_def asked_def intro!: sum_list_map_zero)
  qed (use inv in \<open>auto intro: results_listed_cong\<close>)
qed

lemma reach_results:
  assumes "system_reach se envs c j (\<lambda>e. \<not> loses e) w sy"
    and names: "distinct (SessionNames j)" "k \<in> set (SessionNames j)" and x: "SessionMap k = Some x" "success_keys x \<noteq> []"
  shows "results_listed (success_keys x) k sy \<and> results_added c (success_keys x) sy"
  using assms(1)
proof (induction rule: system_reach.induct)
  case (start regs w)
  then show ?case by (simp add: results_listed_def results_added_def system_start_def snapshot_of_def master_start_def)
next
  case (step w sy e w' sy')
  have "''rps'' \<notin> set (success_keys x)" using success_keys_other(2) by blast
  with results_added_step[OF step(3)] step(4)
    results_listed_step[OF step(3) _ system_reach_linked[OF step(1)] reach_calls_returned[OF step(1)] names x]
  show ?case by blast
qed

end
