(* ===== verification/Spec2Isabelle.thy ===== *)
theory Spec2Isabelle
  imports Vmss Cmd Outcomes
begin

text \<open>
  \<^bold>\<open>The program.\<close> Sigbench is a load generator written in Go. A master process, started from the
  command line (\<^verbatim>\<open>cmd/main.go\<close>) or by an HTTP service (\<^verbatim>\<open>service/controllers.go\<close>), connects
  to agent processes, sets up their sessions, runs a job on all of them, and once per second and
  at the end adds up their counters and hands the sum to snapshot writers. An agent
  (\<^verbatim>\<open>agent/agent_controller.go\<close>) runs the phases of the job one after the other; in each phase
  it keeps its share of simulated users of each session running. A user is a goroutine that
  executes a session of \<^verbatim>\<open>sessions/\<close>: a protocol exchange with the system under test that
  updates the atomic counters of the session object.

  \<^bold>\<open>How the code is modelled.\<close> \<^verbatim>\<open>int\<close> and \<^verbatim>\<open>int64\<close> are \<open>64 word\<close> with wrap-around;
  structs are records; \<^verbatim>\<open>error\<close> results, panics and \<^verbatim>\<open>log.Fatal\<close> are values of
  \<open>goerror option\<close>, \<open>'a go\<close> and \<open>step_result\<close>. A function that only computes is a HOL
  function. A function that waits, that calls a library or the network, or that runs beside
  others is a step function: it takes the shared state, the local state of one goroutine or
  user, and an event (the answer of the call, the expiry of a timer, or an internal step), and
  returns the next states, a crash, or that the event is not possible there. All statements about
  such code quantify over every sequence of events, that is, over every behaviour of the
  environment and every interleaving at the granularity of atomic operations, channel operations
  and critical sections. The calls of libraries are events or arguments, so nothing is assumed of
  them beyond the types of their answers.

  \<^bold>\<open>Theories.\<close>
  \<^item> \<open>Sigbench_Prelude\<close>: integers, outcomes, maps, generic lemmas. \<open>Go_Strings\<close>, \<open>Go_Time\<close>,
    \<open>Go_Float\<close>, \<open>Go_Url\<close>: what the program uses of \<^verbatim>\<open>strings\<close> and \<^verbatim>\<open>strconv\<close>,
    \<^verbatim>\<open>time\<close> (with \<^verbatim>\<open>ParseDuration\<close> in full), \<^verbatim>\<open>float64\<close> arithmetic and
    \<^verbatim>\<open>url.QueryEscape\<close>, with their round trips and bounds.
  \<^item> \<open>Job\<close> (\<^verbatim>\<open>base/job.go\<close>), \<open>Vmss\<close> (\<^verbatim>\<open>util/vmss.go\<close>), \<open>Agent_Users\<close>
    (\<^verbatim>\<open>getSessionUsers\<close>): the data of a job and the division of its users.
  \<^item> \<open>Session_Machine\<close>: what all sessions share, and the locales of their interface:
    \<open>session_local_inv\<close> (an invariant of one user), \<open>session_counter\<close> (a counter that is the sum
    of a weight over the users), \<open>session_gauge\<close> (a counter that counts the users in a set of
    states), \<open>session_bounded\<close> (a measure that every step lowers) and \<open>session_api\<close>
    (\<^verbatim>\<open>Setup\<close> clears what \<^verbatim>\<open>Counters\<close> reports). \<open>Session_Trace\<close>: the same runs with
    their history (\<open>sys_trace\<close>), for counters that stand for events. \<open>Broadcast_Loops\<close>: the send and receive
    loops that broadcasting sessions have in common.
  \<^item> One theory per session of \<^verbatim>\<open>sessions/\<close>: \<open>Kafka_Producer\<close>, \<open>Http_Get\<close> with \<open>Quic_Pool\<close>,
    \<open>SignalR_Core_Echo\<close>, \<open>SignalR_Core_Broadcast\<close>, \<open>SignalR_Fx_Broadcast\<close>, \<open>WebPubSub_Echo\<close>,
    \<open>Redis_PubSub\<close>, \<open>RabbitMQ_Queue\<close>, \<open>Pulsar_Queue\<close>. Each has \<^verbatim>\<open>Setup\<close>, \<^verbatim>\<open>Execute\<close> with
    the goroutines it starts, and \<^verbatim>\<open>Counters\<close>, interprets the locales of \<open>Session_Machine\<close> on
    these definitions, and shows that its counters are exact in every interleaving.
  \<^item> \<open>Agent_Phase\<close>: \<^verbatim>\<open>executeSession\<close> and the launcher goroutine of \<^verbatim>\<open>runPhase\<close> over an
    arbitrary session (locales \<open>session_exec\<close> and \<open>session_capped\<close>); \<open>Session_Map\<close>:
    \<^verbatim>\<open>sessions/session.go\<close>, the registry, and the interpretation of these locales on all
    sessions; \<open>Agent_Controller\<close>: the remote methods of an agent.
  \<^item> \<open>Snapshot\<close>: the writers of \<^verbatim>\<open>snapshot/\<close> behind the locale \<open>snapshot_interface\<close>;
    \<open>Master_Controller\<close>: \<^verbatim>\<open>master/\<close> and \<^verbatim>\<open>agent/agent_delegate.go\<close>; \<open>Service\<close>:
    \<^verbatim>\<open>service/\<close>; \<open>Cmd\<close>: \<^verbatim>\<open>cmd/main.go\<close>.
  \<^item> \<open>Composition\<close> and \<open>System\<close>: the agents as the master sees them, and the transition system
    of a master and its agents during one job, with an inductive predicate for its reachable
    states. \<open>Outcomes\<close>: the counters of users that returned without an error, followed from the
    steps of a user to the final snapshot (an interpretation of \<open>agent_tally\<close>, the locale of
    \<open>Agent_Controller\<close> for a value of a session that is a sum over its users in all phases).

  \<^bold>\<open>What is shown.\<close>
  \<^item> For the whole system: the counters of running users that the master reports are the number
    of running users and within what the job asks for, at the end they are 0, the counters of
    successes in the final snapshot are the number of users that succeeded (this theory).
  \<^item> For an agent: its gauge is the number of active users and within its share (for the Pulsar
    session, whose gauge counts queues, the number of open queues); phases run in
    order and do not overlap; \<^verbatim>\<open>Setup\<close> clears the counters; the shares of the agents are the
    greedy division, are not negative and add up to the users of the phase.
  \<^item> For each session: exact counters, and for the broadcasting sessions that a user without an
    error has sent and received all the messages that its parameters ask for; what a counted
    success of the echo session has read.
  \<^item> For the master: the sum does not depend on the order of the agents, the calls are in order,
    \<^verbatim>\<open>Run\<close> is never stuck and returns after a fixed number of its own steps, with its wait
    groups modelled as counters. For the service: one job at a time, no nil controller, the
    registered agents implement a lease per address, which the 5 second ticker of
    \<^verbatim>\<open>autoRegisterAgent\<close> renews in time when posts are answered within 7.5 seconds.
  \<^item> For the writers, the parsers and the pools: round trips, functional behaviour, bounds. That a
    snapshot is visible after a successful write is stated under \<open>complete_writes\<close> (a file takes
    all the bytes it is given), because the JSON writer ignores the error of \<^verbatim>\<open>Write\<close>.
  \<^item> Where the code misbehaves (a goroutine that hangs or leaks, a division by zero, a service
    that is blocked), a theorem states exactly when; that a late tick of the watcher may replace
    the final snapshot is shown by an example.

  \<^bold>\<open>Bounds and fuel.\<close> There is no fuel. The one loop that may run forever,
  \<open>last_idx_loop\<close> of \<^verbatim>\<open>getSessionUsers\<close>, is a \<^theory_text>\<open>partial_function\<close> with \<open>None\<close> for
  divergence; it is proved to return under \<open>shares_fit\<close> (the users and the agents together
  fit in 63 bits) and to diverge for some negative user counts. The other loops of the code are
  program counters of step functions, and sequences of events have any length; that such code
  returns is stated as a bound on its steps together with progress (\<open>session_bounded\<close>; for the
  master, \<open>master_left\<close>). Instants are unbounded integers of nanoseconds, and
  durations saturate as in Go.

  \<^bold>\<open>Not modelled.\<close> The HTML page of the service and its rendering (\<^verbatim>\<open>service/controllers.go\<close>,
  lines 69 to 160): text without state. The methods of \<^verbatim>\<open>quicConn\<close> in \<^verbatim>\<open>sessions/quic.go\<close>,
  which forward to a stream. Log output, except for the lines of \<^verbatim>\<open>printCounters\<close>. What the
  client libraries (Kafka, Pulsar, AMQP, Redis, websockets, HTTP, QUIC, InfluxDB,
  \<^verbatim>\<open>net/rpc\<close>) do beyond their answers. The encoding of JSON, of which the decoder and the encoder
  are arguments. Time passes only as the order of events: a timer may expire at any moment after
  it was started; only the registration of agents has times, those of its ticker, of the answers
  and of the checks. Unsynchronised accesses of the service to \<^verbatim>\<open>masterController\<close> outside its lock
  are taken as atomic.
\<close>

text \<open>
  C4: the counter of running users that the master reports is the number of running users of
  the whole system, and stays within the users of the phase. Take any states of the agents of a
  job, each reached by its own set-up and its own interleaving of its own goroutines, with every
  agent in the phase \<open>p\<close> or before its first phase. When the master collects the counters of
  all of them, the gauge of a session in the result is the sum over the agents of the users
  inside \<^verbatim>\<open>Execute\<close> (for RabbitMQ and HTTP, in the section of it that the session
  counts), with no wrap-around, and is at most the number of users that
  \<open>p\<close> asks for that session: the shares of the agents, the gauges of the sessions and the sums
  of the master compose.
\<close>

theorem master_inprogress_bounded:
  assumes names: "distinct (SessionNames j)" "s < length (SessionNames j)"
    and key: "SessionMap (SessionNames j ! s) = Some x" "gauge_key x = Some key"
    and fit: "shares_fit (total_session_users p (SessionPercentages j ! s)) n"
    and agents: "\<And>i. i < nat (sint n) \<Longrightarrow> agent_at (envs i) j n (word_of_nat i) (st i) (a i)
      \<and> (ar_phases (a i) = [] \<or> ph_phase (last (ar_phases (a i))) = p)
      \<and> agent_ListCounters (cput i) (st i) (SessionNames j) = Return (cs i)"
    and collect: "collectCounters j clock (map (\<lambda>i. Inr (cs i)) [0..<nat (sint n)]) = Return m"
  shows "sint (cnt_get m key) = (\<Sum>i < nat (sint n). int (agent_active (SessionNames j ! s) (a i)))
    \<and> sint (cnt_get m key) \<le> sint (total_session_users p (SessionPercentages j ! s))"
proof -
  let ?k = "SessionNames j ! s" and ?N = "nat (sint n)" and ?t = "total_session_users p (SessionPercentages j ! s)"
  let ?act = "\<lambda>i. agent_active ?k (a i)"
  obtain us where us: "map (\<lambda>i. get_session_users p (SessionPercentages j ! s) n (word_of_nat i)) [0..<?N] =
      map (\<lambda>u. Some (Return u)) us" "sum_list (map sint us) = sint ?t" "list_all (\<lambda>u. 0 \<le> sint u) us"
    using session_shares[OF fit] by (auto simp: list_all_iff)
  have len: "length us = ?N" using us(1) by (metis length_map length_upt minus_nat.diff_0)
  have share: "get_session_users p (SessionPercentages j ! s) n (word_of_nat i) = Some (Return (us ! i))" "0 \<le> sint (us ! i)"
    if "i < ?N" for i
    using arg_cong[OF us(1), of "\<lambda>xs. xs ! i"] us(3) that by (auto simp: len list_all_length)
  have agent: "cnt_get (cs i) key = word_of_nat (?act i)" "int (?act i) \<le> sint (us ! i)" if i: "i < ?N" for i
  proof -
    have ag: "agent_at (envs i) j n (word_of_nat i) (st i) (a i)" "ar_phases (a i) = [] \<or> ph_phase (last (ar_phases (a i))) = p"
      "agent_ListCounters (cput i) (st i) (SessionNames j) = Return (cs i)"
      using agents[OF i] by auto
    show "int (?act i) \<le> sint (us ! i)" by (rule agent_at_share[OF ag(1) names ag(2) share[OF i]])
    show "cnt_get (cs i) key = word_of_nat (?act i)"
      by (rule agent_at_listed[OF ag(1) names(1) nth_mem[OF names(2)] key ag(3)])
  qed
  have "cnt_get m key = sum_list (map (\<lambda>i. cnt_get (cs i) key) [0..<?N])"
    using gauge_collected[OF collect key(2)] by (simp add: answered_def comp_def)
  also have "\<dots> = (\<Sum>i < ?N. word_of_nat (?act i))"
    using agent(1) by (simp add: interv_sum_list_conv_sum_set_nat atLeast0LessThan)
  finally have m: "cnt_get m key = word_of_int (\<Sum>i < ?N. int (?act i))" by simp
  have "(\<Sum>i < ?N. int (?act i)) \<le> (\<Sum>i < ?N. sint (us ! i))"
    by (rule sum_mono) (use agent(2) in auto)
  also have "\<dots> = sint ?t"
    using us(2) by (simp add: sum_list_sum_nth len atLeast0LessThan)
  finally have le: "(\<Sum>i < ?N. int (?act i)) \<le> sint ?t" .
  moreover have "0 \<le> (\<Sum>i < ?N. int (?act i))" by (rule sum_nonneg) simp
  ultimately have "in_int64 (\<Sum>i < ?N. int (?act i))"
    using in_int64_sint[of ?t] by (auto simp: in_int64_def)
  then show ?thesis using le by (simp only: m sint_of_int_exact simp_thms)
qed

theorem master_inprogress_bounded_witness:
  "\<exists>a cs m. agent_at demo_session_env (ra_Job demo_agent_args) 1 0
       (demo_ready(''kafka:producer'' \<mapsto> OKafka (demo_kafka\<lparr>k_cntInProgress := 1\<rparr>))) a
     \<and> agent_ListCounters None (demo_ready(''kafka:producer'' \<mapsto> OKafka (demo_kafka\<lparr>k_cntInProgress := 1\<rparr>)))
         [''kafka:producer''] = Return cs
     \<and> collectCounters (ra_Job demo_agent_args) (\<lambda>_. 0) [Inr cs] = Return m
     \<and> sint (cnt_get m ''kafka:producer:inprogress'') = int (agent_active ''kafka:producer'' a)
     \<and> sint (cnt_get m ''kafka:producer:inprogress'') \<le> 2"
proof -
  let ?j = "ra_Job demo_agent_args"
  let ?st = "demo_ready(''kafka:producer'' \<mapsto> OKafka (demo_kafka\<lparr>k_cntInProgress := 1\<rparr>))"
  let ?a = "demo_user_run [TUser UExecute (UKafka \<lparr>k_ctx = \<lparr>UserId = ''u'', ctx_Phase = ''p'',
        ctx_Params = [''messageSize'' \<mapsto> ''1'', ''partition'' \<mapsto> ''0'']\<rparr>, k_pc = KEntered\<rparr>)]"
  have args: "run_args ?j 1 0 = demo_agent_args" by (simp add: demo_agent_args_def run_args_def)
  have names: "SessionNames ?j = [''kafka:producer'']" and pct: "SessionPercentages ?j = [Fin 1 0]"
    by (simp_all add: demo_agent_args_def)
  obtain x0 where x0: "SessionMap ''kafka:producer'' = Some x0" "gauge_key x0 = Some ''kafka:producer:inprogress''"
    by (simp add: SessionMap_def gauge_key_def)
  have typed: "registry_typed demo_registry" and order: "set [''kafka:producer''] = dom demo_registry"
    by (simp_all add: registry_typed_def demo_registry_def SessionMap_def obj_Name_def)
  have at: "agent_at demo_session_env ?j 1 0 ?st ?a"
    unfolding agent_at_def args
    by (intro exI conjI) (rule typed, rule order, rule demo_agent_Setup, rule demo_agent_entered)
  have t: "total_session_users (demo_phase 2) (Fin 1 0) = 2" by code_simp
  obtain cs where cs: "agent_ListCounters None ?st [''kafka:producer''] = Return cs"
    by (simp add: agent_ListCounters_def demo_ready_def obj_Counters_def)
  obtain m where m: "collectCounters ?j (\<lambda>_. 0) [Inr cs] = Return m"
    by (simp add: collectCounters_def names SessionMap_def obj_AggregateCounters_def)
  have "sint (cnt_get m ''kafka:producer:inprogress'') = (\<Sum>i < nat (sint (1 :: goint)). int (agent_active (SessionNames ?j ! 0) ?a))
    \<and> sint (cnt_get m ''kafka:producer:inprogress'') \<le> sint (total_session_users (demo_phase 2) (SessionPercentages ?j ! 0))"
    by (rule master_inprogress_bounded[where st = "\<lambda>_. ?st" and a = "\<lambda>_. ?a" and cs = "\<lambda>_. cs" and x = x0
          and n = 1 and clock = "\<lambda>_. 0" and cput = "\<lambda>_. None" and envs = "\<lambda>_. demo_session_env"])
      (use x0 at cs m in \<open>simp_all add: names pct t shares_fit_def demo_user_run_def\<close>)
  then show ?thesis using at cs m by (auto simp: names pct t)
qed

text \<open>
  C1: the number of running users that a snapshot reports never exceeds what the job asks for
  by more than the rounding of the shares. In every reachable state of the system of the master
  and its agents, for every interleaving of goroutines, remote calls, lost connections and
  agents that die, and although the agents are asked one after the other while they go on: when
  every phase asks for at most \<open>T\<close> users of a session, the gauge of that session in a snapshot
  that is about to be written, by the watcher or at the end, lies between 0 and
  \<open>n * \<lceil>T / n\<rceil>\<close>, which is less than \<open>T + n\<close>, for \<open>n\<close> agents.
\<close>

theorem system_gauge_bounded:
  assumes "system_reach se envs c j ok w sy" and "snapshot_of (sy_master sy) who cs"
    and "distinct (SessionNames j)" and "s < length (SessionNames j)"
    and "SessionMap (SessionNames j ! s) = Some x" and "gauge_key x = Some key" and "demand_fits c j s T"
  shows "0 \<le> sint (cnt_get cs key)
    \<and> sint (cnt_get cs key) \<le> int (length (mc_Agents c)) * ceil_div T (int (length (mc_Agents c)))
    \<and> sint (cnt_get cs key) < T + int (length (mc_Agents c))"
proof -
  have "0 < int (length (mc_Agents c))" using assms(7) by (auto simp: demand_fits_def)
  with reach_within_demand[OF assms(1,3-7), of who] assms(2) ceil_div_times[of "int (length (mc_Agents c))" T]
  show ?thesis by (auto simp: within_def)
qed

text \<open>A system of one agent: its set-up, and a user that has entered \<^verbatim>\<open>Execute\<close> when the watcher asks.\<close>

definition demo_nodes_registry :: registry where
  "demo_nodes_registry = SessionMap(''kafka:producer'' \<mapsto> OKafka (demo_kafka\<lparr>k_cntError := 5\<rparr>))"

definition demo_nodes_ready :: registry where
  "demo_nodes_ready = SessionMap(''kafka:producer'' \<mapsto> OKafka demo_kafka)"

definition demo_prepare :: "system_event list" where
  "demo_prepare = [SyMaster (MvStart 0), SySetup 0 SessionNamesList, SyMaster (MvSetupWg 0),
     SyMaster MvSetupDone, SyCall 0]"

definition demo_running :: "agent_node \<Rightarrow> system" where
  "demo_running nd = \<lparr>sy_master = \<lparr>mr_job = ra_Job demo_agent_args, mr_pc = MRunning, mr_setup = [True],
     mr_setup_done = [True], mr_setup_wg = 0, mr_calls = [False], mr_calls_done = [False], mr_wg = 1, mr_stop = False, mr_watch = WatchSelect\<rparr>, sy_nodes = [nd], sy_main = [], sy_watch = []\<rparr>"

lemma demo_fresh: "fresh_registry demo_nodes_registry"
proof -
  have "\<exists>y. SessionMap ''kafka:producer'' = Some y \<and> obj_Name (OKafka k) = obj_Name y" for k
    by (simp add: SessionMap_def obj_Name_def)
  moreover have "''kafka:producer'' \<in> dom SessionMap" by (simp add: dom_SessionMap SessionNamesList_def)
  ultimately show ?thesis
    by (auto simp: fresh_registry_def registry_typed_def demo_nodes_registry_def)
qed

lemma demo_nodes_Setup:
  "agent_Setup demo_session_env SessionNamesList [''kafka:producer''] [''messageSize'' \<mapsto> ''1'', ''partition'' \<mapsto> ''0''] demo_nodes_registry =
     Return (demo_nodes_ready, None)"
  by (simp add: agent_Setup_def SessionNamesList_def demo_nodes_registry_def demo_nodes_ready_def obj_Setup_def wrap_def
      demo_session_env_def demo_kafka_Setup)

lemma demo_prepared:
  "run_events (system_step se (\<lambda>_. demo_session_env) demo_master) w
     (system_start (ra_Job demo_agent_args) [demo_nodes_registry]) demo_prepare =
   Next w (demo_running \<lparr>nd_up = True, nd_registry = demo_nodes_ready, nd_run = Some agent_start\<rparr>)"
proof -
  have job: "ra_Job demo_agent_args\<lparr>StartTime := 0\<rparr> = ra_Job demo_agent_args" by (simp add: demo_agent_args_def)
  have names: "SessionNames (ra_Job demo_agent_args) = [''kafka:producer'']"
    "SessionParams (ra_Job demo_agent_args) = [''messageSize'' \<mapsto> ''1'', ''partition'' \<mapsto> ''0'']"
    by (simp_all add: demo_agent_args_def)
  show ?thesis
    by (simp add: demo_prepare_def system_step_def Let_def internal_def master_next_def serve_setup_def demo_nodes_Setup names job
        system_start_def master_start_def master_step_defs demo_master_def demo_running_def node_update_def)
qed

lemma demo_system_start: "system_reach se envs demo_master j ok w (system_start j [demo_nodes_registry])"
  by (rule system_reach.start) (simp_all add: demo_master_def demo_fresh)

lemmas demo_nodes_defs = demo_nodes_ready_def demo_enter_def demo_agent_args_def agent_start_def agent_step_def phase_step_def
  phase_launch_def phase_start_def launch_start_def launch_step_def execute_session_def demo_users Let_def run_args_def demo_master_def

definition demo_entered :: "agent_event list" where
  "demo_entered = demo_enter (Inr ''u'') @ [AvPhase 0 (PvRun 0 (LvThread 0 (TvSession (EKafka KGo))))]"

lemma demo_node_entered:
  "run_events (agent_step demo_session_env (run_args (ra_Job demo_agent_args) (agent_count demo_master) (word_of_nat 0)))
     demo_nodes_ready agent_start demo_entered =
   Next (SessionMap(''kafka:producer'' \<mapsto> OKafka (demo_kafka\<lparr>k_cntInProgress := 1\<rparr>)))
     (demo_user_run [TUser UExecute (UKafka \<lparr>k_ctx = \<lparr>UserId = ''u'', ctx_Phase = ''p'',
        ctx_Params = [''messageSize'' \<mapsto> ''1'', ''partition'' \<mapsto> ''0'']\<rparr>, k_pc = KEntered\<rparr>)])"
  by (simp add: demo_nodes_defs demo_entered_def demo_user_run_def obj_step_def obj_start_def kafka_start_def kafka_step_def
      demo_phase_Name demo_kafka_def)

lemma demo_node_run:
  assumes "run_events (agent_step demo_session_env (run_args (ra_Job demo_agent_args) (agent_count demo_master) (word_of_nat 0))) reg a es =
    Next reg' a'"
  shows "run_events (system_step se (\<lambda>_. demo_session_env) demo_master) w
      (demo_running \<lparr>nd_up = True, nd_registry = reg, nd_run = Some a\<rparr>) (map (SyAgent 0) es) =
    Next w (demo_running \<lparr>nd_up = True, nd_registry = reg', nd_run = Some a'\<rparr>)"
proof -
  have sy: "mr_job (sy_master (demo_running nd)) = ra_Job demo_agent_args" "0 < length (sy_nodes (demo_running nd))"
    "sy_nodes (demo_running nd) ! 0 = nd" "node_update 0 nd' (demo_running nd) = demo_running nd'" for nd nd'
    by (simp_all add: demo_running_def node_update_def)
  show ?thesis
    using system_agent_run[where envs = "\<lambda>_. demo_session_env" and c = demo_master and i = 0,
        of "demo_running \<lparr>nd_up = True, nd_registry = reg, nd_run = Some a\<rparr>", unfolded sy, OF assms]
    by (simp add: demo_running_def)
qed

definition demo_tick_events :: "system_event list" where
  "demo_tick_events = demo_prepare @ map (SyAgent 0) demo_entered @ [SyAsk AskWatch (Inr None), SyTick (\<lambda>_. 0)]"

lemma demo_ticked:
  "\<exists>sy cs. run_events (system_step se (\<lambda>_. demo_session_env) demo_master) w
      (system_start (ra_Job demo_agent_args) [demo_nodes_registry]) demo_tick_events = Next w sy
    \<and> snapshot_of (sy_master sy) AskWatch cs \<and> cnt_get cs ''kafka:producer:inprogress'' = 1"
proof -
  have names: "SessionNames (ra_Job demo_agent_args) = [''kafka:producer'']" by (simp add: demo_agent_args_def)
  show ?thesis
    unfolding demo_tick_events_def run_events_append demo_prepared step_result.case demo_node_run[OF demo_node_entered]
    by (simp add: names demo_running_def node_update_def system_step_def serve_ask_def asked_def
        asking_def add_answer_def Let_def agent_ListCounters_def obj_Counters_def kafka_Counters_def get_system_counters_def
        master_next_def master_step_defs demo_master_def collectCounters_def SessionMap_def obj_AggregateCounters_def
        snapshot_of_def counters_add_def cnt_get_def)
qed

theorem system_gauge_bounded_witness:
  "\<exists>sy cs. run_events (system_step demo_snapshot_env (\<lambda>_. demo_session_env) demo_master) demo_world
      (system_start (ra_Job demo_agent_args) [demo_nodes_registry]) demo_tick_events = Next demo_world sy
    \<and> snapshot_of (sy_master sy) AskWatch cs
    \<and> sint (cnt_get cs ''kafka:producer:inprogress'') = 1 \<and> sint (cnt_get cs ''kafka:producer:inprogress'') < 2 + 1"
proof -
  obtain sy cs where run: "run_events (system_step demo_snapshot_env (\<lambda>_. demo_session_env) demo_master) demo_world
      (system_start (ra_Job demo_agent_args) [demo_nodes_registry]) demo_tick_events = Next demo_world sy"
    and cs: "snapshot_of (sy_master sy) AskWatch cs" "cnt_get cs ''kafka:producer:inprogress'' = 1"
    using demo_ticked by blast
  have reach: "system_reach demo_snapshot_env (\<lambda>_. demo_session_env) demo_master (ra_Job demo_agent_args) (\<lambda>_. True) demo_world sy"
    by (rule system_run_reach[OF run demo_system_start]) (simp add: list_all_iff)
  have t: "total_session_users (demo_phase 2) (Fin 1 0) = 2" by code_simp
  have fits: "demand_fits demo_master (ra_Job demo_agent_args) 0 2"
    by (simp add: demand_fits_def demo_master_def demo_agent_args_def t)
  have names: "SessionNames (ra_Job demo_agent_args) = [''kafka:producer'']" by (simp add: demo_agent_args_def)
  obtain x where "SessionMap ''kafka:producer'' = Some x" "gauge_key x = Some ''kafka:producer:inprogress''"
    by (simp add: SessionMap_def gauge_key_def)
  from system_gauge_bounded[OF reach cs(1) _ _ _ this(2) fits] this(1) names
  have "sint (cnt_get cs ''kafka:producer:inprogress'') < 2 + int (length (mc_Agents demo_master))" by simp
  then show ?thesis using run cs by (auto simp: demo_master_def)
qed

text \<open>
  C2: a job ends quietly. In every run of the system in which no connection of a running call
  is lost, when the master has added up the counters of its final snapshot, \<^verbatim>\<open>Run\<close> of every
  agent has returned, and the final snapshot reports 0 running users for every session of the
  job that has a gauge, also when an agent does not answer the last question.
\<close>

theorem system_final_quiet:
  assumes "system_reach se envs c j (\<lambda>e. \<not> loses e) w sy" and "snapshot_of (sy_master sy) AskMain cs"
    and "distinct (SessionNames j)" and "k \<in> set (SessionNames j)" and "SessionMap k = Some x" and "gauge_key x = Some key"
  shows "list_all node_returned (sy_nodes sy) \<and> cnt_get cs key = 0"
proof -
  note lk = system_reach_linked[OF assms(1)]
  have "mr_stop (sy_master sy)" using lk assms(2) by (auto simp: linked_def snapshot_of_def master_inv_def)
  then have returned: "list_all node_returned (sy_nodes sy)"
    using finished_all_returned[OF lk reach_calls_returned[OF assms(1)]] by (simp add: list_all_length)
  have "sint (cnt_get cs key) = 0"
    using reach_final_quiet[OF assms(1,3-6)] assms(2) by (force simp: within_def)
  then have "cnt_get cs key = 0" by (metis signed_0 signed_word_eqI)
  with returned show ?thesis by simp
qed

text \<open>The same job to its end: the user writes its message and returns, and the phase and the job finish.\<close>

definition demo_phase_events :: "agent_event list" where
  "demo_phase_events = demo_entered
     @ map (\<lambda>e. AvPhase 0 (PvRun 0 (LvThread 0 e))) (map (TvSession \<circ> EKafka)
         [KGo, KDialLeader '''' '''' 0 None, KWriteMessages [7] (Inr 1), KGo, KGo] @ [TvReturn, TvGo, TvGo])
     @ [AvPhase 0 PvMain, AvPhase 0 (PvRun 0 LvTimer), AvPhase 0 (PvRun 0 LvAfter), AvPhase 0 (PvRun 0 LvWait),
        AvPhase 0 PvMain, AvMain]"

definition demo_final_events :: "system_event list" where
  "demo_final_events = demo_prepare @ map (SyAgent 0) demo_phase_events @
     [SyReturn 0, SyMaster (MvRunWg 0), SyMaster MvRunDone, SyAsk AskMain (Inr None), SyCollect (\<lambda>_. 0)]"

lemma demo_node_returned:
  "\<exists>a. run_events (agent_step demo_session_env (run_args (ra_Job demo_agent_args) (agent_count demo_master) (word_of_nat 0)))
     demo_nodes_ready agent_start demo_phase_events =
   Next (SessionMap(''kafka:producer'' \<mapsto> OKafka (demo_kafka\<lparr>k_cntSuccess := 1, k_cntWritten := 1\<rparr>))) a
     \<and> ar_returned a \<and> agent_nil ''kafka:producer'' a = 1"
  unfolding demo_phase_events_def run_events_append demo_node_entered step_result.case
  by (simp add: demo_nodes_defs demo_user_run_def obj_step_def kafka_step_def demo_kafka_def obj_result_def kafka_result_def
      str_get_def atoi_def parse_int_def parse_uint_def digit_val_def word_sless_alt
      agent_nil_def phase_nil_def run_nil_def thread_nil_def counted_def)

lemma demo_finished:
  "\<exists>sy cs. run_events (system_step se (\<lambda>_. demo_session_env) demo_master) w
      (system_start (ra_Job demo_agent_args) [demo_nodes_registry]) demo_final_events = Next w sy
    \<and> snapshot_of (sy_master sy) AskMain cs \<and> sum_list (map2 (listed_nil ''kafka:producer'') (sy_main sy) (sy_nodes sy)) = 1"
proof -
  have names: "SessionNames (ra_Job demo_agent_args) = [''kafka:producer'']" by (simp add: demo_agent_args_def)
  obtain a where a: "run_events (agent_step demo_session_env (run_args (ra_Job demo_agent_args) (agent_count demo_master) (word_of_nat 0)))
     demo_nodes_ready agent_start demo_phase_events =
     Next (SessionMap(''kafka:producer'' \<mapsto> OKafka (demo_kafka\<lparr>k_cntSuccess := 1, k_cntWritten := 1\<rparr>))) a"
    "ar_returned a" "agent_nil ''kafka:producer'' a = 1"
    using demo_node_returned by blast
  show ?thesis
    unfolding demo_final_events_def run_events_append demo_prepared step_result.case demo_node_run[OF a(1)]
    by (simp add: names a(2,3) demo_running_def node_update_def system_step_def internal_def serve_ask_def asked_def
        asking_def add_answer_def Let_def agent_ListCounters_def obj_Counters_def listed_nil_def node_nil_def
        master_next_def master_step_defs demo_master_def collectCounters_def SessionMap_def obj_AggregateCounters_def
        snapshot_of_def)
qed

lemma demo_final_reach:
  assumes "run_events (system_step se (\<lambda>_. demo_session_env) demo_master) w
      (system_start (ra_Job demo_agent_args) [demo_nodes_registry]) demo_final_events = Next w' sy"
  shows "system_reach se (\<lambda>_. demo_session_env) demo_master (ra_Job demo_agent_args) (\<lambda>e. \<not> loses e) w' sy"
  by (rule system_run_reach[OF assms demo_system_start])
    (simp add: demo_final_events_def demo_prepare_def loses_def list_all_iff)

theorem system_final_quiet_witness:
  "\<exists>sy cs. run_events (system_step demo_snapshot_env (\<lambda>_. demo_session_env) demo_master) demo_world
      (system_start (ra_Job demo_agent_args) [demo_nodes_registry]) demo_final_events = Next demo_world sy
    \<and> snapshot_of (sy_master sy) AskMain cs
    \<and> list_all node_returned (sy_nodes sy) \<and> cnt_get cs ''kafka:producer:inprogress'' = 0"
proof -
  obtain sy cs where run: "run_events (system_step demo_snapshot_env (\<lambda>_. demo_session_env) demo_master) demo_world
      (system_start (ra_Job demo_agent_args) [demo_nodes_registry]) demo_final_events = Next demo_world sy"
    and cs: "snapshot_of (sy_master sy) AskMain cs"
    using demo_finished by blast
  have names: "SessionNames (ra_Job demo_agent_args) = [''kafka:producer'']" by (simp add: demo_agent_args_def)
  obtain x where "SessionMap ''kafka:producer'' = Some x" "gauge_key x = Some ''kafka:producer:inprogress''"
    by (simp add: SessionMap_def gauge_key_def)
  from system_final_quiet[OF demo_final_reach[OF run] cs _ _ this] names run cs show ?thesis by auto
qed

text \<open>
  C3: the final snapshot reports the results that the users had. In every run of the system in
  which no connection of a running call is lost, whatever the goroutines, calls and answers
  interleave: in the counters that the master has added up for its final snapshot, the counters
  of a session of the job that tell its successful users (with the users of the broadcasting
  sessions that got no answer to their close message, and with the failed requests of the HTTP
  session, whose \<^verbatim>\<open>Execute\<close> returns nil too) sum up to the number of users of that session,
  over all phases and over all agents that answered the last question, whose \<^verbatim>\<open>Execute\<close>
  returned nil: none is lost, none is counted twice, and none is left over from an earlier job.
\<close>

theorem system_success_exact:
  assumes "system_reach se envs c j (\<lambda>e. \<not> loses e) w sy" and "snapshot_of (sy_master sy) AskMain cs"
    and "distinct (SessionNames j)" and "k \<in> set (SessionNames j)" and "SessionMap k = Some x" and "success_keys x \<noteq> []"
  shows "length (sy_main sy) = length (sy_nodes sy)
    \<and> sum_list (map (cnt_get cs) (success_keys x)) =
        word_of_nat (sum_list (map2 (listed_nil k) (sy_main sy) (sy_nodes sy)))"
proof -
  note inv = reach_results[OF assms(1,3-6)]
  have len: "length (sy_main sy) = length (sy_nodes sy)"
    using inv assms(2) system_reach_linked[OF assms(1)] by (auto simp: results_added_def linked_def)
  have "map (\<lambda>a. sum_list (map (answered a) (success_keys x))) (sy_main sy) =
      map word_of_nat (map2 (listed_nil k) (sy_main sy) (sy_nodes sy))"
    using inv len by (intro nth_equalityI) (auto simp: results_listed_def)
  with inv assms(2) len show ?thesis by (simp add: results_added_def of_nat_sum_list o_def)
qed

theorem system_success_exact_witness:
  "\<exists>sy cs. run_events (system_step demo_snapshot_env (\<lambda>_. demo_session_env) demo_master) demo_world
      (system_start (ra_Job demo_agent_args) [demo_nodes_registry]) demo_final_events = Next demo_world sy
    \<and> snapshot_of (sy_master sy) AskMain cs
    \<and> sum_list (map2 (listed_nil ''kafka:producer'') (sy_main sy) (sy_nodes sy)) = 1
    \<and> cnt_get cs ''kafka:producer:success'' = 1"
proof -
  obtain sy cs where run: "run_events (system_step demo_snapshot_env (\<lambda>_. demo_session_env) demo_master) demo_world
      (system_start (ra_Job demo_agent_args) [demo_nodes_registry]) demo_final_events = Next demo_world sy"
    and cs: "snapshot_of (sy_master sy) AskMain cs"
    and one: "sum_list (map2 (listed_nil ''kafka:producer'') (sy_main sy) (sy_nodes sy)) = 1"
    using demo_finished by blast
  have names: "SessionNames (ra_Job demo_agent_args) = [''kafka:producer'']" by (simp add: demo_agent_args_def)
  obtain x where x: "SessionMap ''kafka:producer'' = Some x" "success_keys x = [''kafka:producer:success'']"
    by (simp add: SessionMap_def success_keys_def)
  from system_success_exact[OF demo_final_reach[OF run] cs _ _ x(1)] names x(2) one run cs show ?thesis by auto
qed

end
